(* ===== verification/Prelude.thy ===== *)
theory Prelude
  imports Main "HOL-Library.Word" "HOL-Library.Monad_Syntax"
begin

unbundle bit_operations_syntax

text \<open>
  Shared vocabulary of the development: names for the machine integers of the C
  sources, the failure convention, and the generic facts on lists and words that
  the component theories use.

  \<^bold>\<open>Failure.\<close> A C function that can panic (a failing \<open>assert\<close> or
  \<open>kernel_assert\<close>, \<open>kernel_panic\<close>, \<open>kernel_freeze\<close>, a trap on a NULL or out of
  bounds capability, a spin on a lock that nobody can release) returns an
  \<open>option\<close>, and \<open>None\<close> is the panic. Error codes that the C code returns are
  ordinary values inside \<open>Some\<close>. \<open>kassert\<close> is \<open>kernel_assert\<close>.
\<close>

type_synonym u8 = "8 word"
type_synonym u16 = "16 word"
type_synonym u32 = "32 word"
type_synonym u64 = "64 word"

definition kassert :: "bool \<Rightarrow> unit option" where
  "kassert b = (if b then Some () else None)"

lemma kassert_bind [simp]: "Option.bind (kassert b) f = (if b then f () else None)"
  by (simp add: kassert_def)

lemma kassert_simps [simp]: "kassert True = Some ()" "kassert False = None"
  by (simp_all add: kassert_def)

lemma if_None_eq_Some [simp]:
  "(if b then x else None) = Some y \<longleftrightarrow> b \<and> x = Some y"
  "(if b then None else x) = Some y \<longleftrightarrow> \<not> b \<and> x = Some y"
  by auto

lemmas bind_Some_conv = Option.bind_eq_Some_conv

text \<open>A counted loop whose body may fail: the body runs on the elements in order.\<close>

fun for_each :: "('a \<Rightarrow> 's \<Rightarrow> 's option) \<Rightarrow> 'a list \<Rightarrow> 's \<Rightarrow> 's option" where
  "for_each f [] s = Some s"
| "for_each f (x # xs) s = Option.bind (f x s) (for_each f xs)"

lemma for_each_append: "for_each f (xs @ ys) s = Option.bind (for_each f xs s) (for_each f ys)"
  by (induction xs arbitrary: s) (auto simp: bind_assoc intro: option.expand split: bind_splits)

text \<open>An invariant of the body, relative to the elements already visited, is established by the loop.\<close>

lemma for_each_inv:
  assumes "P [] s" "\<And>xs x ys s. zs = xs @ x # ys \<Longrightarrow> P xs s \<Longrightarrow> \<exists>s'. f x s = Some s' \<and> P (xs @ [x]) s'"
  shows "\<exists>s'. for_each f zs s = Some s' \<and> P zs s'"
proof -
  have "\<exists>s'. for_each f ys s = Some s' \<and> P (xs @ ys) s'" if "zs = xs @ ys" "P xs s" for xs ys s
    using that
  proof (induction ys arbitrary: xs s)
    case (Cons y ys)
    then obtain s1 where s1: "f y s = Some s1" "P (xs @ [y]) s1" using assms(2) by blast
    with Cons.IH [of "xs @ [y]" s1] Cons.prems show ?case by simp
  qed simp
  from this [of "[]" zs s] assms(1) show ?thesis by simp
qed

subsection \<open>Capabilities\<close>

text \<open>
  A CHERI capability as the C code uses one: \<open>CNull\<close> is NULL, \<open>Untagged a\<close> any other
  pointer without a tag, with the address \<open>a\<close>; \<open>Cap b off t\<close> is a tagged capability to the object at address
  \<open>b\<close> with the cursor at offset \<open>off\<close>, sealed with object type \<open>t\<close> when \<open>t\<close> is
  not \<open>None\<close>. Sealing an already sealed or untagged capability and unsealing
  with the wrong type trap.
\<close>

datatype capability = CNull | Untagged u64 | Cap (cap_base: nat) (cap_off: u64) (cap_otype: "u64 option")
where
  "cap_otype CNull = None"
| "cap_otype (Untagged _) = None"

fun cheri_gettag :: "capability \<Rightarrow> bool" where
  "cheri_gettag (Cap _ _ _) = True"
| "cheri_gettag _ = False"

fun cheri_getcursor :: "capability \<Rightarrow> u64" where
  "cheri_getcursor CNull = 0"
| "cheri_getcursor (Untagged a) = a"
| "cheri_getcursor (Cap b off _) = of_nat b + off"

fun cheri_seal :: "capability \<Rightarrow> u64 \<Rightarrow> capability option" where
  "cheri_seal (Cap b off None) t = Some (Cap b off (Some t))"
| "cheri_seal _ _ = None"

fun cheri_unseal :: "capability \<Rightarrow> u64 \<Rightarrow> capability option" where
  "cheri_unseal (Cap b off (Some t')) t = (if t' = t then Some (Cap b off None) else None)"
| "cheri_unseal _ _ = None"

lemma cheri_unseal_seal: "cheri_seal c t = Some c' \<Longrightarrow> cheri_unseal c' t = Some c"
  by (cases "(c, t)" rule: cheri_seal.cases) auto

subsection \<open>Lists: removal by moving the last element\<close>

text \<open>
  \<open>swap_remove xs i\<close> overwrites position \<open>i\<close> with the last element and drops the
  last position: the list view of deleting from an unordered array.
\<close>

definition swap_remove :: "'a list \<Rightarrow> nat \<Rightarrow> 'a list" where
  "swap_remove xs i = butlast (xs[i := last xs])"

lemma length_swap_remove [simp]: "length (swap_remove xs i) = length xs - 1"
  by (simp add: swap_remove_def)

lemma nth_swap_remove:
  assumes "j < length xs - 1"
  shows "swap_remove xs i ! j = (if j = i then last xs else xs ! j)"
  using assms by (simp add: swap_remove_def nth_butlast nth_list_update)

lemma set_swap_remove:
  assumes d: "distinct xs" and i: "i < length xs"
  shows "set (swap_remove xs i) = set xs - {xs ! i}"
proof -
  define n where "n = length xs - 1"
  have len: "length xs = Suc n" and lastn: "last xs = xs ! n"
    using i by (auto simp: n_def last_conv_nth length_greater_0_conv [symmetric]
        simp del: length_greater_0_conv)
  have neq: "\<And>a b. a < Suc n \<Longrightarrow> b < Suc n \<Longrightarrow> xs ! a = xs ! b \<longleftrightarrow> a = b"
    using d len by (simp add: nth_eq_iff_index_eq)
  have sr: "\<And>j. j < n \<Longrightarrow> swap_remove xs i ! j = (if j = i then xs ! n else xs ! j)"
    using nth_swap_remove [of _ xs i] lastn len by simp
  show ?thesis
  proof (intro set_eqI iffI)
    fix x assume "x \<in> set (swap_remove xs i)"
    then obtain j where j: "j < n" "x = swap_remove xs i ! j"
      by (auto simp: in_set_conv_nth len)
    with sr [of j] neq i len show "x \<in> set xs - {xs ! i}"
      by (auto split: if_splits)
  next
    fix x assume "x \<in> set xs - {xs ! i}"
    then obtain j where j: "j < Suc n" "x = xs ! j" "j \<noteq> i"
      by (auto simp: in_set_conv_nth len)
    show "x \<in> set (swap_remove xs i)"
    proof (cases "j = n")
      case True
      with j i len have "i < n" by simp
      then show ?thesis using sr [of i] True j len by (force simp: in_set_conv_nth)
    next
      case False
      with j have "j < n" by simp
      then show ?thesis using sr [of j] j len by (force simp: in_set_conv_nth)
    qed
  qed
qed

lemma distinct_swap_remove:
  assumes d: "distinct xs" and i: "i < length xs"
  shows "distinct (swap_remove xs i)"
proof -
  have "card (set (swap_remove xs i)) = length (swap_remove xs i)"
    using d i by (simp add: set_swap_remove distinct_card)
  then show ?thesis by (rule card_distinct)
qed

subsection \<open>Words\<close>

lemma unat_add_1:
  assumes "unat w < n" "n < 2 ^ LENGTH('a)"
  shows "unat ((w :: 'a::len word) + 1) = Suc (unat w)"
proof -
  have "unat (w + 1) = (unat w + 1) mod 2 ^ LENGTH('a)"
    by (simp add: unat_word_ariths)
  then show ?thesis using assms by simp
qed

lemma of_nat_pred: "n + 1 = m \<Longrightarrow> (of_nat m :: 'a::len word) - 1 = of_nat n"
  by auto

lemma unat_sub_1:
  assumes "0 < unat (w :: 'a::len word)"
  shows "unat (w - 1) = unat w - 1"
  using assms by (simp add: unat_minus_one unat_gt_0)

end
