(* ===== verification/Kernel_State.thy ===== *)
theory Kernel_State
  imports Prelude
begin

text \<open>
  The data structures of the kernel (\<open>cherios/kernel/include/activations.h\<close>,
  \<open>sched.h\<close>, \<open>mutex.h\<close>, \<open>include/queue.h\<close>, \<open>include/sys/types.h\<close>) and its global
  variables, gathered in one record \<open>kstate\<close>. Activations live in a store
  \<open>acts\<close> indexed by address; an \<open>act_t*\<close> is an address, and a nullable one an
  \<open>option\<close>. Spinlocks are booleans: acquiring a held lock on the same core never
  returns, so it is the failure \<open>None\<close>. The build constant \<open>SMP_CORES\<close> is the field
  \<open>smp_cores\<close>, and the per-core arrays are indexed by core number. The counters that exist only under
  \<open>K_DEBUG\<close> and the kernel stack of an activation are left out, and its saved
  register context is a handle of the nanokernel.
\<close>

subsection \<open>Enumerations\<close>

datatype status_e = status_alive | status_revoked | status_terminated

type_synonym sched_status_e = u32

definition sched_runnable :: sched_status_e where "sched_runnable = 0"
definition sched_running :: sched_status_e where "sched_running = 1"
definition sched_terminated :: sched_status_e where "sched_terminated = 2"
definition sched_waiting :: sched_status_e where "sched_waiting = 0x10"
definition sched_sync_block :: sched_status_e where "sched_sync_block = 0x20"
definition sched_sem :: sched_status_e where "sched_sem = 0x40"
definition sched_wait_notify :: sched_status_e where "sched_wait_notify = 0x80"
definition sched_wait_timeout :: sched_status_e where "sched_wait_timeout = 0x100"
definition sched_wait_commit :: sched_status_e where "sched_wait_commit = 0x200"
definition sched_wait_fastpath :: sched_status_e where "sched_wait_fastpath = 0x400"

lemmas sched_status_defs = sched_runnable_def sched_running_def sched_terminated_def
  sched_waiting_def sched_sync_block_def sched_sem_def sched_wait_notify_def
  sched_wait_timeout_def sched_wait_commit_def sched_wait_fastpath_def

type_synonym sched_prio = u32

definition PRIO_IDLE :: sched_prio where "PRIO_IDLE = 0"
definition PRIO_LOW :: sched_prio where "PRIO_LOW = 1"
definition PRIO_MID :: sched_prio where "PRIO_MID = 2"
definition PRIO_HIGH :: sched_prio where "PRIO_HIGH = 3"
definition PRIO_IO :: sched_prio where "PRIO_IO = 4"

lemmas prio_defs = PRIO_IDLE_def PRIO_LOW_def PRIO_MID_def PRIO_HIGH_def PRIO_IO_def

definition SCHED_PRIO_FACTOR :: u8 where "SCHED_PRIO_FACTOR = 0x10"
definition SCHED_PRIO_LEVELS :: nat where "SCHED_PRIO_LEVELS = 5"
definition SCHED_QUEUE_LENGTH :: nat where "SCHED_QUEUE_LENGTH = 0x1f"

definition LEVEL_TO_NDX :: "sched_prio \<Rightarrow> nat" where
  "LEVEL_TO_NDX level = (if level > PRIO_IO then unat PRIO_IO else unat level)"

lemma LEVEL_TO_NDX_less [simp]: "LEVEL_TO_NDX p < SCHED_PRIO_LEVELS"
  by (simp add: LEVEL_TO_NDX_def prio_defs SCHED_PRIO_LEVELS_def word_less_nat_alt)

definition FAST_RES_TIME :: u64 where "FAST_RES_TIME = 1"
definition FAST_RES_POP :: u64 where "FAST_RES_POP = 2"

subsection \<open>Message queues\<close>

record msg_t =
  msg_c3 :: capability
  msg_c4 :: capability
  msg_c5 :: capability
  msg_c6 :: capability
  msg_c1 :: capability
  msg_a0 :: u64
  msg_a1 :: u64
  msg_a2 :: u64
  msg_a3 :: u64
  msg_v0 :: u64

text \<open>
  \<open>header.end\<close> is a load-only pointer to the upper half of the activation's own
  \<open>msg_tsx\<close> (see \<open>msg_queue_init\<close>), so it is not stored a second time here.
\<close>

record queue_t =
  header_start :: u32
  header_len :: u32
  queue_msg :: "msg_t list"

subsection \<open>Activations\<close>

record ret_t =
  ret_c3 :: capability
  ret_v0 :: u64
  ret_v1 :: u64

record sync_indirection =
  si_act :: nat
  sync_add :: u64

record sync_state_t =
  sync_token :: u64
  sync_condition :: int
  current_sync_indir :: nat
  alloc_block :: "nat option"
  next_block :: "nat option"
  allocs_taken :: nat
  allocs_max :: nat

record act_t =
  list_del_prog :: bool
  list_next :: "nat option"
  status :: status_e
  commit_early_notify :: bool
  msg_queue :: queue_t
  queue_mask :: u32
  msg_tsx :: u64
  priority :: sched_prio
  sched_status :: sched_status_e
  woke_from :: sched_status_e
  sched_access_lock :: bool
  pool_id :: u8
  queue_ndx :: u8
  early_notify :: bool
  is_idle :: bool
  timeout_start :: u64
  timeout_length :: u64
  timeout_indx :: nat
  ret :: ret_t
  sync_state :: sync_state_t
  semaphore_next_waiter :: "nat option"
  act_name :: string
  image_base :: u64
  act_context :: nat

subsection \<open>Scheduler pools\<close>

record sched_q =
  act_queue_current :: u8
  act_queue_end :: u8
  queue_ctr :: u8
  act_queue :: "nat option list"

record sched_pool =
  idle_act :: "nat option"
  current_act :: "nat option"
  in_queues :: u64
  queue_lock :: bool
  queues :: "nat \<Rightarrow> sched_q"

subsection \<open>The kernel's global variables\<close>

record interrupt_register_t =
  target :: "nat option"
  int_v0 :: u64
  int_carg :: capability
  int_arg :: u64

record kstate =
  smp_cores :: nat
  acts :: "nat \<Rightarrow> act_t"
  sched_pools :: "nat \<Rightarrow> sched_pool"
  idles_registered :: u8
  sleeps :: "nat option list"
  high_resolution_timers :: "nat \<Rightarrow> u64"
  kernel_last_timer :: "nat \<Rightarrow> u32"
  init_sanity :: "nat \<Rightarrow> u8"
  cpu_compare :: "nat \<Rightarrow> u32"
  indirs :: "nat \<Rightarrow> sync_indirection"
  act_list_lock :: bool
  act_list_start :: "nat option"
  act_list_end :: "nat option"
  kernel_next_act :: u32
  event_ref :: "nat option"
  memgt_ref :: "nat option"
  ns_ref :: capability
  int_child :: "nat \<Rightarrow> nat \<Rightarrow> interrupt_register_t"
  masks :: "nat \<Rightarrow> u64"
  disabled :: "nat \<Rightarrow> bool"
  int_hw :: "nat \<Rightarrow> u64"

definition upd_act :: "nat \<Rightarrow> (act_t \<Rightarrow> act_t) \<Rightarrow> kstate \<Rightarrow> kstate" where
  "upd_act a f s = s\<lparr>acts := (acts s)(a := f (acts s a))\<rparr>"

definition upd_pool :: "nat \<Rightarrow> (sched_pool \<Rightarrow> sched_pool) \<Rightarrow> kstate \<Rightarrow> kstate" where
  "upd_pool p f s = s\<lparr>sched_pools := (sched_pools s)(p := f (sched_pools s p))\<rparr>"

definition upd_q :: "nat \<Rightarrow> nat \<Rightarrow> (sched_q \<Rightarrow> sched_q) \<Rightarrow> kstate \<Rightarrow> kstate" where
  "upd_q p l f = upd_pool p (\<lambda>pl. pl\<lparr>queues := (queues pl)(l := f (queues pl l))\<rparr>)"

abbreviation get_q :: "kstate \<Rightarrow> nat \<Rightarrow> nat \<Rightarrow> sched_q" where
  "get_q s p l \<equiv> queues (sched_pools s p) l"

lemma upd_act_sel [simp]:
  "acts (upd_act a f s) = (acts s)(a := f (acts s a))"
  "sched_pools (upd_act a f s) = sched_pools s"
  "sleeps (upd_act a f s) = sleeps s"
  "idles_registered (upd_act a f s) = idles_registered s"
  "smp_cores (upd_act a f s) = smp_cores s"
  "high_resolution_timers (upd_act a f s) = high_resolution_timers s"
  "indirs (upd_act a f s) = indirs s"
  by (simp_all add: upd_act_def)

lemma upd_pool_sel [simp]:
  "acts (upd_pool p g s) = acts s"
  "sched_pools (upd_pool p g s) = (sched_pools s)(p := g (sched_pools s p))"
  "sleeps (upd_pool p g s) = sleeps s"
  "idles_registered (upd_pool p g s) = idles_registered s"
  "smp_cores (upd_pool p g s) = smp_cores s"
  "high_resolution_timers (upd_pool p g s) = high_resolution_timers s"
  "indirs (upd_pool p g s) = indirs s"
  by (simp_all add: upd_pool_def)

subsection \<open>Spinlocks\<close>

text \<open>\<open>spinlock_acquire\<close> of a lock that is held spins for ever on one core.\<close>

definition lock_act :: "nat \<Rightarrow> kstate \<Rightarrow> kstate option" where
  "lock_act a s = (if sched_access_lock (acts s a) then None
     else Some (upd_act a (\<lambda>x. x\<lparr>sched_access_lock := True\<rparr>) s))"

definition unlock_act :: "nat \<Rightarrow> kstate \<Rightarrow> kstate" where
  "unlock_act a s = upd_act a (\<lambda>x. x\<lparr>sched_access_lock := False\<rparr>) s"

definition lock_pool :: "nat \<Rightarrow> kstate \<Rightarrow> kstate option" where
  "lock_pool p s = (if queue_lock (sched_pools s p) then None
     else Some (upd_pool p (\<lambda>x. x\<lparr>queue_lock := True\<rparr>) s))"

definition unlock_pool :: "nat \<Rightarrow> kstate \<Rightarrow> kstate" where
  "unlock_pool p s = upd_pool p (\<lambda>x. x\<lparr>queue_lock := False\<rparr>) s"

subsection \<open>Zeroed memory\<close>

text \<open>The kernel's static data before any initialisation: all bytes are zero.\<close>

definition zero_act :: act_t where
  "zero_act = \<lparr>list_del_prog = False, list_next = None, status = status_alive, commit_early_notify = False,
     msg_queue = \<lparr>header_start = 0, header_len = 0, queue_msg = []\<rparr>, queue_mask = 0, msg_tsx = 0,
     priority = 0, sched_status = 0, woke_from = 0, sched_access_lock = False, pool_id = 0, queue_ndx = 0,
     early_notify = False, is_idle = False, timeout_start = 0, timeout_length = 0, timeout_indx = 0,
     ret = \<lparr>ret_c3 = CNull, ret_v0 = 0, ret_v1 = 0\<rparr>,
     sync_state = \<lparr>sync_token = 0, sync_condition = 0, current_sync_indir = 0, alloc_block = None,
       next_block = None, allocs_taken = 0, allocs_max = 0\<rparr>,
     semaphore_next_waiter = None, act_name = [], image_base = 0, act_context = 0\<rparr>"

definition zero_q :: sched_q where
  "zero_q = \<lparr>act_queue_current = 0, act_queue_end = 0, queue_ctr = 0,
     act_queue = replicate SCHED_QUEUE_LENGTH None\<rparr>"

definition zero_pool :: sched_pool where
  "zero_pool = \<lparr>idle_act = None, current_act = None, in_queues = 0, queue_lock = False, queues = (\<lambda>_. zero_q)\<rparr>"

definition zero_state :: "nat \<Rightarrow> kstate" where
  "zero_state cores = \<lparr>smp_cores = cores, acts = (\<lambda>_. zero_act),
     sched_pools = (\<lambda>_. zero_pool),
     idles_registered = 0, sleeps = replicate 0x10 None, high_resolution_timers = (\<lambda>_. 0),
     kernel_last_timer = (\<lambda>_. 0), init_sanity = (\<lambda>_. 0), cpu_compare = (\<lambda>_. 0),
     indirs = (\<lambda>_. \<lparr>si_act = 0, sync_add = 0\<rparr>), act_list_lock = False, act_list_start = None,
     act_list_end = None, kernel_next_act = 0, event_ref = None, memgt_ref = None, ns_ref = CNull,
     int_child = (\<lambda>_ _. \<lparr>target = None, int_v0 = 0, int_carg = CNull, int_arg = 0\<rparr>),
     masks = (\<lambda>_. 0), disabled = (\<lambda>_. False), int_hw = (\<lambda>_. 0)\<rparr>"

end
