(* ===== verification/Timer_Queue.thy ===== *)
theory Timer_Queue
  imports Kernel_State
begin

text \<open>
  The part of \<open>cherios/kernel/src/timer.c\<close> that the scheduler calls: the 64 bit
  clock built from the 32 bit cycle counter, and the table \<open>sleeps\<close> of the
  activations that wait with a timeout. This is the build without
  \<open>HAS_HIGH_DEF_TIME\<close>. The value that \<open>cpu_count_get\<close> returns is an argument
  (\<open>count\<close>) of each operation that reads the counter.
\<close>

definition MAX_WAITERS :: nat where "MAX_WAITERS = 0x10"

definition get_high_res_time :: "nat \<Rightarrow> u32 \<Rightarrow> kstate \<Rightarrow> u64" where
  "get_high_res_time cpu_id count s =
     (let old_high_res = high_resolution_timers s cpu_id;
          low_res = count;
          new_high_res = push_bit 32 (drop_bit 32 old_high_res) OR ucast low_res
      in if new_high_res < old_high_res
         then (if old_high_res - new_high_res < 0x80000000 then old_high_res
               else new_high_res + 0x100000000)
         else new_high_res)"

definition kernel_timer_start_count :: "nat \<Rightarrow> u32 \<Rightarrow> nat \<Rightarrow> kstate \<Rightarrow> kstate" where
  "kernel_timer_start_count cpu count a s =
     upd_act a (\<lambda>x. x\<lparr>timeout_start := get_high_res_time cpu count s\<rparr>) s"

text \<open>The slot that the compare-and-swap loop over \<open>sleeps\<close> takes.\<close>

fun free_slot :: "nat option list \<Rightarrow> nat \<Rightarrow> nat option" where
  "free_slot [] i = None"
| "free_slot (x # xs) i = (if x = None then Some i else free_slot xs (Suc i))"

definition kernel_timer_subscribe :: "nat \<Rightarrow> u32 \<Rightarrow> nat \<Rightarrow> u64 \<Rightarrow> kstate \<Rightarrow> kstate option" where
  "kernel_timer_subscribe cpu count a timeout s =
     (let s1 = upd_act a (\<lambda>x. x\<lparr>timeout_length := timeout\<rparr>) (kernel_timer_start_count cpu count a s)
      in case free_slot (sleeps s1) 0 of
           None \<Rightarrow> None
         | Some i \<Rightarrow> Some (upd_act a (\<lambda>x. x\<lparr>timeout_indx := i\<rparr>)
                            (s1\<lparr>sleeps := (sleeps s1)[i := Some a]\<rparr>)))"

definition kernel_timer_unsubcsribe :: "nat \<Rightarrow> kstate \<Rightarrow> kstate option" where
  "kernel_timer_unsubcsribe a s = do {
     kassert (timeout_indx (acts s a) < length (sleeps s));
     kassert (sleeps s ! timeout_indx (acts s a) = Some a);
     Some (s\<lparr>sleeps := (sleeps s)[timeout_indx (acts s a) := None]\<rparr>)
   }"

subsection \<open>Facts about the table\<close>

lemma free_slot_Some:
  "free_slot xs i = Some j \<Longrightarrow> i \<le> j \<and> j - i < length xs \<and> xs ! (j - i) = None"
proof (induction xs i rule: free_slot.induct)
  case (2 x xs i)
  show ?case
  proof (cases "x = None")
    case False
    with 2 have "Suc i \<le> j \<and> j - Suc i < length xs \<and> xs ! (j - Suc i) = None" by simp
    then show ?thesis by (auto simp: nth_Cons')
  qed (use 2 in simp)
qed simp

lemma free_slot_None: "free_slot xs i = None \<longleftrightarrow> None \<notin> set xs"
  by (induction xs i rule: free_slot.induct) auto

subsection \<open>The clock\<close>

lemma unat_high_half:
  "unat (push_bit 32 (drop_bit 32 (w :: u64)) OR ucast (c :: u32))
     = unat w div 2 ^ 32 * 2 ^ 32 + unat c"
proof -
  have dis: "push_bit 32 (drop_bit 32 w) AND (ucast c :: u64) = 0"
    by (rule bit_word_eqI) (auto simp: bit_simps dest: bit_imp_le_length)
  have "push_bit 32 (drop_bit 32 w) OR (ucast c :: u64)
      = push_bit 32 (drop_bit 32 w) + ucast c"
    using dis by (simp add: disjunctive_add_eq_or)
  moreover have "unat (push_bit 32 (drop_bit 32 w)) = unat w div 2 ^ 32 * 2 ^ 32"
  proof -
    have "unat w div 2 ^ 32 * 2 ^ 32 \<le> unat w" by simp
    also have "\<dots> < 2 ^ 64" using unsigned_less [of w] by simp
    finally have "unat w div 2 ^ 32 * 2 ^ 32 < 2 ^ 64" .
    moreover have "unat (push_bit 32 (drop_bit 32 w)) = take_bit 64 (push_bit 32 (drop_bit 32 (unat w)))"
      by (simp add: unsigned_push_bit_eq unat_drop_bit_eq)
    ultimately show ?thesis
      by (simp add: push_bit_eq_mult drop_bit_eq_div take_bit_eq_mod)
  qed
  moreover have "unat (ucast c :: u64) = unat c"
    by (simp add: unsigned_ucast_eq take_bit_nat_eq_self_iff unsigned_less less_trans [OF unsigned_less])
  moreover have "unat w div 2 ^ 32 * 2 ^ 32 + unat c < 2 ^ 64"
  proof -
    have "unat w div 2 ^ 32 < 2 ^ 32" using unsigned_less [of w] by (simp add: div_less_iff_less_mult)
    moreover have "unat c < 2 ^ 32" using unsigned_less [of c] by simp
    ultimately show ?thesis by simp
  qed
  ultimately show ?thesis by (simp add: unat_word_ariths)
qed

text \<open>
  The clock is exact: if the true time \<open>T\<close> has moved on by at most \<open>2^31\<close> ticks
  since the value recorded by the last timer interrupt, and the counter register
  holds the low half of \<open>T\<close>, then \<open>get_high_res_time\<close> is \<open>T\<close>.
\<close>

lemma get_high_res_time_exact_aux:
  assumes old: "unat (high_resolution_timers s cpu) \<le> T"
    and near: "T \<le> unat (high_resolution_timers s cpu) + 2 ^ 31"
    and T: "T < 2 ^ 64" and c: "unat count = T mod 2 ^ 32"
  shows "unat (get_high_res_time cpu count s) = T"
proof -
  define old where "old = high_resolution_timers s cpu"
  define new :: u64 where "new = push_bit 32 (drop_bit 32 old) OR ucast count"
  have new: "unat new = unat old div 2 ^ 32 * 2 ^ 32 + T mod 2 ^ 32"
    unfolding new_def by (simp only: unat_high_half c)
  have o: "unat old \<le> T" "T \<le> unat old + 2 ^ 31"
    using assms unfolding old_def by auto
  have unf: "get_high_res_time cpu count s =
     (if new < old then (if old - new < 0x80000000 then old else new + 0x100000000) else new)"
    by (simp add: get_high_res_time_def Let_def new_def old_def)
  show ?thesis
  proof (cases "T div 2 ^ 32 = unat old div 2 ^ 32")
    case True
    then have "unat new = T" using new by (metis div_mult_mod_eq)
    then show ?thesis using o unf by (simp add: word_less_nat_alt)
  next
    case False
    have d: "T div 2 ^ 32 = Suc (unat old div 2 ^ 32)"
      using o False by simp
    then have T': "unat new + 2 ^ 32 = T" using new
      by (metis add.commute add.left_commute div_mult_mod_eq mult_Suc)
    then have lt: "new < old" using o by (simp add: word_less_nat_alt) 
    have "unat (old - new) = unat old - unat new"
      using lt by (simp add: unat_sub less_imp_le)
    then have "\<not> old - new < 0x80000000"
      using T' o by (simp add: word_less_nat_alt)
    moreover have "unat (new + 0x100000000) = T"
      using T' T by (simp add: unat_word_ariths)
    ultimately show ?thesis using unf lt by simp
  qed
qed

end
