(* ===== verification/Sched.thy ===== *)
theory Sched
  imports Timer_Queue
begin

text \<open>
  The scheduler, \<open>cherios/kernel/src/sched.c\<close>: per-core pools with one array of
  runnable activations per priority level, blocking and waking on event masks, and
  the choice of the next activation. Every function of the file is a definition
  here; \<open>context_switch\<close> and \<open>destroy_context\<close>, which leave the C function for ever,
  are the results \<open>SwitchTo\<close> and \<open>DestroyAndSwitchTo\<close> of the rescheduling step.

  \<open>cpu\<close> is the core that executes (\<open>critical_section_enter\<close> and \<open>cpu_get_cpuid\<close>
  return it), \<open>count\<close> the value of its cycle counter.
\<close>

datatype switch = NoSwitch | SwitchTo nat | DestroyAndSwitchTo nat nat

subsection \<open>Initial state\<close>

text \<open>\<open>sched_init\<close> leaves the slots of the queues alone: the pools are static data, so these are NULL.\<close>

definition init_q :: "sched_q \<Rightarrow> sched_q" where
  "init_q q = q\<lparr>act_queue_current := 0, act_queue_end := 0, queue_ctr := 0\<rparr>"

definition init_pool :: "sched_pool \<Rightarrow> sched_pool" where
  "init_pool pl = pl\<lparr>queue_lock := False, current_act := None,
     queues := (\<lambda>j. if j < SCHED_PRIO_LEVELS then init_q (queues pl j) else queues pl j),
     in_queues := 0, idle_act := None\<rparr>"

lemma init_pool_zero [simp]: "init_pool zero_pool = zero_pool"
  by (auto simp: init_pool_def init_q_def zero_pool_def zero_q_def fun_eq_iff)

definition sched_init :: "kstate \<Rightarrow> kstate" where
  "sched_init s = s\<lparr>sched_pools := (\<lambda>p. if p < smp_cores s then init_pool (sched_pools s p) else sched_pools s p)\<rparr>"

definition sched_get_current_act_in_pool :: "u8 \<Rightarrow> kstate \<Rightarrow> nat option" where
  "sched_get_current_act_in_pool p s = current_act (sched_pools s (unat p))"

definition sched_get_current_act :: "nat \<Rightarrow> kstate \<Rightarrow> nat option" where
  "sched_get_current_act cpu s = current_act (sched_pools s cpu)"

subsection \<open>Queue operations\<close>

definition add_act_to_queue :: "nat \<Rightarrow> nat \<Rightarrow> sched_status_e \<Rightarrow> kstate \<Rightarrow> kstate option" where
  "add_act_to_queue p a set_to s = do {
     let l = LEVEL_TO_NDX (priority (acts s a));
     kassert (unat (act_queue_end (get_q s p l)) \<noteq> SCHED_QUEUE_LENGTH);
     kassert (\<not> is_idle (acts s a));
     s \<leftarrow> lock_pool p s;
     let index = unat (act_queue_end (get_q s p l));
     kassert (index < SCHED_QUEUE_LENGTH);
     let s = upd_q p l (\<lambda>q. q\<lparr>act_queue_end := act_queue_end q + 1,
                              act_queue := (act_queue q)[index := Some a]\<rparr>) s;
     let s = upd_act a (\<lambda>x. x\<lparr>queue_ndx := of_nat index, sched_status := set_to\<rparr>) s;
     let s = upd_pool p (\<lambda>pl. pl\<lparr>in_queues := in_queues pl + 1\<rparr>) s;
     Some (unlock_pool p s)
   }"

definition delete_act_from_queue :: "nat \<Rightarrow> nat \<Rightarrow> sched_status_e \<Rightarrow> kstate \<Rightarrow> kstate option" where
  "delete_act_from_queue p a set_to s = do {
     kassert (\<not> is_idle (acts s a));
     let l = LEVEL_TO_NDX (priority (acts s a));
     let index = unat (queue_ndx (acts s a));
     s \<leftarrow> lock_pool p s;
     kassert (index < SCHED_QUEUE_LENGTH);
     kassert (act_queue (get_q s p l) ! index = Some a);
     let end' = act_queue_end (get_q s p l) - 1;
     kassert (unat end' < SCHED_QUEUE_LENGTH);
     moved \<leftarrow> act_queue (get_q s p l) ! unat end';
     let s = upd_q p l (\<lambda>q. q\<lparr>act_queue_end := end',
                              act_queue := (act_queue q)[index := Some moved, unat end' := None]\<rparr>) s;
     let s = upd_act moved (\<lambda>x. x\<lparr>queue_ndx := of_nat index\<rparr>) s;
     let s = upd_act a (\<lambda>x. x\<lparr>sched_status := set_to, queue_ndx := - 1\<rparr>) s;
     let s = upd_pool p (\<lambda>pl. pl\<lparr>in_queues := in_queues pl - 1\<rparr>) s;
     Some (unlock_pool p s)
   }"

definition get_idle :: "nat \<Rightarrow> kstate \<Rightarrow> nat option" where
  "get_idle p s = idle_act (sched_pools s p)"

subsection \<open>Creation, priority, blocking\<close>

text \<open>
  \<open>sched_create\<close> does not check the number of the pool, and neither does the model, in
  which pools are a function of the number: its callers only pass numbers of existing
  cores, \<open>act_register_create\<close> by clamping the number it is given.
\<close>

definition sched_create :: "u8 \<Rightarrow> nat \<Rightarrow> sched_prio \<Rightarrow> kstate \<Rightarrow> kstate option" where
  "sched_create pid a prio s = do {
     let s = upd_act a (\<lambda>x. x\<lparr>sched_access_lock := False, priority := prio, is_idle := False\<rparr>) s;
     if status (acts s a) = status_alive then
       (if act_name (acts s a) = ''idle.elf'' then do {
          let n = idles_registered s;
          kassert (unat n < smp_cores s);
          let s = upd_act a (\<lambda>x. x\<lparr>sched_status := sched_runnable, pool_id := n\<rparr>) s;
          let s = upd_pool (unat n) (\<lambda>pl. pl\<lparr>idle_act := Some a\<rparr>) s;
          let s = upd_act a (\<lambda>x. x\<lparr>is_idle := True, priority := PRIO_IDLE\<rparr>) s;
          s \<leftarrow> (if n \<noteq> 0 then do {
                 let s = upd_act a (\<lambda>x. x\<lparr>sched_status := sched_running\<rparr>) s;
                 kassert (current_act (sched_pools s (unat n)) = None);
                 Some (upd_pool (unat n) (\<lambda>pl. pl\<lparr>current_act := Some a\<rparr>) s)
               } else Some s);
          Some (s\<lparr>idles_registered := n + 1\<rparr>)
        } else
          add_act_to_queue (unat pid) a sched_runnable (upd_act a (\<lambda>x. x\<lparr>pool_id := pid\<rparr>) s))
     else Some (upd_act a (\<lambda>x. x\<lparr>sched_status := sched_terminated\<rparr>) s)
   }"

definition sched_change_prio :: "nat \<Rightarrow> sched_prio \<Rightarrow> kstate \<Rightarrow> kstate option" where
  "sched_change_prio a new_prio s =
     (if priority (acts s a) \<noteq> new_prio then do {
        s \<leftarrow> lock_act a s;
        s \<leftarrow> (if sched_status (acts s a) \<le> sched_running then do {
               s \<leftarrow> delete_act_from_queue (unat (pool_id (acts s a))) a (sched_status (acts s a)) s;
               let s = upd_act a (\<lambda>x. x\<lparr>priority := new_prio\<rparr>) s;
               add_act_to_queue (unat (pool_id (acts s a))) a (sched_status (acts s a)) s
             } else Some (upd_act a (\<lambda>x. x\<lparr>priority := new_prio\<rparr>) s));
        Some (unlock_act a s)
      } else Some s)"

definition sched_block :: "nat \<Rightarrow> sched_status_e \<Rightarrow> kstate \<Rightarrow> kstate option" where
  "sched_block a st s = do {
     kassert (st \<ge> sched_waiting);
     if sched_status (acts s a) = sched_runnable \<or> sched_status (acts s a) = sched_running
     then delete_act_from_queue (unat (pool_id (acts s a))) a st s
     else Some (upd_act a (\<lambda>x. x\<lparr>sched_status := st\<rparr>) s)
   }"

subsection \<open>Choosing the next activation\<close>

definition sched_deschedule :: "nat \<Rightarrow> kstate \<Rightarrow> kstate" where
  "sched_deschedule a s =
     (if sched_status (acts s a) = sched_running
      then upd_act a (\<lambda>x. x\<lparr>sched_status := sched_runnable\<rparr>) s else s)"

definition sched_schedule :: "u8 \<Rightarrow> nat \<Rightarrow> kstate \<Rightarrow> kstate option" where
  "sched_schedule pid a s = do {
     kassert (sched_status (acts s a) = sched_runnable);
     let s = upd_act a (\<lambda>x. x\<lparr>sched_status := sched_running\<rparr>) s;
     Some (upd_pool (unat pid) (\<lambda>pl. pl\<lparr>current_act := Some a\<rparr>) s)
   }"

text \<open>
  The level selection loop of \<open>sched_picknext\<close>: it walks down from the highest
  level to \<open>PRIO_LOW\<close> (the loop is never entered below that level), leaves at a non-empty level unless the level's counter is a multiple of
  \<open>SCHED_PRIO_FACTOR\<close>, and counts each non-empty level it looks at. The result is
  the final \<open>index\<close>, \<open>index_found\<close> and the queues with their counters advanced.
\<close>

fun select_level :: "nat \<Rightarrow> nat \<Rightarrow> (nat \<Rightarrow> sched_q) \<Rightarrow> nat \<times> nat \<times> (nat \<Rightarrow> sched_q)" where
  "select_level index index_found qs =
     (if index \<le> LEVEL_TO_NDX PRIO_LOW then (index, index_found, qs)
      else if act_queue_end (qs index) = 0 then select_level (index - 1) index_found qs
      else let ctr = queue_ctr (qs index);
               qs' = qs(index := (qs index)\<lparr>queue_ctr := ctr + 1\<rparr>)
           in if ctr AND (SCHED_PRIO_FACTOR - 1) = 0 then select_level (index - 1) index qs'
              else (index, index, qs'))"

declare select_level.simps [simp del]

definition picked_level :: "(nat \<Rightarrow> sched_q) \<Rightarrow> nat \<times> (nat \<Rightarrow> sched_q)" where
  "picked_level qs =
     (let (index, index_found, qs') = select_level (LEVEL_TO_NDX PRIO_IO) (LEVEL_TO_NDX PRIO_IDLE) qs
      in (if act_queue_end (qs' index) = 0 then index_found else index, qs'))"

text \<open>
  \<open>sched_picknext\<close> returns with the lock of a queued activation held; the idle
  activation is returned without its lock.
\<close>

definition sched_picknext :: "nat \<Rightarrow> kstate \<Rightarrow> (nat option \<times> kstate) option" where
  "sched_picknext p s = do {
     s \<leftarrow> lock_pool p s;
     if in_queues (sched_pools s p) = 0
     then (let s = unlock_pool p s in Some (get_idle p s, s))
     else do {
       let (index, qs) = picked_level (queues (sched_pools s p));
       let s = upd_pool p (\<lambda>pl. pl\<lparr>queues := qs\<rparr>) s;
       kassert (act_queue_end (get_q s p index) \<noteq> 0);
       let q = get_q s p index;
       let cur = (unat (act_queue_current q) + 1) mod unat (act_queue_end q);
       let s = upd_q p index (\<lambda>q. q\<lparr>act_queue_current := of_nat cur\<rparr>) s;
       kassert (cur < SCHED_QUEUE_LENGTH);
       next \<leftarrow> act_queue q ! cur;
       kassert (LEVEL_TO_NDX (priority (acts s next)) = index);
       s \<leftarrow> lock_act next s;
       let s = unlock_pool p s;
       kassert (sched_status (acts s next) = sched_runnable \<or> sched_status (acts s next) = sched_running);
       s \<leftarrow> (if priority (acts s next) AND PRIO_IO \<noteq> 0 then do {
              s \<leftarrow> delete_act_from_queue p next (sched_status (acts s next)) s;
              let s = upd_act next (\<lambda>x. x\<lparr>priority := priority x AND NOT PRIO_IO\<rparr>) s;
              add_act_to_queue p next (sched_status (acts s next)) s
            } else Some s);
       Some (Some next, s)
     }
   }"

definition sched_reschedule :: "nat \<Rightarrow> nat option \<Rightarrow> bool \<Rightarrow> kstate \<Rightarrow> (switch \<times> kstate) option" where
  "sched_reschedule cpu hint in_exception_handler s = do {
     let kernel_curr_act = current_act (sched_pools s cpu);
     (hint, s) \<leftarrow> (case hint of
         None \<Rightarrow> Some (None, s)
       | Some h \<Rightarrow> do {
           s \<leftarrow> lock_act h s;
           if unat (pool_id (acts s h)) \<noteq> cpu \<or> sched_status (acts s h) \<noteq> sched_runnable
           then Some (None, unlock_act h s) else Some (Some h, s)
         });
     (hint, s) \<leftarrow> (case hint of None \<Rightarrow> sched_picknext cpu s | Some h \<Rightarrow> Some (Some h, s));
     to \<leftarrow> hint;
     if Some to \<noteq> kernel_curr_act then do {
       from \<leftarrow> kernel_curr_act;
       let s = sched_deschedule from s;
       s \<leftarrow> sched_schedule (of_nat cpu) to s;
       let s = unlock_act to s;
       Some (if in_exception_handler then NoSwitch
             else if status (acts s from) = status_terminated then DestroyAndSwitchTo to from
             else SwitchTo to, s)
     } else Some (NoSwitch, unlock_act to s)
   }"

subsection \<open>Deletion, events\<close>

definition sched_delete :: "nat \<Rightarrow> nat \<Rightarrow> kstate \<Rightarrow> (switch \<times> kstate) option" where
  "sched_delete cpu a s = do {
     s \<leftarrow> lock_act a s;
     let deleted_running = (sched_status (acts s a) = sched_running);
     let deleted_from_own_pool = (unat (pool_id (acts s a)) = cpu);
     kassert (deleted_from_own_pool \<or> \<not> deleted_running);
     s \<leftarrow> (if sched_status (acts s a) = sched_runnable \<or> sched_status (acts s a) = sched_running
          then delete_act_from_queue (unat (pool_id (acts s a))) a sched_terminated s else Some s);
     let s = upd_act a (\<lambda>x. x\<lparr>sched_status := sched_terminated\<rparr>) s;
     let s = unlock_act a s;
     if deleted_running \<and> deleted_from_own_pool then sched_reschedule cpu None False s
     else Some (NoSwitch, s)
   }"

text \<open>\<open>*act->msg_queue->header.end\<close> is the upper half of the activation's \<open>msg_tsx\<close>.\<close>

definition header_end :: "act_t \<Rightarrow> u32" where
  "header_end x = ucast (drop_bit 32 (msg_tsx x))"

definition msg_queue_empty :: "act_t \<Rightarrow> bool" where
  "msg_queue_empty x = ((ucast (header_start (msg_queue x)) :: u64) = drop_bit 32 (msg_tsx x))"

definition set_fast_res :: "sched_status_e \<Rightarrow> act_t \<Rightarrow> act_t" where
  "set_fast_res ev x =
     (if ev AND (sched_wait_notify OR sched_wait_timeout) \<noteq> 0
      then x\<lparr>ret := (ret x)\<lparr>ret_v1 := FAST_RES_TIME\<rparr>\<rparr>
      else if ev AND sched_waiting \<noteq> 0
      then x\<lparr>ret := (ret x)\<lparr>ret_v1 := FAST_RES_POP\<rparr>\<rparr> else x)"

definition sched_receive_event :: "nat \<Rightarrow> sched_status_e \<Rightarrow> kstate \<Rightarrow> kstate option" where
  "sched_receive_event a events s = do {
     s \<leftarrow> lock_act a s;
     let events = (if sched_status (acts s a) AND sched_waiting AND events \<noteq> 0
                      \<and> header_start (msg_queue (acts s a)) = header_end (acts s a)
                   then events AND NOT sched_waiting else events);
     s \<leftarrow> (if events AND sched_sync_block \<noteq> 0 then do {
            kassert (sync_condition (sync_state (acts s a)) = 1);
            Some (upd_act a (\<lambda>x. x\<lparr>sync_state := (sync_state x)\<lparr>sync_condition := 0\<rparr>\<rparr>) s)
          } else Some s);
     let cause_wake = sched_status (acts s a) AND events;
     s \<leftarrow> (if cause_wake \<noteq> 0 then do {
            let s = upd_act a (\<lambda>x. (set_fast_res cause_wake x)\<lparr>woke_from := cause_wake\<rparr>) s;
            s \<leftarrow> (if sched_status (acts s a) AND sched_wait_timeout \<noteq> 0
                 then kernel_timer_unsubcsribe a s else Some s);
            add_act_to_queue (unat (pool_id (acts s a))) a sched_runnable s
          } else
            Some (upd_act a (\<lambda>x. x\<lparr>
              early_notify := (events AND sched_wait_notify \<noteq> 0 \<or> early_notify x),
              commit_early_notify := (events AND sched_wait_commit \<noteq> 0 \<or> commit_early_notify x)\<rparr>) s));
     Some (unlock_act a s)
   }"

text \<open>
  The events that \<open>sched_block_until_event\<close> finds already there.
\<close>

definition got_event_of :: "sched_status_e \<Rightarrow> act_t \<Rightarrow> sched_status_e" where
  "got_event_of events x =
     (if events AND sched_sync_block \<noteq> 0 \<and> sync_condition (sync_state x) = 0 then sched_sync_block else 0)
     OR (if events AND sched_waiting \<noteq> 0 \<and> \<not> msg_queue_empty x then sched_waiting else 0)
     OR (if events AND sched_wait_commit \<noteq> 0 \<and> commit_early_notify x then sched_wait_commit else 0)
     OR (if events AND sched_wait_notify \<noteq> 0 \<and> early_notify x then sched_wait_notify else 0)"

text \<open>
  The step up to the context switch. When the activation runs again,
  \<open>sched_block_until_event\<close> returns the clock minus \<open>timeout_start\<close>
  (\<open>slept_time\<close>); when it does not block, it returns 0.
\<close>

definition sched_block_until_event ::
  "nat \<Rightarrow> u32 \<Rightarrow> nat option \<Rightarrow> nat option \<Rightarrow> sched_status_e \<Rightarrow> u64 \<Rightarrow> bool \<Rightarrow> kstate \<Rightarrow> (switch \<times> kstate) option" where
  "sched_block_until_event cpu count act next_hint events timeout in_exception_handler s = do {
     a \<leftarrow> (case act of None \<Rightarrow> sched_get_current_act cpu s | Some a \<Rightarrow> Some a);
     let events = (if timeout > 0 then events OR sched_wait_timeout else events);
     s \<leftarrow> lock_act a s;
     let got_event = got_event_of events (acts s a);
     let s = (if events AND sched_wait_notify \<noteq> 0 \<and> early_notify (acts s a)
              then upd_act a (\<lambda>x. x\<lparr>early_notify := False\<rparr>) s else s);
     kassert (events AND sched_sem = 0);
     s \<leftarrow> (if got_event = 0 then do {
            s \<leftarrow> (if timeout > 0 then kernel_timer_subscribe cpu count a timeout s
                 else Some (kernel_timer_start_count cpu count a s));
            s \<leftarrow> sched_block a events s;
            Some (upd_act a (\<lambda>x. x\<lparr>priority := priority x OR PRIO_IO\<rparr>) s)
          } else Some s);
     let s = unlock_act a s;
     if got_event = 0 then sched_reschedule cpu next_hint in_exception_handler s
     else Some (NoSwitch, upd_act a (\<lambda>x. (set_fast_res got_event x)\<lparr>woke_from := got_event\<rparr>) s)
   }"

definition slept_time :: "nat \<Rightarrow> u32 \<Rightarrow> nat \<Rightarrow> kstate \<Rightarrow> u64" where
  "slept_time cpu count a s = get_high_res_time cpu count s - timeout_start (acts s a)"

definition sched_got_int :: "nat \<Rightarrow> nat \<Rightarrow> kstate \<Rightarrow> (switch \<times> kstate) option" where
  "sched_got_int cpu_id a s = do {
     s \<leftarrow> lock_act a s;
     should_switch \<leftarrow>
       (if unat (pool_id (acts s a)) \<noteq> cpu_id then Some False
        else do {
          c \<leftarrow> current_act (sched_pools s cpu_id);
          Some (priority (acts s c) \<noteq> PRIO_IO \<and> sched_status (acts s a) = sched_runnable)
        });
     let s = unlock_act a s;
     if should_switch then sched_reschedule cpu_id (Some a) True s else Some (NoSwitch, s)
   }"

end
