(* ===== verification/Sched_Queue.thy ===== *)
theory Sched_Queue
  imports Sched
begin

text \<open>
  The run queues. \<open>q_inv Q s\<close> says that the arrays of all pools hold exactly the
  activations of \<open>Q\<close>, each once, at the pool, level and index that the activation
  itself records. The two queue operations add one activation to, and remove one
  from, the set.
\<close>

abbreviation a_pool :: "kstate \<Rightarrow> nat \<Rightarrow> nat" where
  "a_pool s a \<equiv> unat (pool_id (acts s a))"

abbreviation a_level :: "kstate \<Rightarrow> nat \<Rightarrow> nat" where
  "a_level s a \<equiv> LEVEL_TO_NDX (priority (acts s a))"

abbreviation a_ndx :: "kstate \<Rightarrow> nat \<Rightarrow> nat" where
  "a_ndx s a \<equiv> unat (queue_ndx (acts s a))"

definition qwf :: "sched_q \<Rightarrow> bool" where
  "qwf q \<longleftrightarrow> length (act_queue q) = SCHED_QUEUE_LENGTH \<and> unat (act_queue_end q) \<le> SCHED_QUEUE_LENGTH
     \<and> (\<forall>i < SCHED_QUEUE_LENGTH. (act_queue q ! i \<noteq> None) = (i < unat (act_queue_end q)))"

definition in_q :: "sched_q \<Rightarrow> nat \<Rightarrow> nat \<Rightarrow> bool" where
  "in_q q i a \<longleftrightarrow> i < unat (act_queue_end q) \<and> act_queue q ! i = Some a"

definition q_inv :: "nat set \<Rightarrow> kstate \<Rightarrow> bool" where
  "q_inv Q s \<longleftrightarrow>
     (\<forall>p l. qwf (get_q s p l))
   \<and> (\<forall>p l i a. in_q (get_q s p l) i a \<longrightarrow>
        a \<in> Q \<and> a_pool s a = p \<and> a_level s a = l \<and> a_ndx s a = i)
   \<and> (\<forall>a \<in> Q. \<not> is_idle (acts s a) \<and> in_q (get_q s (a_pool s a) (a_level s a)) (a_ndx s a) a)
   \<and> (\<forall>p. in_queues (sched_pools s p)
        = of_nat (\<Sum>l < SCHED_PRIO_LEVELS. unat (act_queue_end (get_q s p l))))"

lemma q_invD:
  assumes "q_inv Q s"
  shows "qwf (get_q s p l)"
    and "in_q (get_q s p l) i a \<Longrightarrow> a \<in> Q \<and> a_pool s a = p \<and> a_level s a = l \<and> a_ndx s a = i"
    and "a \<in> Q \<Longrightarrow> \<not> is_idle (acts s a)"
    and "a \<in> Q \<Longrightarrow> in_q (get_q s (a_pool s a) (a_level s a)) (a_ndx s a) a"
    and "in_queues (sched_pools s p)
        = of_nat (\<Sum>l < SCHED_PRIO_LEVELS. unat (act_queue_end (get_q s p l)))"
  using assms unfolding q_inv_def by blast+

definition q_eq :: "sched_q \<Rightarrow> sched_q \<Rightarrow> bool" where
  "q_eq q q' \<longleftrightarrow> act_queue_end q' = act_queue_end q \<and> act_queue q' = act_queue q"

lemma q_eq_refl [simp]: "q_eq q q"
  by (simp add: q_eq_def)

lemma q_inv_frame:
  assumes "q_inv Q s"
    and "\<And>p l. q_eq (get_q s p l) (get_q s' p l)"
    and "\<And>p. in_queues (sched_pools s' p) = in_queues (sched_pools s p)"
    and "\<And>a. a \<in> Q \<Longrightarrow> pool_id (acts s' a) = pool_id (acts s a) \<and> priority (acts s' a) = priority (acts s a)
            \<and> queue_ndx (acts s' a) = queue_ndx (acts s a) \<and> is_idle (acts s' a) = is_idle (acts s a)"
  shows "q_inv Q s'"
proof -
  have v: "qwf (get_q s' p l) = qwf (get_q s p l)" "in_q (get_q s' p l) i a = in_q (get_q s p l) i a"
    "act_queue_end (get_q s' p l) = act_queue_end (get_q s p l)" for p l i a
    using assms(2) [of p l] by (simp_all add: q_eq_def qwf_def in_q_def)
  show ?thesis
    using assms(1) unfolding q_inv_def v assms(3) by (auto simp: assms(4))
qed

lemma qwf_in_q_ex: "qwf q \<Longrightarrow> i < unat (act_queue_end q) \<Longrightarrow> \<exists>a. in_q q i a"
  unfolding qwf_def in_q_def by (metis less_le_trans not_None_eq)

subsection \<open>Capacity\<close>

text \<open>
  The activations of a set that belong to one pool bound the fill of each of the
  pool's arrays.
\<close>

lemma q_end_le_card:
  assumes inv: "q_inv Q s" and fin: "finite Q"
  shows "unat (act_queue_end (get_q s p l)) \<le> card {a \<in> Q. a_pool s a = p}"
proof -
  let ?q = "get_q s p l"
  let ?f = "\<lambda>i. the (act_queue ?q ! i)"
  have in_q: "in_q ?q i (?f i)" if "i < unat (act_queue_end ?q)" for i
    using qwf_in_q_ex [OF q_invD(1) [OF inv] that] by (auto simp: in_q_def)
  have "inj_on ?f {..< unat (act_queue_end ?q)}"
    by (rule inj_onI) (metis in_q q_invD(2) [OF inv] lessThan_iff)
  moreover have "?f ` {..< unat (act_queue_end ?q)} \<subseteq> {a \<in> Q. a_pool s a = p}"
    using in_q q_invD(2) [OF inv] by blast
  ultimately have "card {..< unat (act_queue_end ?q)} \<le> card {a \<in> Q. a_pool s a = p}"
    using fin by (intro card_inj_on_le) auto
  then show ?thesis by simp
qed

subsection \<open>Adding\<close>

definition add_result :: "nat \<Rightarrow> nat \<Rightarrow> sched_status_e \<Rightarrow> kstate \<Rightarrow> kstate" where
  "add_result p a st s =
     (let l = a_level s a; e = act_queue_end (get_q s p l) in
      upd_pool p (\<lambda>pl. pl\<lparr>queues := (queues pl)(l := (queues pl l)\<lparr>act_queue_end := e + 1,
             act_queue := (act_queue (queues pl l))[unat e := Some a]\<rparr>),
          in_queues := in_queues pl + 1, queue_lock := False\<rparr>)
       (upd_act a (\<lambda>x. x\<lparr>queue_ndx := e, sched_status := st\<rparr>) s))"

lemma add_act_to_queue_eq:
  assumes "qwf (get_q s p (a_level s a))" "\<not> queue_lock (sched_pools s p)" "\<not> is_idle (acts s a)"
    and "unat (act_queue_end (get_q s p (a_level s a))) \<noteq> SCHED_QUEUE_LENGTH"
  shows "add_act_to_queue p a st s = Some (add_result p a st s)"
proof -
  have "unat (act_queue_end (get_q s p (a_level s a))) < SCHED_QUEUE_LENGTH"
    using assms by (simp add: qwf_def)
  then show ?thesis using assms(2-4)
    by (simp add: add_act_to_queue_def add_result_def lock_pool_def unlock_pool_def Let_def
        upd_q_def upd_act_def upd_pool_def)
qed

lemma sum_fun_upd:
  assumes "finite S" "l \<in> S"
  shows "(\<Sum>x\<in>S. f ((g(l := v)) x)) + f (g l) = (\<Sum>x\<in>S. f (g x)) + (f v :: nat)"
proof -
  have "(\<Sum>x\<in>S - {l}. f ((g(l := v)) x)) = (\<Sum>x\<in>S - {l}. f (g x))"
    by (intro sum.cong) auto
  then show ?thesis using assms by (simp add: sum.remove [of S l])
qed

lemma in_q_append:
  assumes "qwf q" "unat (act_queue_end q) \<noteq> SCHED_QUEUE_LENGTH"
    and q'_def: "q' = q\<lparr>act_queue_end := act_queue_end q + 1,
     act_queue := (act_queue q)[unat (act_queue_end q) := Some a]\<rparr>"
  shows "unat (act_queue_end q') = unat (act_queue_end q) + 1"
    and "qwf q'"
    and "in_q q' i b \<longleftrightarrow> in_q q i b \<or> (i = unat (act_queue_end q) \<and> b = a)"
proof -
  have lt: "unat (act_queue_end q) < SCHED_QUEUE_LENGTH" and len: "length (act_queue q) = SCHED_QUEUE_LENGTH"
    using assms by (auto simp: qwf_def)
  show e: "unat (act_queue_end q') = unat (act_queue_end q) + 1"
    using unat_add_1 [OF lt] by (simp add: q'_def SCHED_QUEUE_LENGTH_def)
  have nth: "act_queue q' ! i = (if i = unat (act_queue_end q) then Some a else act_queue q ! i)" for i
    using lt len by (simp add: q'_def nth_list_update)
  show "qwf q'"
    using assms(1) lt len e by (auto simp: qwf_def nth less_Suc_eq) (simp add: q'_def)
  show "in_q q' i b \<longleftrightarrow> in_q q i b \<or> (i = unat (act_queue_end q) \<and> b = a)"
    by (auto simp: in_q_def e nth less_Suc_eq)
qed

lemma add_result_q_inv:
  assumes inv: "q_inv Q s" and a: "a \<notin> Q" "\<not> is_idle (acts s a)" and p: "p = a_pool s a"
    and e: "unat (act_queue_end (get_q s p (a_level s a))) \<noteq> SCHED_QUEUE_LENGTH"
  shows "q_inv (insert a Q) (add_result p a st s)"
proof -
  let ?l = "a_level s a"
  define s' where "s' = add_result p a st s"
  let ?q = "get_q s p ?l"
  note app = in_q_append [OF q_invD(1) [OF inv] e refl, of a]
  have acts: "acts s' = (acts s)(a := (acts s a)\<lparr>queue_ndx := act_queue_end ?q, sched_status := st\<rparr>)"
    by (simp add: s'_def add_result_def Let_def)
  have q: "get_q s' p' l' = (if p' = p \<and> l' = ?l then ?q\<lparr>act_queue_end := act_queue_end ?q + 1,
     act_queue := (act_queue ?q)[unat (act_queue_end ?q) := Some a]\<rparr> else get_q s p' l')" for p' l'
    by (simp add: s'_def add_result_def Let_def)
  have in_q: "in_q (get_q s' p' l') i b \<longleftrightarrow>
      in_q (get_q s p' l') i b \<or> (p' = p \<and> l' = ?l \<and> i = unat (act_queue_end ?q) \<and> b = a)" for p' l' i b
    using app(3) by (auto simp: q)
  have cnt: "in_queues (sched_pools s' p')
        = of_nat (\<Sum>l < SCHED_PRIO_LEVELS. unat (act_queue_end (get_q s' p' l)))" for p'
  proof (cases "p' = p")
    case True
    have "(\<Sum>l < SCHED_PRIO_LEVELS. unat (act_queue_end (get_q s' p l)))
        = (\<Sum>l < SCHED_PRIO_LEVELS. unat (act_queue_end (get_q s p l))) + 1"
      using sum_fun_upd [of "{..<SCHED_PRIO_LEVELS}" ?l "\<lambda>q. unat (act_queue_end q)"
          "queues (sched_pools s p)" "get_q s' p ?l"] app(1)
      by (simp add: s'_def add_result_def Let_def)
    then show ?thesis using True q_invD(5) [OF inv, of p]
      by (simp add: s'_def add_result_def Let_def add.commute)
  next
    case False
    then show ?thesis using q_invD(5) [OF inv, of p'] by (simp add: s'_def add_result_def Let_def)
  qed
  show ?thesis
    unfolding s'_def [symmetric] q_inv_def
  proof (intro conjI allI impI ballI)
    show "qwf (get_q s' p' l')" for p' l'
      using app(2) q_invD(1) [OF inv] by (simp add: q)
  next
    fix p' l' i b assume "in_q (get_q s' p' l') i b"
    then show "b \<in> insert a Q" "a_pool s' b = p'" "a_level s' b = l'" "a_ndx s' b = i"
      using q_invD(2) [OF inv, of p' l' i b] a p [symmetric] by (auto simp: in_q acts)
  next
    fix b assume "b \<in> insert a Q"
    then show "\<not> is_idle (acts s' b)" "in_q (get_q s' (a_pool s' b) (a_level s' b)) (a_ndx s' b) b"
      using q_invD(3,4) [OF inv, of b] a p [symmetric] by (auto simp: in_q acts)
  qed (rule cnt)
qed

subsection \<open>Deleting\<close>

definition del_result :: "nat \<Rightarrow> nat \<Rightarrow> sched_status_e \<Rightarrow> kstate \<Rightarrow> kstate" where
  "del_result p a st s =
     (let l = a_level s a; e = act_queue_end (get_q s p l) - 1; ix = a_ndx s a;
          moved = the (act_queue (get_q s p l) ! unat e) in
      upd_pool p (\<lambda>pl. pl\<lparr>queues := (queues pl)(l := (queues pl l)\<lparr>act_queue_end := e,
             act_queue := (act_queue (queues pl l))[ix := Some moved, unat e := None]\<rparr>),
          in_queues := in_queues pl - 1, queue_lock := False\<rparr>)
       (upd_act a (\<lambda>x. x\<lparr>sched_status := st, queue_ndx := - 1\<rparr>)
        (upd_act moved (\<lambda>x. x\<lparr>queue_ndx := queue_ndx (acts s a)\<rparr>) s)))"

lemma in_q_end:
  assumes "qwf q" "in_q q i a"
  shows "unat (act_queue_end q - 1) = unat (act_queue_end q) - 1"
    and "unat (act_queue_end q) - 1 < SCHED_QUEUE_LENGTH" "i < SCHED_QUEUE_LENGTH"
    and "0 < unat (act_queue_end q)"
    and "in_q q (unat (act_queue_end q) - 1) (the (act_queue q ! (unat (act_queue_end q) - 1)))"
proof -
  show pos: "0 < unat (act_queue_end q)" using assms by (auto simp: in_q_def)
  then show "unat (act_queue_end q - 1) = unat (act_queue_end q) - 1" by (rule unat_sub_1)
  show "unat (act_queue_end q) - 1 < SCHED_QUEUE_LENGTH" "i < SCHED_QUEUE_LENGTH"
    using assms pos by (auto simp: in_q_def qwf_def)
  have "unat (act_queue_end q) - 1 < unat (act_queue_end q)" using pos by simp
  from qwf_in_q_ex [OF assms(1) this]
  show "in_q q (unat (act_queue_end q) - 1) (the (act_queue q ! (unat (act_queue_end q) - 1)))"
    by (auto simp: in_q_def)
qed

lemma delete_act_from_queue_eq:
  assumes inv: "q_inv Q s" and a: "a \<in> Q" and p: "p = a_pool s a"
    and lk: "\<not> queue_lock (sched_pools s p)"
  shows "delete_act_from_queue p a st s = Some (del_result p a st s)"
proof -
  let ?q = "get_q s p (a_level s a)"
  have iq: "in_q ?q (a_ndx s a) a" using q_invD(4) [OF inv a] p by simp
  note E = in_q_end [OF q_invD(1) [OF inv] iq]
  from E(5) obtain m where m: "act_queue ?q ! (unat (act_queue_end ?q) - 1) = Some m"
    by (auto simp: in_q_def)
  have nth: "act_queue ?q ! a_ndx s a = Some a" using iq by (simp add: in_q_def)
  show ?thesis
    using q_invD(3) [OF inv a] lk m nth E(1-3)
    by (cases "a = m") (simp_all add: delete_act_from_queue_def del_result_def lock_pool_def unlock_pool_def Let_def
        upd_q_def upd_act_def upd_pool_def)
qed

lemma in_q_remove:
  assumes wf: "qwf q" and iq: "in_q q ix a"
    and q'_def: "q' = q\<lparr>act_queue_end := act_queue_end q - 1,
     act_queue := (act_queue q)[ix := Some m, unat (act_queue_end q - 1) := None]\<rparr>"
    and m: "m = the (act_queue q ! unat (act_queue_end q - 1))"
  shows "unat (act_queue_end q') + 1 = unat (act_queue_end q)"
    and "qwf q'"
    and "in_q q' i b \<longleftrightarrow> i < unat (act_queue_end q) - 1 \<and>
           (if i = ix then b = m else in_q q i b)"
proof -
  note E = in_q_end [OF wf iq]
  let ?e = "unat (act_queue_end q) - 1"
  have len: "length (act_queue q) = SCHED_QUEUE_LENGTH" using wf by (simp add: qwf_def)
  show e: "unat (act_queue_end q') + 1 = unat (act_queue_end q)"
    using E by (simp add: q'_def)
  have nth: "act_queue q' ! i = (if i = ?e then None else if i = ix then Some m else act_queue q ! i)" for i
    using E len by (simp add: q'_def nth_list_update)
  have ix: "ix \<le> ?e" using iq by (auto simp: in_q_def)
  show "qwf q'"
    unfolding qwf_def
  proof (intro conjI allI impI)
    show "length (act_queue q') = SCHED_QUEUE_LENGTH" using len by (simp add: q'_def)
    show "unat (act_queue_end q') \<le> SCHED_QUEUE_LENGTH" using e E by simp
    show "(act_queue q' ! i \<noteq> None) = (i < unat (act_queue_end q'))"
      if "i < SCHED_QUEUE_LENGTH" for i
      using that wf e ix by (auto simp: nth qwf_def)
  qed
  show "in_q q' i b \<longleftrightarrow> i < ?e \<and> (if i = ix then b = m else in_q q i b)"
    using e by (auto simp: in_q_def nth)
qed

lemma del_result_acts:
  assumes "q_inv Q s" "a \<in> Q" "p = a_pool s a"
  shows "acts (del_result p a st s) a = (acts s a)\<lparr>sched_status := st, queue_ndx := - 1\<rparr>"
    and "b \<noteq> a \<Longrightarrow> \<exists>n. acts (del_result p a st s) b = (acts s b)\<lparr>queue_ndx := n\<rparr>"
    and "b \<noteq> a \<Longrightarrow> b \<notin> Q \<Longrightarrow> acts (del_result p a st s) b = acts s b"
proof -
  let ?q = "get_q s p (a_level s a)"
  define m where "m = the (act_queue ?q ! unat (act_queue_end ?q - 1))"
  have iq: "in_q ?q (a_ndx s a) a" using q_invD(4) [OF assms(1,2)] assms(3) by simp
  note E = in_q_end [OF q_invD(1) [OF assms(1)] iq]
  have mQ: "m \<in> Q" using E(1,5) q_invD(2) [OF assms(1)] unfolding m_def by metis
  have acts: "acts (del_result p a st s) = ((acts s)(m := (acts s m)\<lparr>queue_ndx := queue_ndx (acts s a)\<rparr>))
      (a := ((acts s)(m := (acts s m)\<lparr>queue_ndx := queue_ndx (acts s a)\<rparr>)) a\<lparr>sched_status := st, queue_ndx := - 1\<rparr>)"
    by (simp add: del_result_def Let_def m_def)
  show "acts (del_result p a st s) a = (acts s a)\<lparr>sched_status := st, queue_ndx := - 1\<rparr>"
    by (simp add: acts)
  show "b \<noteq> a \<Longrightarrow> \<exists>n. acts (del_result p a st s) b = (acts s b)\<lparr>queue_ndx := n\<rparr>"
    by (cases "b = m") (auto simp: acts intro: exI [of _ "queue_ndx (acts s b)"])
  show "b \<noteq> a \<Longrightarrow> b \<notin> Q \<Longrightarrow> acts (del_result p a st s) b = acts s b"
    using mQ by (auto simp: acts)
qed

lemma del_result_q_inv:
  assumes inv: "q_inv Q s" and a: "a \<in> Q" and p: "p = a_pool s a"
  shows "q_inv (Q - {a}) (del_result p a st s)"
proof -
  let ?l = "a_level s a" and ?ix = "a_ndx s a"
  let ?q = "get_q s p ?l"
  define s' where "s' = del_result p a st s"
  define m where "m = the (act_queue ?q ! unat (act_queue_end ?q - 1))"
  define e where "e = unat (act_queue_end ?q) - 1"
  have iq: "in_q ?q ?ix a" using q_invD(4) [OF inv a] p by simp
  note E = in_q_end [OF q_invD(1) [OF inv] iq]
  note rem = in_q_remove [OF q_invD(1) [OF inv] iq refl m_def]
  have me: "in_q ?q e m" using E(1,5) by (simp add: m_def e_def)
  have mQ: "m \<in> Q" "a_pool s m = p" "a_level s m = ?l" "a_ndx s m = e"
    using q_invD(2) [OF inv me] by auto
  have ae: "a = m \<longleftrightarrow> ?ix = e"
  proof
    show "?ix = e" if "a = m" using that mQ by simp
    show "a = m" if "?ix = e" using that me iq by (simp add: in_q_def)
  qed
  have in_q_le: "?ix \<le> e" using iq by (auto simp: in_q_def e_def)
  have acts: "acts s' b = (if b = a then (acts s a)\<lparr>sched_status := st, queue_ndx := - 1\<rparr>
      else if b = m then (acts s m)\<lparr>queue_ndx := queue_ndx (acts s a)\<rparr> else acts s b)" for b
    by (simp add: s'_def del_result_def Let_def m_def)
  have q: "get_q s' p' l' = (if p' = p \<and> l' = ?l then ?q\<lparr>act_queue_end := act_queue_end ?q - 1,
     act_queue := (act_queue ?q)[?ix := Some m, unat (act_queue_end ?q - 1) := None]\<rparr> else get_q s p' l')"
    for p' l'
    by (simp add: s'_def del_result_def Let_def m_def)
  have in_q: "in_q (get_q s' p' l') i b \<longleftrightarrow>
      (if p' = p \<and> l' = ?l then i < e \<and> (if i = ?ix then b = m else in_q ?q i b)
       else in_q (get_q s p' l') i b)" for p' l' i b
    unfolding e_def using rem(3) by (auto simp: q)
  have cnt: "in_queues (sched_pools s' p')
        = of_nat (\<Sum>l < SCHED_PRIO_LEVELS. unat (act_queue_end (get_q s' p' l)))" for p'
  proof (cases "p' = p")
    case True
    have "(\<Sum>l < SCHED_PRIO_LEVELS. unat (act_queue_end (get_q s' p l))) + 1
        = (\<Sum>l < SCHED_PRIO_LEVELS. unat (act_queue_end (get_q s p l)))"
      using sum_fun_upd [of "{..<SCHED_PRIO_LEVELS}" ?l "\<lambda>q. unat (act_queue_end q)"
          "queues (sched_pools s p)" "get_q s' p ?l"] rem(1)
      by (simp add: s'_def del_result_def Let_def m_def)
    moreover have "in_queues (sched_pools s' p) = in_queues (sched_pools s p) - 1"
      by (simp add: s'_def del_result_def Let_def)
    ultimately show ?thesis using True q_invD(5) [OF inv, of p]
      by (simp only: of_nat_pred)
  next
    case False
    then show ?thesis using q_invD(5) [OF inv, of p'] by (simp add: s'_def del_result_def Let_def)
  qed
  show ?thesis
    unfolding s'_def [symmetric] q_inv_def
  proof (intro conjI allI impI ballI)
    show "qwf (get_q s' p' l')" for p' l'
      using rem(2) q_invD(1) [OF inv] by (simp add: q)
  next
    fix p' l' i b assume h: "in_q (get_q s' p' l') i b"
    consider (moved) "p' = p" "l' = ?l" "i = ?ix" "b = m" "a \<noteq> m"
      | (same) "in_q (get_q s p' l') i b" "b \<noteq> m" "b \<noteq> a"
      using h ae q_invD(2) [OF inv, of p' l' i b] mQ p unfolding in_q
      by (fastforce split: if_splits)
    then have "b \<in> Q - {a} \<and> a_pool s' b = p' \<and> a_level s' b = l' \<and> a_ndx s' b = i"
    proof cases
      case moved
      then show ?thesis using mQ by (simp add: acts)
    next
      case same
      then show ?thesis using q_invD(2) [OF inv same(1)] by (simp add: acts)
    qed
    then show "b \<in> Q - {a}" "a_pool s' b = p'" "a_level s' b = l'" "a_ndx s' b = i" by auto
  next
    fix b assume b: "b \<in> Q - {a}"
    then show "\<not> is_idle (acts s' b)" using q_invD(3) [OF inv] mQ by (simp add: acts)
    have ib: "in_q (get_q s (a_pool s b) (a_level s b)) (a_ndx s b) b" using q_invD(4) [OF inv] b by blast
    show "in_q (get_q s' (a_pool s' b) (a_level s' b)) (a_ndx s' b) b"
    proof (cases "b = m")
      case True
      then have "a \<noteq> m" "?ix < e" using b ae in_q_le by auto
      then show ?thesis using True mQ(2,3) by (simp add: in_q acts)
    next
      case False
      have "a_ndx s b < e \<and> a_ndx s b \<noteq> ?ix" if "a_pool s b = p" "a_level s b = ?l"
        using ib me iq False b unfolding that in_q_def e_def
        by (metis DiffE One_nat_def Suc_pred in_q_def less_Suc_eq option.inject singletonI E(4))
      then show ?thesis using ib False b by (auto simp: in_q acts)
    qed
  qed (rule cnt)
qed

end
