(* ===== verification/Sched_Inv.thy ===== *)
theory Sched_Inv
  imports Sched_Queue
begin

text \<open>
  The invariant of the scheduler and its preservation. \<open>A\<close> is the set of
  activations that have been registered. \<open>sched_inv A s\<close> holds also while a lock is
  held; \<open>kernel_inv A s\<close> is the invariant between two kernel operations, when all
  locks are free and every core runs its current activation.
\<close>

definition on_q :: "nat set \<Rightarrow> kstate \<Rightarrow> nat set" where
  "on_q A s = {a \<in> A. \<not> is_idle (acts s a) \<and> sched_status (acts s a) \<le> sched_running}"

definition cur_inv :: "nat set \<Rightarrow> kstate \<Rightarrow> bool" where
  "cur_inv A s \<longleftrightarrow>
     (\<forall>a \<in> A. sched_status (acts s a) = sched_running \<longrightarrow> current_act (sched_pools s (a_pool s a)) = Some a)
   \<and> (\<forall>p c. current_act (sched_pools s p) = Some c \<longrightarrow> c \<in> A \<and> a_pool s c = p)"

definition idle_inv :: "nat set \<Rightarrow> kstate \<Rightarrow> bool" where
  "idle_inv A s \<longleftrightarrow> (\<forall>p i. idle_act (sched_pools s p) = Some i \<longrightarrow>
     i \<in> A \<and> a_pool s i = p \<and> is_idle (acts s i))
   \<and> (\<forall>a \<in> A. is_idle (acts s a) \<longrightarrow> sched_status (acts s a) \<le> sched_running)"

definition cap_inv :: "nat set \<Rightarrow> kstate \<Rightarrow> bool" where
  "cap_inv A s \<longleftrightarrow> finite A \<and>
     (\<forall>p. card {a \<in> A. \<not> is_idle (acts s a) \<and> sched_status (acts s a) \<noteq> sched_terminated
        \<and> a_pool s a = p} \<le> SCHED_QUEUE_LENGTH)"

definition timer_inv :: "nat set \<Rightarrow> kstate \<Rightarrow> bool" where
  "timer_inv A s \<longleftrightarrow> length (sleeps s) = MAX_WAITERS
   \<and> (\<forall>a \<in> A. sched_status (acts s a) AND sched_wait_timeout \<noteq> 0 \<longrightarrow>
        timeout_indx (acts s a) < MAX_WAITERS \<and> sleeps s ! timeout_indx (acts s a) = Some a)
   \<and> (\<forall>i a. i < MAX_WAITERS \<and> sleeps s ! i = Some a \<longrightarrow> a \<in> A \<and> timeout_indx (acts s a) = i
        \<and> (sched_status (acts s a) AND sched_wait_timeout \<noteq> 0 \<or> sched_status (acts s a) = sched_terminated))"

definition sched_inv :: "nat set \<Rightarrow> kstate \<Rightarrow> bool" where
  "sched_inv A s \<longleftrightarrow> q_inv (on_q A s) s \<and> cur_inv A s \<and> idle_inv A s \<and> cap_inv A s \<and> timer_inv A s"

definition unlocked_but :: "nat set \<Rightarrow> kstate \<Rightarrow> bool" where
  "unlocked_but L s \<longleftrightarrow> (\<forall>a. sched_access_lock (acts s a) \<longrightarrow> a \<in> L) \<and> (\<forall>p. \<not> queue_lock (sched_pools s p))"

abbreviation unlocked :: "kstate \<Rightarrow> bool" where
  "unlocked \<equiv> unlocked_but {}"

definition cur_running :: "kstate \<Rightarrow> bool" where
  "cur_running s \<longleftrightarrow> (\<forall>p c. current_act (sched_pools s p) = Some c \<longrightarrow> sched_status (acts s c) = sched_running)"

definition kernel_inv :: "nat set \<Rightarrow> kstate \<Rightarrow> bool" where
  "kernel_inv A s \<longleftrightarrow> sched_inv A s \<and> unlocked s \<and> cur_running s"

subsection \<open>What the invariant depends on\<close>

definition act_view :: "act_t \<Rightarrow> bool \<times> u32 \<times> u8 \<times> u32 \<times> u8 \<times> nat" where
  "act_view x = (is_idle x, sched_status x, pool_id x, priority x, queue_ndx x, timeout_indx x)"

definition same_view :: "kstate \<Rightarrow> kstate \<Rightarrow> bool" where
  "same_view s s' \<longleftrightarrow> (\<forall>a. act_view (acts s' a) = act_view (acts s a))
     \<and> (\<forall>p. (\<forall>l. q_eq (get_q s p l) (get_q s' p l))
           \<and> in_queues (sched_pools s' p) = in_queues (sched_pools s p)
           \<and> idle_act (sched_pools s' p) = idle_act (sched_pools s p)
           \<and> current_act (sched_pools s' p) = current_act (sched_pools s p))
     \<and> sleeps s' = sleeps s"

lemma same_view_inv:
  assumes "same_view s s'"
  shows "sched_inv A s' \<longleftrightarrow> sched_inv A s" "cur_running s' \<longleftrightarrow> cur_running s" "on_q A s' = on_q A s"
proof -
  have v: "\<And>a. is_idle (acts s' a) = is_idle (acts s a)" "\<And>a. sched_status (acts s' a) = sched_status (acts s a)"
    "\<And>a. pool_id (acts s' a) = pool_id (acts s a)" "\<And>a. priority (acts s' a) = priority (acts s a)"
    "\<And>a. queue_ndx (acts s' a) = queue_ndx (acts s a)" "\<And>a. timeout_indx (acts s' a) = timeout_indx (acts s a)"
    "\<And>p l. q_eq (get_q s p l) (get_q s' p l)"
    "\<And>p. in_queues (sched_pools s' p) = in_queues (sched_pools s p)"
    "\<And>p. idle_act (sched_pools s' p) = idle_act (sched_pools s p)"
    "\<And>p. current_act (sched_pools s' p) = current_act (sched_pools s p)" "sleeps s' = sleeps s"
    using assms by (auto simp: same_view_def act_view_def)
  show on_q: "on_q A s' = on_q A s" by (simp add: on_q_def v)
  have "q_inv Q s' \<longleftrightarrow> q_inv Q s" for Q
    by (rule iffI; erule q_inv_frame) (use v in \<open>auto simp: q_eq_def\<close>)
  then show "sched_inv A s' \<longleftrightarrow> sched_inv A s"
    by (simp add: sched_inv_def on_q cur_inv_def idle_inv_def cap_inv_def timer_inv_def v)
  show "cur_running s' \<longleftrightarrow> cur_running s" by (simp add: cur_running_def v)
qed

lemma same_view_upd_act [simp]:
  "act_view (f (acts s a)) = act_view (acts s a) \<Longrightarrow> same_view s (upd_act a f s)"
  by (simp add: same_view_def)

lemmas upd_act_inv [simp] = same_view_inv [OF same_view_upd_act]

lemma unlock_act_inv [simp]:
  "sched_inv A (unlock_act a s) = sched_inv A s" "cur_running (unlock_act a s) = cur_running s"
  by (simp_all add: unlock_act_def act_view_def)

lemma lock_act_Some:
  "lock_act a s = Some s' \<longleftrightarrow>
     \<not> sched_access_lock (acts s a) \<and> s' = upd_act a (\<lambda>x. x\<lparr>sched_access_lock := True\<rparr>) s"
  by (auto simp: lock_act_def)

lemma unlock_act_unlocked: "unlocked_but {a} s \<Longrightarrow> unlocked (unlock_act a s)"
  by (auto simp: unlocked_but_def unlock_act_def)

lemma unlocked_mono: "unlocked s \<Longrightarrow> unlocked_but L s"
  by (auto simp: unlocked_but_def)

lemma unlocked_but_upd_act:
  assumes "unlocked_but L s" "sched_access_lock (f (acts s a)) \<Longrightarrow> a \<in> L"
  shows "unlocked_but L (upd_act a f s)"
  unfolding unlocked_but_def
proof (intro conjI allI impI)
  show "b \<in> L" if "sched_access_lock (acts (upd_act a f s) b)" for b
    using that assms by (cases "b = a") (simp_all add: unlocked_but_def)
  show "\<not> queue_lock (sched_pools (upd_act a f s) p)" for p
    using assms by (simp add: unlocked_but_def)
qed

subsection \<open>The effect of the queue operations on the fields\<close>

lemma add_result_sel [simp]:
  "is_idle (acts (add_result p a st s) b) = is_idle (acts s b)"
  "pool_id (acts (add_result p a st s) b) = pool_id (acts s b)"
  "priority (acts (add_result p a st s) b) = priority (acts s b)"
  "timeout_indx (acts (add_result p a st s) b) = timeout_indx (acts s b)"
  "sched_access_lock (acts (add_result p a st s) b) = sched_access_lock (acts s b)"
  "status (acts (add_result p a st s) b) = status (acts s b)"
  "sync_state (acts (add_result p a st s) b) = sync_state (acts s b)"
  "sched_status (acts (add_result p a st s) b) = (if b = a then st else sched_status (acts s b))"
  "idle_act (sched_pools (add_result p a st s) p') = idle_act (sched_pools s p')"
  "current_act (sched_pools (add_result p a st s) p') = current_act (sched_pools s p')"
  "queue_lock (sched_pools (add_result p a st s) p') = (p' \<noteq> p \<and> queue_lock (sched_pools s p'))"
  "sleeps (add_result p a st s) = sleeps s"
  "smp_cores (add_result p a st s) = smp_cores s"
  by (simp_all add: add_result_def Let_def)

lemma del_result_sel [simp]:
  "is_idle (acts (del_result p a st s) b) = is_idle (acts s b)"
  "pool_id (acts (del_result p a st s) b) = pool_id (acts s b)"
  "priority (acts (del_result p a st s) b) = priority (acts s b)"
  "timeout_indx (acts (del_result p a st s) b) = timeout_indx (acts s b)"
  "sched_access_lock (acts (del_result p a st s) b) = sched_access_lock (acts s b)"
  "status (acts (del_result p a st s) b) = status (acts s b)"
  "sync_state (acts (del_result p a st s) b) = sync_state (acts s b)"
  "sched_status (acts (del_result p a st s) b) = (if b = a then st else sched_status (acts s b))"
  "idle_act (sched_pools (del_result p a st s) p') = idle_act (sched_pools s p')"
  "current_act (sched_pools (del_result p a st s) p') = current_act (sched_pools s p')"
  "queue_lock (sched_pools (del_result p a st s) p') = (p' \<noteq> p \<and> queue_lock (sched_pools s p'))"
  "sleeps (del_result p a st s) = sleeps s"
  "smp_cores (del_result p a st s) = smp_cores s"
  by (simp_all add: del_result_def Let_def)

lemma unlocked_but_results [simp]:
  "unlocked_but L s \<Longrightarrow> unlocked_but L (add_result p a st s)"
  "unlocked_but L s \<Longrightarrow> unlocked_but L (del_result p a st s)"
  by (auto simp: unlocked_but_def)

text \<open>An activation that is registered but not queued always finds room.\<close>

lemma room:
  assumes q: "q_inv Q s" and cap: "cap_inv A s"
    and Q: "Q \<subseteq> {b \<in> A. \<not> is_idle (acts s b) \<and> sched_status (acts s b) \<noteq> sched_terminated}"
    and a: "a \<in> A" "a \<notin> Q" "\<not> is_idle (acts s a)" "sched_status (acts s a) \<noteq> sched_terminated"
  shows "unat (act_queue_end (get_q s (a_pool s a) l)) < SCHED_QUEUE_LENGTH"
proof -
  let ?P = "{b \<in> A. \<not> is_idle (acts s b) \<and> sched_status (acts s b) \<noteq> sched_terminated
    \<and> a_pool s b = a_pool s a}"
  have fin: "finite A" using cap by (simp add: cap_inv_def)
  then have "finite Q" using Q by (metis (no_types, lifting) finite_subset mem_Collect_eq subsetI subset_trans)
  then have "unat (act_queue_end (get_q s (a_pool s a) l)) \<le> card {b \<in> Q. a_pool s b = a_pool s a}"
    using q by (rule q_end_le_card [rotated])
  also have "\<dots> < card ?P"
    using Q a fin by (intro psubset_card_mono) auto
  also have "\<dots> \<le> SCHED_QUEUE_LENGTH" using cap by (simp add: cap_inv_def)
  finally show ?thesis .
qed

lemma add_ok:
  assumes "q_inv Q s" "cap_inv A s"
    and "Q \<subseteq> {b \<in> A. \<not> is_idle (acts s b) \<and> sched_status (acts s b) \<noteq> sched_terminated}"
    and "a \<in> A" "a \<notin> Q" "\<not> is_idle (acts s a)" "sched_status (acts s a) \<noteq> sched_terminated"
    and p: "p = a_pool s a"
    and "\<not> queue_lock (sched_pools s p)"
  shows "add_act_to_queue p a st s = Some (add_result p a st s) \<and> q_inv (insert a Q) (add_result p a st s)"
proof -
  have "unat (act_queue_end (get_q s p (a_level s a))) < SCHED_QUEUE_LENGTH"
    using room [OF assms(1-7)] p by simp
  then show ?thesis
    using assms q_invD(1) [OF assms(1)] by (simp add: add_act_to_queue_eq add_result_q_inv)
qed

lemma status_facts [simp]:
  "sched_runnable AND sched_wait_timeout = 0" "sched_running AND sched_wait_timeout = 0"
  "sched_terminated AND sched_wait_timeout = 0"
  "sched_runnable \<noteq> sched_running" "sched_running \<noteq> sched_runnable"
  "sched_runnable \<noteq> sched_terminated" "sched_running \<noteq> sched_terminated"
  "sched_terminated \<noteq> sched_runnable" "sched_terminated \<noteq> sched_running"
  "sched_runnable \<le> sched_running" "\<not> sched_terminated \<le> sched_running"
  by (simp_all add: sched_status_defs word_le_nat_alt)

lemma le_running_iff: "st \<le> sched_running \<longleftrightarrow> st = sched_runnable \<or> st = sched_running"
proof -
  have "unat st \<le> 1 \<longleftrightarrow> st = 0 \<or> st = 1"
    by (auto simp: le_Suc_eq unat_eq_zero) (metis One_nat_def unat_1 word_eq_iff_unsigned)
  then show ?thesis by (simp add: sched_status_defs word_le_nat_alt)
qed

subsection \<open>Frame rules for a status change\<close>

lemma status_change_rest:
  assumes "cur_inv A s" "idle_inv A s" "cap_inv A s"
    and "\<And>b. is_idle (acts s' b) = is_idle (acts s b) \<and> pool_id (acts s' b) = pool_id (acts s b)"
    and "\<And>p. idle_act (sched_pools s' p) = idle_act (sched_pools s p)
            \<and> current_act (sched_pools s' p) = current_act (sched_pools s p)"
    and "\<And>b. b \<noteq> a \<Longrightarrow> sched_status (acts s' b) = sched_status (acts s b)"
    and "\<not> is_idle (acts s a)" "sched_status (acts s' a) \<noteq> sched_running"
    and "sched_status (acts s a) = sched_terminated \<Longrightarrow> sched_status (acts s' a) = sched_terminated"
  shows "cur_inv A s'" "idle_inv A s'" "cap_inv A s'"
proof -
  show "cur_inv A s'"
    using assms(1,8) unfolding cur_inv_def
    by (simp add: assms(4,5)) (metis assms(6))
  show "idle_inv A s'"
    using assms(2,7) unfolding idle_inv_def by (simp add: assms(4,5)) (metis assms(6))
  have fin: "finite A" using assms(3) by (simp add: cap_inv_def)
  have "card {b \<in> A. \<not> is_idle (acts s' b) \<and> sched_status (acts s' b) \<noteq> sched_terminated \<and> a_pool s' b = p}
      \<le> card {b \<in> A. \<not> is_idle (acts s b) \<and> sched_status (acts s b) \<noteq> sched_terminated \<and> a_pool s b = p}" for p
    by (rule card_mono) (use fin assms(4,6,9) in force)+
  then show "cap_inv A s'" using assms(3) unfolding cap_inv_def by (meson le_trans)
qed

lemma del_inv:
  assumes q: "q_inv (on_q A s) s" and r: "cur_inv A s" "idle_inv A s" "cap_inv A s"
    and a: "a \<in> on_q A s" and p: "p = a_pool s a"
    and st: "\<not> st \<le> sched_running" and lk: "\<not> queue_lock (sched_pools s p)"
  defines "s' \<equiv> del_result p a st s"
  shows "delete_act_from_queue p a st s = Some s'" "q_inv (on_q A s') s'"
    and "cur_inv A s'" "idle_inv A s'" "cap_inv A s'"
proof -
  show "delete_act_from_queue p a st s = Some s'"
    unfolding s'_def using delete_act_from_queue_eq [OF q a p lk] .
  have "on_q A s' = on_q A s - {a}" using st by (auto simp: on_q_def s'_def)
  then show "q_inv (on_q A s') s'" using del_result_q_inv [OF q a p] by (simp add: s'_def)
  have "\<not> is_idle (acts s a)" "st \<noteq> sched_running" "sched_status (acts s a) \<noteq> sched_terminated"
    using a st by (auto simp: on_q_def)
  then show "cur_inv A s'" "idle_inv A s'" "cap_inv A s'"
    by - (rule status_change_rest [OF r, of s' a]; simp add: s'_def)+
qed

lemma timer_inv_frame:
  assumes "timer_inv A s" "sleeps s' = sleeps s"
    and "\<And>b. timeout_indx (acts s' b) = timeout_indx (acts s b)"
    and "\<And>b. b \<in> A \<Longrightarrow> sched_status (acts s' b) = sched_status (acts s b)
       \<or> (sched_status (acts s' b) = sched_terminated)
       \<or> (sched_status (acts s b) AND sched_wait_timeout = 0 \<and> sched_status (acts s b) \<noteq> sched_terminated
          \<and> sched_status (acts s' b) AND sched_wait_timeout = 0)"
  shows "timer_inv A s'"
  unfolding timer_inv_def assms(2,3)
proof (intro conjI ballI allI impI)
  show "length (sleeps s) = MAX_WAITERS" using assms(1) by (simp add: timer_inv_def)
next
  fix b assume b: "b \<in> A" "sched_status (acts s' b) AND sched_wait_timeout \<noteq> 0"
  then have "sched_status (acts s b) AND sched_wait_timeout \<noteq> 0" using assms(4) [OF b(1)] by auto
  then show "timeout_indx (acts s b) < MAX_WAITERS" "sleeps s ! timeout_indx (acts s b) = Some b"
    using assms(1) b(1) by (simp_all add: timer_inv_def)
next
  fix i b assume "i < MAX_WAITERS \<and> sleeps s ! i = Some b"
  then have b: "b \<in> A" "timeout_indx (acts s b) = i"
    "sched_status (acts s b) AND sched_wait_timeout \<noteq> 0 \<or> sched_status (acts s b) = sched_terminated"
    using assms(1) by (simp_all add: timer_inv_def)
  show "b \<in> A" "timeout_indx (acts s b) = i" by fact+
  show "sched_status (acts s' b) AND sched_wait_timeout \<noteq> 0 \<or> sched_status (acts s' b) = sched_terminated"
    using assms(4) [OF b(1)] b(3) by auto
qed

lemma timer_inv_frame_le:
  assumes "timer_inv A s" "sleeps s' = sleeps s"
    and "\<And>b. timeout_indx (acts s' b) = timeout_indx (acts s b)"
    and le: "\<And>b. sched_status (acts s' b) = sched_status (acts s b) \<or>
      sched_status (acts s b) \<le> sched_running \<and> sched_status (acts s' b) \<le> sched_running"
  shows "timer_inv A s'"
proof (rule timer_inv_frame [OF assms(1-3)])
  fix b
  have "st AND sched_wait_timeout = 0 \<and> st \<noteq> sched_terminated" if "st \<le> sched_running" for st
    using that unfolding le_running_iff by auto
  then show "sched_status (acts s' b) = sched_status (acts s b) \<or>
      sched_status (acts s' b) = sched_terminated \<or>
      sched_status (acts s b) AND sched_wait_timeout = 0 \<and> sched_status (acts s b) \<noteq> sched_terminated
      \<and> sched_status (acts s' b) AND sched_wait_timeout = 0"
    using le [of b] by blast
qed

subsection \<open>Moving an activation to another level\<close>

lemma requeue_ok:
  fixes pr :: sched_prio
  assumes inv: "sched_inv A s" and a: "a \<in> on_q A s" and p: "p = a_pool s a"
    and lk: "\<not> queue_lock (sched_pools s p)" and st: "st = sched_status (acts s a)"
  defines "s1 \<equiv> del_result p a st s"
  defines "s2 \<equiv> upd_act a (\<lambda>x. x\<lparr>priority := pr\<rparr>) s1"
  shows "delete_act_from_queue p a st s = Some s1"
    and "add_act_to_queue p a st s2 = Some (add_result p a st s2)"
    and "sched_inv A (add_result p a st s2)"
proof -
  let ?Q = "on_q A s" and ?s = "add_result p a st s2"
  have q: "q_inv ?Q s" and rest: "cur_inv A s" "idle_inv A s" "cap_inv A s" "timer_inv A s"
    using inv by (auto simp: sched_inv_def)
  show "delete_act_from_queue p a st s = Some s1"
    unfolding s1_def using delete_act_from_queue_eq [OF q a p lk] .
  have q2: "q_inv (?Q - {a}) s2"
    using del_result_q_inv [OF q a p, of st] unfolding s2_def s1_def
    by (rule q_inv_frame) auto
  have aA: "a \<in> A" "\<not> is_idle (acts s a)" using a by (auto simp: on_q_def)
  have sub: "?Q - {a} \<subseteq> {b \<in> A. \<not> is_idle (acts s2 b) \<and> sched_status (acts s2 b) \<noteq> sched_terminated}"
    by (auto simp: on_q_def s2_def s1_def)
  have "is_idle (acts s2 b) = is_idle (acts s b)" "pool_id (acts s2 b) = pool_id (acts s b)"
    "sched_status (acts s2 b) = sched_status (acts s b)" for b
    using st by (auto simp: s2_def s1_def)
  then have cap: "cap_inv A s2" using rest(3) by (simp add: cap_inv_def)
  have "a \<notin> ?Q - {a}" "\<not> is_idle (acts s2 a)" "sched_status (acts s2 a) \<noteq> sched_terminated"
    "p = a_pool s2 a" "\<not> queue_lock (sched_pools s2 p)"
    using aA p a st by (auto simp: s2_def s1_def on_q_def)
  note add = add_ok [OF q2 cap sub aA(1) this, of st]
  then show "add_act_to_queue p a st s2 = Some ?s" by simp
  define s3 where "s3 = ?s"
  have same: "is_idle (acts s3 b) = is_idle (acts s b)" "sched_status (acts s3 b) = sched_status (acts s b)"
    "pool_id (acts s3 b) = pool_id (acts s b)" "timeout_indx (acts s3 b) = timeout_indx (acts s b)"
    "idle_act (sched_pools s3 p') = idle_act (sched_pools s p')"
    "current_act (sched_pools s3 p') = current_act (sched_pools s p')" "sleeps s3 = sleeps s" for b p'
    using st by (auto simp: s3_def s2_def s1_def)
  have "on_q A s3 = insert a (?Q - {a})" using a by (auto simp: on_q_def same)
  then have "q_inv (on_q A s3) s3" using add by (simp add: s3_def)
  moreover have "cur_inv A s3" "idle_inv A s3" "cap_inv A s3" "timer_inv A s3"
    using rest by (simp_all add: cur_inv_def idle_inv_def cap_inv_def timer_inv_def same)
  ultimately show "sched_inv A ?s" unfolding s3_def [symmetric] by (simp add: sched_inv_def)
qed

subsection \<open>Waking\<close>

definition unsub_result :: "nat \<Rightarrow> kstate \<Rightarrow> kstate" where
  "unsub_result a s = (if sched_status (acts s a) AND sched_wait_timeout \<noteq> 0
     then s\<lparr>sleeps := (sleeps s)[timeout_indx (acts s a) := None]\<rparr> else s)"

lemma unsub_result_sel [simp]:
  "acts (unsub_result a s) = acts s" "sched_pools (unsub_result a s) = sched_pools s"
  "smp_cores (unsub_result a s) = smp_cores s"
  by (simp_all add: unsub_result_def)

lemma unsub_ok:
  assumes "timer_inv A s" "a \<in> A"
  shows "(if sched_status (acts s a) AND sched_wait_timeout \<noteq> 0
           then kernel_timer_unsubcsribe a s else Some s) = Some (unsub_result a s)"
  using assms by (auto simp: timer_inv_def kernel_timer_unsubcsribe_def unsub_result_def)

lemma unsub_timer_inv:
  assumes t: "timer_inv A s" and a: "a \<in> A" "sched_status (acts s a) \<noteq> sched_terminated"
    and s': "sleeps s' = sleeps (unsub_result a s)"
    "\<And>b. timeout_indx (acts s' b) = timeout_indx (acts s b)"
    "\<And>b. b \<noteq> a \<Longrightarrow> sched_status (acts s' b) = sched_status (acts s b)"
    and st: "sched_status (acts s' a) AND sched_wait_timeout = 0"
  shows "timer_inv A s'"
proof -
  let ?t = "sched_status (acts s a) AND sched_wait_timeout \<noteq> 0"
  have len: "length (sleeps s) = MAX_WAITERS" using t by (simp add: timer_inv_def)
  have slot: "i < MAX_WAITERS \<Longrightarrow> sleeps s ! i = Some b \<Longrightarrow> b \<in> A \<and> timeout_indx (acts s b) = i
        \<and> (sched_status (acts s b) AND sched_wait_timeout \<noteq> 0 \<or> sched_status (acts s b) = sched_terminated)"
    for i b using t by (simp add: timer_inv_def)
  have nth: "sleeps s' ! i = Some b \<longleftrightarrow> b \<noteq> a \<and> sleeps s ! i = Some b" if "i < MAX_WAITERS" for i b
  proof (cases ?t)
    case True
    with t a have "timeout_indx (acts s a) < MAX_WAITERS" "sleeps s ! timeout_indx (acts s a) = Some a"
      by (auto simp: timer_inv_def)
    with True that len slot [OF that, of a] show ?thesis
      by (auto simp: s'(1) unsub_result_def nth_list_update)
  next
    case False
    with slot [OF that, of a] a(2) show ?thesis by (auto simp: s'(1) unsub_result_def)
  qed
  show ?thesis
    unfolding timer_inv_def
  proof (intro conjI ballI allI impI)
    show "length (sleeps s') = MAX_WAITERS" using len by (simp add: s'(1) unsub_result_def)
  next
    fix b assume b: "b \<in> A" "sched_status (acts s' b) AND sched_wait_timeout \<noteq> 0"
    then have "b \<noteq> a" using st by auto
    with b t s' have "timeout_indx (acts s b) < MAX_WAITERS \<and> sleeps s ! timeout_indx (acts s b) = Some b"
      by (simp add: timer_inv_def)
    with \<open>b \<noteq> a\<close> show "timeout_indx (acts s' b) < MAX_WAITERS" "sleeps s' ! timeout_indx (acts s' b) = Some b"
      by (auto simp: s'(2) nth)
  next
    fix i b assume "i < MAX_WAITERS \<and> sleeps s' ! i = Some b"
    then show "b \<in> A" "timeout_indx (acts s' b) = i"
      "sched_status (acts s' b) AND sched_wait_timeout \<noteq> 0 \<or> sched_status (acts s' b) = sched_terminated"
      using nth slot s'(2,3) by metis+
  qed
qed

lemma wake_ok:
  assumes inv: "sched_inv A s" and a: "a \<in> A" "\<not> is_idle (acts s a)"
    and st: "\<not> sched_status (acts s a) \<le> sched_running" "sched_status (acts s a) \<noteq> sched_terminated"
    and p: "p = a_pool s a" and lk: "\<not> queue_lock (sched_pools s p)"
  defines "s1 \<equiv> unsub_result a s"
  defines "s2 \<equiv> add_result p a sched_runnable s1"
  shows "add_act_to_queue p a sched_runnable s1 = Some s2" "sched_inv A s2"
proof -
  have q: "q_inv (on_q A s) s" and r: "cur_inv A s" "idle_inv A s" "cap_inv A s" and t: "timer_inv A s"
    using inv by (auto simp: sched_inv_def)
  have q1: "q_inv (on_q A s) s1" using q by (rule q_inv_frame) (auto simp: s1_def)
  have cap: "cap_inv A s1" using r(3) by (simp add: cap_inv_def s1_def)
  have "on_q A s \<subseteq> {b \<in> A. \<not> is_idle (acts s1 b) \<and> sched_status (acts s1 b) \<noteq> sched_terminated}"
    "a \<notin> on_q A s" "\<not> is_idle (acts s1 a)" "sched_status (acts s1 a) \<noteq> sched_terminated"
    "p = a_pool s1 a" "\<not> queue_lock (sched_pools s1 p)"
    using a st p lk by (auto simp: on_q_def s1_def)
  note add = add_ok [OF q1 cap this(1) a(1) this(2-), of sched_runnable]
  then show "add_act_to_queue p a sched_runnable s1 = Some s2" by (simp add: s2_def)
  have "on_q A s2 = insert a (on_q A s)" using a by (auto simp: on_q_def s2_def s1_def sched_status_defs)
  with add have "q_inv (on_q A s2) s2" by (simp add: s2_def)
  moreover have "cur_inv A s2" "idle_inv A s2" "cap_inv A s2"
    using status_change_rest [OF r, of s2 a] a(2) st(2) by (auto simp: s2_def s1_def)
  moreover have "timer_inv A s2"
    by (rule unsub_timer_inv [OF t a(1) st(2)]) (auto simp: s2_def s1_def sched_status_defs)
  ultimately show "sched_inv A s2" by (simp add: sched_inv_def)
qed

subsection \<open>Switching\<close>

definition switch_result :: "nat \<Rightarrow> nat \<Rightarrow> nat \<Rightarrow> kstate \<Rightarrow> kstate" where
  "switch_result p from to s =
     upd_pool p (\<lambda>pl. pl\<lparr>current_act := Some to\<rparr>)
       (upd_act to (\<lambda>x. x\<lparr>sched_status := sched_running\<rparr>) (sched_deschedule from s))"

lemma switch_result_sel [simp]:
  "sched_status (acts (switch_result p from to s) b) =
     (if b = to then sched_running
      else if b = from \<and> sched_status (acts s from) = sched_running then sched_runnable
      else sched_status (acts s b))"
  "is_idle (acts (switch_result p from to s) b) = is_idle (acts s b)"
  "pool_id (acts (switch_result p from to s) b) = pool_id (acts s b)"
  "priority (acts (switch_result p from to s) b) = priority (acts s b)"
  "queue_ndx (acts (switch_result p from to s) b) = queue_ndx (acts s b)"
  "timeout_indx (acts (switch_result p from to s) b) = timeout_indx (acts s b)"
  "sched_access_lock (acts (switch_result p from to s) b) = sched_access_lock (acts s b)"
  "status (acts (switch_result p from to s) b) = status (acts s b)"
  "queues (sched_pools (switch_result p from to s) p') = queues (sched_pools s p')"
  "in_queues (sched_pools (switch_result p from to s) p') = in_queues (sched_pools s p')"
  "queue_lock (sched_pools (switch_result p from to s) p') = queue_lock (sched_pools s p')"
  "idle_act (sched_pools (switch_result p from to s) p') = idle_act (sched_pools s p')"
  "current_act (sched_pools (switch_result p from to s) p') =
     (if p' = p then Some to else current_act (sched_pools s p'))"
  "sleeps (switch_result p from to s) = sleeps s"
  "smp_cores (switch_result p from to s) = smp_cores s"
  by (auto simp: switch_result_def sched_deschedule_def)

lemma switch_inv:
  assumes inv: "sched_inv A s" and cur: "current_act (sched_pools s p) = Some from"
    and to: "to \<in> A" "a_pool s to = p" "sched_status (acts s to) = sched_runnable" "to \<noteq> from"
  shows "sched_inv A (switch_result p from to s)"
proof -
  let ?s = "switch_result p from to s"
  have q: "q_inv (on_q A s) s" and c: "cur_inv A s" and i: "idle_inv A s" "cap_inv A s" and t: "timer_inv A s"
    using inv by (auto simp: sched_inv_def)
  have le: "(sched_status (acts ?s b) \<le> sched_running) = (sched_status (acts s b) \<le> sched_running)" for b
    using to by simp
  have "on_q A ?s = on_q A s" by (simp add: on_q_def le del: switch_result_sel(1))
  moreover have "q_inv (on_q A s) ?s" using q by (rule q_inv_frame) auto
  moreover have "cur_inv A ?s"
    unfolding cur_inv_def
  proof (intro conjI ballI allI impI)
    fix b assume b: "b \<in> A" "sched_status (acts ?s b) = sched_running"
    show "current_act (sched_pools ?s (a_pool ?s b)) = Some b"
    proof (cases "b = to")
      case False
      then have run: "sched_status (acts s b) = sched_running" "b \<noteq> from"
        using b(2) by (auto split: if_splits)
      then have "current_act (sched_pools s (a_pool s b)) = Some b" using c b(1) by (simp add: cur_inv_def)
      with run(2) cur show ?thesis by auto
    qed (use to in simp)
  next
    fix p' b assume "current_act (sched_pools ?s p') = Some b"
    then show "b \<in> A" "a_pool ?s b = p'" using c to by (auto simp: cur_inv_def split: if_splits)
  qed
  moreover have "idle_inv A ?s" using i(1) by (simp add: idle_inv_def le del: switch_result_sel(1))
  moreover have "(sched_status (acts ?s b) = sched_terminated) = (sched_status (acts s b) = sched_terminated)" for b
    using to by auto
  then have "cap_inv A ?s" using i(2) by (simp add: cap_inv_def del: switch_result_sel(1))
  moreover have "timer_inv A ?s"
    by (rule timer_inv_frame_le [OF t]) (use to(3) in auto)
  ultimately show ?thesis by (simp add: sched_inv_def)
qed

end
