(* ===== verification/Sched_Ops.thy ===== *)
theory Sched_Ops
  imports Sched_Inv
begin

text \<open>
  Every operation of the scheduler, started in a state that satisfies the
  invariant, returns (no assertion fails, no lock is acquired twice) and restores
  the invariant.
\<close>

subsection \<open>Selecting a level\<close>

definition bump :: "nat \<Rightarrow> (nat \<Rightarrow> sched_q) \<Rightarrow> nat \<Rightarrow> sched_q" where
  "bump i qs = qs(i := (qs i)\<lparr>queue_ctr := queue_ctr (qs i) + 1\<rparr>)"

lemma bump_sel [simp]:
  "act_queue_end (bump i qs l) = act_queue_end (qs l)" "act_queue (bump i qs l) = act_queue (qs l)"
  "act_queue_current (bump i qs l) = act_queue_current (qs l)"
  by (simp_all add: bump_def)

lemma LEVELS [simp]: "LEVEL_TO_NDX PRIO_LOW = 1" "LEVEL_TO_NDX PRIO_IO = 4" "LEVEL_TO_NDX PRIO_IDLE = 0"
  by (simp_all add: LEVEL_TO_NDX_def prio_defs)

lemma select_level_cases:
  "i \<le> 1 \<Longrightarrow> select_level i f qs = (i, f, qs)"
  "1 < i \<Longrightarrow> act_queue_end (qs i) = 0 \<Longrightarrow> select_level i f qs = select_level (i - 1) f qs"
  "1 < i \<Longrightarrow> act_queue_end (qs i) \<noteq> 0 \<Longrightarrow> queue_ctr (qs i) AND (SCHED_PRIO_FACTOR - 1) = 0 \<Longrightarrow>
     select_level i f qs = select_level (i - 1) i (bump i qs)"
  "1 < i \<Longrightarrow> act_queue_end (qs i) \<noteq> 0 \<Longrightarrow> queue_ctr (qs i) AND (SCHED_PRIO_FACTOR - 1) \<noteq> 0 \<Longrightarrow>
     select_level i f qs = (i, i, bump i qs)"
  by (simp_all add: select_level.simps [of i] Let_def bump_def)

lemma select_level_spec:
  assumes "select_level i f qs = (i', f', qs')"
  shows "(\<forall>l. q_eq (qs l) (qs' l) \<and> act_queue_current (qs' l) = act_queue_current (qs l))
    \<and> i' \<le> i \<and> (1 \<le> i \<longrightarrow> 1 \<le> i')
    \<and> (act_queue_end (qs i') = 0 \<longrightarrow>
         i' \<le> 1 \<and> (f' = f \<and> (\<forall>l. 1 < l \<and> l \<le> i \<longrightarrow> act_queue_end (qs l) = 0)
            \<or> 1 < f' \<and> f' \<le> i \<and> act_queue_end (qs f') \<noteq> 0))"
  using assms
proof (induction i arbitrary: f qs)
  case 0
  then show ?case by (auto simp: select_level_cases)
next
  case (Suc i)
  consider "Suc i \<le> 1" | "1 < Suc i" "act_queue_end (qs (Suc i)) = 0"
    | "1 < Suc i" "act_queue_end (qs (Suc i)) \<noteq> 0" "queue_ctr (qs (Suc i)) AND (SCHED_PRIO_FACTOR - 1) = 0"
    | "1 < Suc i" "act_queue_end (qs (Suc i)) \<noteq> 0" "queue_ctr (qs (Suc i)) AND (SCHED_PRIO_FACTOR - 1) \<noteq> 0"
    by force
  then show ?case
  proof cases
    case 1
    then show ?thesis using Suc.prems by (auto simp: select_level_cases)
  next
    case 2
    then have "select_level i f qs = (i', f', qs')" using Suc.prems by (simp add: select_level_cases)
    from Suc.IH [OF this] 2 show ?thesis by (auto simp: le_Suc_eq)
  next
    case 3
    then have "select_level i (Suc i) (bump (Suc i) qs) = (i', f', qs')"
      using Suc.prems by (simp add: select_level_cases)
    from Suc.IH [OF this] 3 show ?thesis by (auto simp: q_eq_def)
  next
    case 4
    then show ?thesis using Suc.prems by (auto simp: select_level_cases q_eq_def)
  qed
qed

lemma picked_level_spec:
  assumes "picked_level qs = (l, qs')" and ne: "\<exists>l < SCHED_PRIO_LEVELS. act_queue_end (qs l) \<noteq> 0"
  shows "q_eq (qs k) (qs' k)" "act_queue_current (qs' k) = act_queue_current (qs k)"
    and "l < SCHED_PRIO_LEVELS" "act_queue_end (qs l) \<noteq> 0"
proof -
  obtain i' f' where sl: "select_level 4 0 qs = (i', f', qs')"
    and l: "l = (if act_queue_end (qs' i') = 0 then f' else i')"
    using assms(1) by (auto simp: picked_level_def Let_def split: prod.splits)
  note spec = select_level_spec [OF sl]
  show "q_eq (qs k) (qs' k)" "act_queue_current (qs' k) = act_queue_current (qs k)" using spec by auto
  have e: "act_queue_end (qs' i') = act_queue_end (qs i')" using spec by (simp add: q_eq_def)
  have "l < SCHED_PRIO_LEVELS \<and> act_queue_end (qs l) \<noteq> 0"
  proof (cases "act_queue_end (qs i') = 0")
    case False
    then show ?thesis using l e spec by (simp add: SCHED_PRIO_LEVELS_def)
  next
    case True
    have i1: "i' = 1" using spec True by auto
    from spec True consider "f' = 0" "\<forall>l. 1 < l \<and> l \<le> 4 \<longrightarrow> act_queue_end (qs l) = 0"
      | "1 < f'" "f' \<le> 4" "act_queue_end (qs f') \<noteq> 0" by auto
    then show ?thesis
    proof cases
      case 1
      from ne obtain m where m: "m < 5" "act_queue_end (qs m) \<noteq> 0" by (auto simp: SCHED_PRIO_LEVELS_def)
      then have "m = 0 \<or> m = 1 \<or> 1 < m \<and> m \<le> 4" by linarith
      with 1 m i1 True have "m = 0" by auto
      with 1 m l e True show ?thesis by (simp add: SCHED_PRIO_LEVELS_def)
    next
      case 2
      then show ?thesis using l e True by (simp add: SCHED_PRIO_LEVELS_def)
    qed
  qed
  then show "l < SCHED_PRIO_LEVELS" "act_queue_end (qs l) \<noteq> 0" by auto
qed

subsection \<open>Picking\<close>

text \<open>What rescheduling leaves alone while it chooses an activation.\<close>

definition same_sched :: "kstate \<Rightarrow> kstate \<Rightarrow> bool" where
  "same_sched s s' \<longleftrightarrow>
     (\<forall>b. sched_status (acts s' b) = sched_status (acts s b) \<and> pool_id (acts s' b) = pool_id (acts s b)
        \<and> is_idle (acts s' b) = is_idle (acts s b) \<and> status (acts s' b) = status (acts s b))
   \<and> (\<forall>p. current_act (sched_pools s' p) = current_act (sched_pools s p)
        \<and> idle_act (sched_pools s' p) = idle_act (sched_pools s p))"

lemma same_sched_trans: "same_sched s s' \<Longrightarrow> same_sched s' s'' \<Longrightarrow> same_sched s s''"
  by (simp add: same_sched_def)

lemma in_queues_pos:
  assumes inv: "q_inv Q s" and "in_queues (sched_pools s p) \<noteq> 0"
  shows "\<exists>l < SCHED_PRIO_LEVELS. act_queue_end (get_q s p l) \<noteq> 0"
proof (rule ccontr)
  assume "\<not> ?thesis"
  then have "(\<Sum>l < SCHED_PRIO_LEVELS. unat (act_queue_end (get_q s p l))) = 0" by simp
  with q_invD(5) [OF inv, of p] assms(2) show False by simp
qed

text \<open>The state in which \<open>sched_picknext\<close> has chosen \<open>n\<close> from level \<open>l\<close> and locked it.\<close>

definition picked_state :: "nat \<Rightarrow> nat \<Rightarrow> (nat \<Rightarrow> sched_q) \<Rightarrow> nat \<Rightarrow> nat \<Rightarrow> kstate \<Rightarrow> kstate" where
  "picked_state p l qs cur n s =
     upd_pool p (\<lambda>pl. pl\<lparr>queues := qs(l := (qs l)\<lparr>act_queue_current := of_nat cur\<rparr>), queue_lock := False\<rparr>)
      (upd_act n (\<lambda>x. x\<lparr>sched_access_lock := True\<rparr>) s)"

lemma picked_state_props:
  assumes "\<And>k. q_eq (get_q s p k) (qs k)" and "unlocked s"
  shows "same_view s (picked_state p l qs cur n s)" "same_sched s (picked_state p l qs cur n s)"
    and "unlocked_but {n} (picked_state p l qs cur n s)"
  using assms
  by (auto simp: picked_state_def same_view_def act_view_def same_sched_def unlocked_but_def q_eq_def)

definition picked_act :: "nat \<Rightarrow> kstate \<Rightarrow> nat" where
  "picked_act p s =
     (let l = fst (picked_level (queues (sched_pools s p))); q = get_q s p l
      in the (act_queue q ! ((unat (act_queue_current q) + 1) mod unat (act_queue_end q))))"

lemma picknext_choice:
  assumes inv: "sched_inv A s" and lk: "unlocked s"
    and ne: "in_queues (sched_pools s p) \<noteq> 0"
    and pl: "picked_level (queues (sched_pools s p)) = (l, qs)"
  defines "q \<equiv> get_q s p l"
  defines "cur \<equiv> (unat (act_queue_current q) + 1) mod unat (act_queue_end q)"
  defines "n \<equiv> picked_act p s"
  defines "s1 \<equiv> picked_state p l qs cur n s"
  shows "n \<in> on_q A s" "a_pool s n = p" "a_level s n = l"
    and "sched_picknext p s =
      (if priority (acts s n) AND PRIO_IO \<noteq> 0 then do {
         s \<leftarrow> delete_act_from_queue p n (sched_status (acts s n)) s1;
         s \<leftarrow> add_act_to_queue p n (sched_status (acts s n)) (upd_act n (\<lambda>x. x\<lparr>priority := priority x AND NOT PRIO_IO\<rparr>) s);
         Some (Some n, s)
       } else Some (Some n, s1))"
proof -
  have qi: "q_inv (on_q A s) s" using inv by (simp add: sched_inv_def)
  note spec = picked_level_spec [OF pl in_queues_pos [OF qi ne]]
  have e: "act_queue_end q \<noteq> 0" using spec(4) by (simp add: q_def)
  then have cur: "cur < unat (act_queue_end q)"
    unfolding cur_def by (simp add: unat_gt_0)
  have wf: "qwf q" unfolding q_def using q_invD(1) [OF qi] .
  obtain m where m: "in_q q cur m" using qwf_in_q_ex [OF wf cur] by blast
  then have nth: "act_queue q ! cur = Some m" by (simp add: in_q_def)
  have nm: "n = m"
    using pl nth by (simp add: n_def picked_act_def Let_def q_def cur_def)
  show n: "n \<in> on_q A s" "a_pool s n = p" "a_level s n = l"
    using q_invD(2) [OF qi m [unfolded q_def]] nm by auto
  have st: "sched_status (acts s n) = sched_runnable \<or> sched_status (acts s n) = sched_running"
    using n(1) by (simp add: on_q_def le_running_iff)
  have qs: "act_queue_end (qs l) = act_queue_end q" "act_queue (qs l) = act_queue q"
    "act_queue_current (qs l) = act_queue_current q"
    using spec(1,2) [of l] by (auto simp: q_eq_def q_def)
  have "cur < SCHED_QUEUE_LENGTH" using cur wf by (simp add: qwf_def)
  moreover have "\<not> queue_lock (sched_pools s p)" "\<not> sched_access_lock (acts s n)"
    using lk by (auto simp: unlocked_but_def)
  ultimately show "sched_picknext p s =
      (if priority (acts s n) AND PRIO_IO \<noteq> 0 then do {
         s \<leftarrow> delete_act_from_queue p n (sched_status (acts s n)) s1;
         s \<leftarrow> add_act_to_queue p n (sched_status (acts s n)) (upd_act n (\<lambda>x. x\<lparr>priority := priority x AND NOT PRIO_IO\<rparr>) s);
         Some (Some n, s)
       } else Some (Some n, s1))"
    using ne pl qs e nth nm n(3) st
    by (simp add: sched_picknext_def lock_pool_def unlock_pool_def lock_act_def Let_def
        cur_def s1_def picked_state_def upd_q_def upd_act_def upd_pool_def)
qed

lemma picknext_ok:
  assumes inv: "sched_inv A s" and lk: "unlocked s"
    and ne: "in_queues (sched_pools s p) \<noteq> 0"
  defines "n \<equiv> picked_act p s"
  shows "\<exists>s'. sched_picknext p s = Some (Some n, s') \<and> sched_inv A s' \<and> same_sched s s' \<and> unlocked_but {n} s'"
    and "n \<in> on_q A s" "a_pool s n = p"
proof -
  obtain l qs where pl: "picked_level (queues (sched_pools s p)) = (l, qs)" by force
  define cur where "cur = (unat (act_queue_current (get_q s p l)) + 1) mod unat (act_queue_end (get_q s p l))"
  define s1 where "s1 = picked_state p l qs cur n s"
  note ch = picknext_choice [OF inv lk ne pl, folded cur_def n_def, folded s1_def]
  show n: "n \<in> on_q A s" "a_pool s n = p" using ch by auto
  have qi: "q_inv (on_q A s) s" using inv by (simp add: sched_inv_def)
  note qe = picked_level_spec(1) [OF pl in_queues_pos [OF qi ne]]
  have ps: "same_view s s1" "same_sched s s1" "unlocked_but {n} s1"
    unfolding s1_def by (rule picked_state_props [OF qe lk])+
  have inv1: "sched_inv A s1" and q1: "on_q A s1 = on_q A s" using same_view_inv [OF ps(1)] inv by auto
  have st1: "sched_status (acts s1 n) = sched_status (acts s n)" "a_pool s1 n = p"
    "priority (acts s1 n) = priority (acts s n)"
    using ps(1,2) n by (auto simp: same_sched_def same_view_def act_view_def)
  show "\<exists>s'. sched_picknext p s = Some (Some n, s') \<and> sched_inv A s' \<and> same_sched s s' \<and> unlocked_but {n} s'"
  proof (cases "priority (acts s n) AND PRIO_IO = 0")
    case True
    then show ?thesis using ch(4) inv1 ps by auto
  next
    case False
    let ?st = "sched_status (acts s n)" and ?pr = "priority (acts s n) AND NOT PRIO_IO"
    define s2 where "s2 = upd_act n (\<lambda>x. x\<lparr>priority := ?pr\<rparr>) (del_result p n ?st s1)"
    have lk1: "\<not> queue_lock (sched_pools s1 p)" using ps(3) by (simp add: unlocked_but_def)
    have prem: "n \<in> on_q A s1" "p = a_pool s1 n" "?st = sched_status (acts s1 n)"
      using n q1 st1 by auto
    note rq = requeue_ok(1) [OF inv1 prem(1,2) lk1 prem(3)]
      requeue_ok(2,3) [OF inv1 prem(1,2) lk1 prem(3), of ?pr, folded s2_def]
    have s2': "upd_act n (\<lambda>x. x\<lparr>priority := priority x AND NOT PRIO_IO\<rparr>) (del_result p n ?st s1) = s2"
      by (simp add: s2_def upd_act_def st1)
    have st2: "sched_status (acts (del_result p n ?st s1) n) = ?st" by simp
    have "sched_picknext p s = Some (Some n, add_result p n ?st s2)"
      unfolding ch(4) rq(1) using False
      by (simp only: if_True not_False_eq_True bind.bind_lunit s2' st2 rq(2))
    moreover have "same_sched s (add_result p n ?st s2)"
      by (rule same_sched_trans [OF ps(2)]) (simp add: same_sched_def s2_def st1(1))
    moreover have "unlocked_but {n} s2"
      unfolding s2_def by (rule unlocked_but_upd_act) (use ps(3) in simp_all)
    ultimately show ?thesis using rq(3) by auto
  qed
qed

lemma picknext_idle:
  assumes lk: "unlocked s" and "in_queues (sched_pools s p) = 0"
  shows "sched_picknext p s = Some (idle_act (sched_pools s p), s)"
proof -
  have "\<not> queue_lock (sched_pools s p)" using lk by (simp add: unlocked_but_def)
  then have eq: "(sched_pools s p)\<lparr>queue_lock := False\<rparr> = sched_pools s p"
    by (cases "sched_pools s p") simp
  have "upd_pool p (\<lambda>x. x\<lparr>queue_lock := False\<rparr>) s = s" unfolding upd_pool_def eq by simp
  moreover have "sched_picknext p s
      = Some (idle_act (sched_pools s p), upd_pool p (\<lambda>x. x\<lparr>queue_lock := False\<rparr>) s)"
    using \<open>\<not> queue_lock (sched_pools s p)\<close> assms(2)
    by (simp add: sched_picknext_def lock_pool_def unlock_pool_def get_idle_def upd_pool_def)
  ultimately show ?thesis by (simp only:)
qed

subsection \<open>Rescheduling\<close>

lemma sched_schedule_eq:
  assumes "sched_status (acts s to) = sched_runnable" "to \<noteq> from" "p < 256"
  shows "sched_schedule (of_nat p) to (sched_deschedule from s) = Some (switch_result p from to s)"
proof -
  have "unat (of_nat p :: u8) = p" using assms(3) by (simp add: unat_of_nat)
  then show ?thesis using assms(1,2)
    by (simp add: sched_schedule_def switch_result_def sched_deschedule_def)
qed

lemma switch_step:
  assumes inv: "sched_inv A s" and lk: "unlocked_but {to} s"
    and cur: "current_act (sched_pools s p) = Some from" and p: "p < 256"
    and to: "to \<in> A" "a_pool s to = p" "sched_status (acts s to) \<le> sched_running"
  defines "s' \<equiv> unlock_act to (if to = from then s else switch_result p from to s)"
  shows "sched_inv A s'" "unlocked s'" "current_act (sched_pools s' p) = Some to"
    and "p' \<noteq> p \<Longrightarrow> current_act (sched_pools s' p') = current_act (sched_pools s p')"
    and "b \<noteq> from \<Longrightarrow> b \<noteq> to \<Longrightarrow> sched_status (acts s' b) = sched_status (acts s b)"
    and "to \<noteq> from \<Longrightarrow> sched_status (acts s' to) = sched_running"
    and "to \<noteq> from \<Longrightarrow> sched_status (acts s to) = sched_runnable"
    and "to \<noteq> from \<Longrightarrow> sched_status (acts s' from) =
      (if sched_status (acts s from) = sched_running then sched_runnable else sched_status (acts s from))"
proof -
  have run: "sched_status (acts s to) = sched_runnable" if "to \<noteq> from"
  proof -
    have "cur_inv A s" using inv by (simp add: sched_inv_def)
    then have "sched_status (acts s to) = sched_running \<longrightarrow> current_act (sched_pools s (a_pool s to)) = Some to"
      using to(1) unfolding cur_inv_def by blast
    then have "sched_status (acts s to) \<noteq> sched_running" using cur that to(2) by auto
    then show ?thesis using to(3) by (simp add: le_running_iff)
  qed
  then show "to \<noteq> from \<Longrightarrow> sched_status (acts s to) = sched_runnable" .
  show "sched_inv A s'" using inv switch_inv [OF inv cur to(1,2) run] by (simp add: s'_def)
  show "unlocked s'" using lk unfolding s'_def
    by (intro unlock_act_unlocked) (auto simp: unlocked_but_def)
  show "current_act (sched_pools s' p) = Some to" using cur by (simp add: s'_def unlock_act_def)
  show "p' \<noteq> p \<Longrightarrow> current_act (sched_pools s' p') = current_act (sched_pools s p')"
    by (simp add: s'_def unlock_act_def)
  show "b \<noteq> from \<Longrightarrow> b \<noteq> to \<Longrightarrow> sched_status (acts s' b) = sched_status (acts s b)"
    by (simp add: s'_def unlock_act_def)
  show "to \<noteq> from \<Longrightarrow> sched_status (acts s' to) = sched_running"
    by (simp add: s'_def unlock_act_def)
  show "to \<noteq> from \<Longrightarrow> sched_status (acts s' from) =
      (if sched_status (acts s from) = sched_running then sched_runnable else sched_status (acts s from))"
    by (simp add: s'_def unlock_act_def)
qed

text \<open>The hint is used only if it is runnable in the pool of this core.\<close>

definition hint_taken :: "nat \<Rightarrow> nat option \<Rightarrow> kstate \<Rightarrow> bool" where
  "hint_taken cpu hint s = (case hint of None \<Rightarrow> False
     | Some h \<Rightarrow> a_pool s h = cpu \<and> sched_status (acts s h) = sched_runnable)"

definition chosen :: "nat \<Rightarrow> nat option \<Rightarrow> kstate \<Rightarrow> nat" where
  "chosen cpu hint s =
     (if hint_taken cpu hint s then the hint
      else if in_queues (sched_pools s cpu) = 0 then the (idle_act (sched_pools s cpu))
      else picked_act cpu s)"

lemma unlock_lock_id:
  "\<not> sched_access_lock (acts s h) \<Longrightarrow>
     unlock_act h (upd_act h (\<lambda>x. x\<lparr>sched_access_lock := True\<rparr>) s) = s"
proof -
  assume "\<not> sched_access_lock (acts s h)"
  then have eq: "(acts s h)\<lparr>sched_access_lock := False\<rparr> = acts s h" by (cases "acts s h") simp
  have "unlock_act h (upd_act h (\<lambda>x. x\<lparr>sched_access_lock := True\<rparr>) s)
      = s\<lparr>acts := (acts s)(h := (acts s h)\<lparr>sched_access_lock := False\<rparr>)\<rparr>"
    by (simp add: unlock_act_def upd_act_def)
  also have "\<dots> = s" unfolding eq by simp
  finally show ?thesis .
qed

lemma choose_ok:
  assumes inv: "sched_inv A s" and lk: "unlocked s"
    and idle: "idle_act (sched_pools s cpu) \<noteq> None" and hint: "\<And>h. hint = Some h \<Longrightarrow> h \<in> A"
  defines "n \<equiv> chosen cpu hint s"
  shows "\<exists>s'. (do {
     (hint, s) \<leftarrow> (case hint of
         None \<Rightarrow> Some (None, s)
       | Some h \<Rightarrow> do {
           s \<leftarrow> lock_act h s;
           if unat (pool_id (acts s h)) \<noteq> cpu \<or> sched_status (acts s h) \<noteq> sched_runnable
           then Some (None, unlock_act h s) else Some (Some h, s)
         });
     case hint of None \<Rightarrow> sched_picknext cpu s | Some h \<Rightarrow> Some (Some h, s)
   }) = Some (Some n, s') \<and> sched_inv A s' \<and> same_sched s s' \<and> unlocked_but {n} s'" (is "\<exists>s'. ?L = _ \<and> _")
    and "n \<in> A" "a_pool s n = cpu" "sched_status (acts s n) \<le> sched_running"
proof -
  have idle_props: "i \<in> A \<and> a_pool s i = cpu \<and> sched_status (acts s i) \<le> sched_running"
    if "idle_act (sched_pools s cpu) = Some i" for i
    using inv that unfolding sched_inv_def idle_inv_def by blast
  have picked: "picked_act cpu s \<in> A" "a_pool s (picked_act cpu s) = cpu"
      "sched_status (acts s (picked_act cpu s)) \<le> sched_running" if "in_queues (sched_pools s cpu) \<noteq> 0"
    using picknext_ok(2,3) [OF inv lk that] by (auto simp: on_q_def)
  obtain i where i: "idle_act (sched_pools s cpu) = Some i" using idle by blast
  have taken: "n \<in> A \<and> a_pool s n = cpu \<and> sched_status (acts s n) \<le> sched_running"
  proof (cases "hint_taken cpu hint s")
    case True
    then show ?thesis using hint by (auto simp: n_def chosen_def hint_taken_def split: option.splits)
  next
    case False
    then show ?thesis using picked idle_props [OF i] i by (simp add: n_def chosen_def)
  qed
  then show "n \<in> A" "a_pool s n = cpu" "sched_status (acts s n) \<le> sched_running" by auto
  have free: "\<not> sched_access_lock (acts s h)" for h using lk by (simp add: unlocked_but_def)
  show "\<exists>s'. ?L = Some (Some n, s') \<and> sched_inv A s' \<and> same_sched s s' \<and> unlocked_but {n} s'"
  proof (cases "hint_taken cpu hint s")
    case True
    then obtain h where h: "hint = Some h" "a_pool s h = cpu" "sched_status (acts s h) = sched_runnable"
      by (auto simp: hint_taken_def split: option.splits)
    define s' where "s' = upd_act h (\<lambda>x. x\<lparr>sched_access_lock := True\<rparr>) s"
    have "?L = Some (Some h, s')" using h free by (simp add: lock_act_def s'_def)
    moreover have "n = h" using True h by (simp add: n_def chosen_def)
    moreover have "sched_inv A s'" using inv by (simp add: s'_def act_view_def)
    moreover have "same_sched s s'" by (simp add: same_sched_def s'_def)
    moreover have "unlocked_but {h} s'"
      unfolding s'_def by (rule unlocked_but_upd_act) (use unlocked_mono [OF lk] in auto)
    ultimately show ?thesis by blast
  next
    case False
    have "?L = sched_picknext cpu s"
      using False free unlock_lock_id [OF free]
      by (cases hint) (auto simp: hint_taken_def lock_act_def)
    moreover have "\<exists>s'. sched_picknext cpu s = Some (Some n, s') \<and> sched_inv A s' \<and> same_sched s s' \<and> unlocked_but {n} s'"
    proof (cases "in_queues (sched_pools s cpu) = 0")
      case True
      then show ?thesis using picknext_idle [OF lk True] i False inv unlocked_mono [OF lk]
        by (simp add: n_def chosen_def same_sched_def)
    next
      case ne: False
      then show ?thesis using picknext_ok(1) [OF inv lk ne] False by (simp add: n_def chosen_def)
    qed
    ultimately show ?thesis by simp
  qed
qed

definition switch_of :: "bool \<Rightarrow> nat \<Rightarrow> nat \<Rightarrow> kstate \<Rightarrow> switch" where
  "switch_of in_exc from to s =
     (if to = from \<or> in_exc then NoSwitch
      else if status (acts s from) = status_terminated then DestroyAndSwitchTo to from
      else SwitchTo to)"

lemma reschedule_ok:
  assumes inv: "sched_inv A s" and lk: "unlocked s"
    and idle: "idle_act (sched_pools s cpu) \<noteq> None" and hint: "\<And>h. hint = Some h \<Longrightarrow> h \<in> A"
    and cur: "current_act (sched_pools s cpu) = Some c" and st: "sched_status (acts s c) \<noteq> sched_runnable"
  defines "n \<equiv> chosen cpu hint s"
  obtains s' where "sched_reschedule cpu hint in_exc s = Some (switch_of in_exc c n s, s')"
    and "sched_inv A s'" "unlocked s'"
    and "current_act (sched_pools s' cpu) = Some n" "sched_status (acts s' n) = sched_running"
    and "\<And>p. p \<noteq> cpu \<Longrightarrow> current_act (sched_pools s' p) = current_act (sched_pools s p)"
    and "\<And>b. b \<noteq> c \<Longrightarrow> b \<noteq> n \<Longrightarrow> sched_status (acts s' b) = sched_status (acts s b)"
    and "n \<in> A" "a_pool s n = cpu" "sched_status (acts s n) \<le> sched_running"
    and "n \<noteq> c \<Longrightarrow> sched_status (acts s' c) =
      (if sched_status (acts s c) = sched_running then sched_runnable else sched_status (acts s c))"
proof -
  note n = choose_ok(2-4) [where hint = hint, OF inv lk idle hint, folded n_def]
  obtain s1 where s1: "(do {
     (hint, s) \<leftarrow> (case hint of
         None \<Rightarrow> Some (None, s)
       | Some h \<Rightarrow> do {
           s \<leftarrow> lock_act h s;
           if unat (pool_id (acts s h)) \<noteq> cpu \<or> sched_status (acts s h) \<noteq> sched_runnable
           then Some (None, unlock_act h s) else Some (Some h, s)
         });
     case hint of None \<Rightarrow> sched_picknext cpu s | Some h \<Rightarrow> Some (Some h, s)
   }) = Some (Some n, s1)" "sched_inv A s1" "same_sched s s1" "unlocked_but {n} s1"
    using choose_ok(1) [where hint = hint, OF inv lk idle hint, folded n_def] by blast
  have same: "sched_status (acts s1 b) = sched_status (acts s b)" "a_pool s1 b = a_pool s b"
    "status (acts s1 b) = status (acts s b)"
    "current_act (sched_pools s1 p) = current_act (sched_pools s p)" for b p
    using s1(3) by (simp_all add: same_sched_def)
  have p: "cpu < 256"
  proof -
    have "a_pool s c = cpu" using inv cur unfolding sched_inv_def cur_inv_def by blast
    then show ?thesis using unsigned_less [of "pool_id (acts s c)", where 'a = nat] by simp
  qed
  define s' where "s' = unlock_act n (if n = c then s1 else switch_result cpu c n s1)"
  have prems: "current_act (sched_pools s1 cpu) = Some c" "a_pool s1 n = cpu"
    "sched_status (acts s1 n) \<le> sched_running" using cur n by (simp_all add: same)
  note sw = switch_step [OF s1(2,4) prems(1) p n(1) prems(2,3), folded s'_def]
  have run: "sched_status (acts s' n) = sched_running"
  proof (cases "n = c")
    case True
    then have "sched_status (acts s c) = sched_running" using n(3) st by (simp add: le_running_iff)
    then show ?thesis using True by (simp add: s'_def unlock_act_def same)
  qed (use sw(6) in simp)
  obtain h0 s0 where e1: "(case hint of
         None \<Rightarrow> Some (None, s)
       | Some h \<Rightarrow> do {
           s \<leftarrow> lock_act h s;
           if unat (pool_id (acts s h)) \<noteq> cpu \<or> sched_status (acts s h) \<noteq> sched_runnable
           then Some (None, unlock_act h s) else Some (Some h, s)
         }) = Some (h0, s0)"
    and e2: "(case h0 of None \<Rightarrow> sched_picknext cpu s0 | Some h \<Rightarrow> Some (Some h, s0)) = Some (Some n, s1)"
    using s1(1) unfolding bind_Some_conv by (auto simp only: split: prod.splits)
  have "sched_reschedule cpu hint in_exc s = Some (switch_of in_exc c n s, s')"
    unfolding sched_reschedule_def Let_def e1 cur
    using e2 sched_schedule_eq [OF sw(7) _ p, of c]
    by (cases "n = c") (auto simp: s'_def switch_of_def unlock_act_def same)
  then show thesis
    using that sw(1-5,8) run n by (simp add: same)
qed

end
