(* ===== verification/Sched_Correct.thy ===== *)
theory Sched_Correct
  imports Sched_Ops
begin

text \<open>
  The operations of the scheduler as the rest of the kernel calls them, on states
  that satisfy \<open>kernel_inv\<close>: each returns and re-establishes \<open>kernel_inv\<close>, and its
  effect on the activation it is called for.
\<close>

lemma kernel_invD:
  assumes "kernel_inv A s"
  shows "sched_inv A s" "unlocked s" "cur_running s"
    "\<not> sched_access_lock (acts s a)" "\<not> queue_lock (sched_pools s p)"
    "current_act (sched_pools s p) = Some c \<Longrightarrow> sched_status (acts s c) = sched_running"
    "current_act (sched_pools s p) = Some c \<Longrightarrow> c \<in> A \<and> a_pool s c = p"
    "c \<in> A \<Longrightarrow> sched_status (acts s c) = sched_running \<Longrightarrow> current_act (sched_pools s (a_pool s c)) = Some c"
  using assms unfolding kernel_inv_def unlocked_but_def cur_running_def sched_inv_def cur_inv_def by blast+

lemma kernel_inv_view:
  assumes "kernel_inv A s" "same_view s s'" "unlocked s'"
  shows "kernel_inv A s'"
  using assms same_view_inv [OF assms(2)] by (simp add: kernel_inv_def)

lemma not_le_running:
  assumes "st AND 0xF = 0" "st \<noteq> 0"
  shows "\<not> st \<le> sched_running" "st \<noteq> sched_terminated"
proof -
  have "(1 :: u32) AND 0xF \<noteq> 0" "(2 :: u32) AND 0xF \<noteq> 0" by simp_all
  then show "\<not> st \<le> sched_running" "st \<noteq> sched_terminated"
    using assms unfolding le_running_iff by (auto simp: sched_status_defs)
qed

text \<open>Taking the lock of an activation at the start of an operation.\<close>

abbreviation locked :: "nat \<Rightarrow> kstate \<Rightarrow> kstate" where
  "locked a s \<equiv> upd_act a (\<lambda>x. x\<lparr>sched_access_lock := True\<rparr>) s"

lemma lock_ok:
  assumes inv: "kernel_inv A s"
  shows "lock_act a s = Some (locked a s)" "sched_inv A (locked a s)" "unlocked_but {a} (locked a s)"
    "on_q A (locked a s) = on_q A s" "same_view s (locked a s)"
proof -
  show "lock_act a s = Some (locked a s)" using kernel_invD(4) [OF inv] by (simp add: lock_act_def)
  show "sched_inv A (locked a s)" "on_q A (locked a s) = on_q A s" "same_view s (locked a s)"
    using kernel_invD(1) [OF inv] by (simp_all add: act_view_def)
  show "unlocked_but {a} (locked a s)"
    by (rule unlocked_but_upd_act) (use unlocked_mono kernel_invD(2) [OF inv] in auto)
qed

text \<open>
  Rescheduling at the end of an operation, when the current activation of this
  core may have been blocked or terminated.
\<close>

lemma reschedule_kernel_inv:
  assumes inv: "sched_inv A s" and lk: "unlocked s"
    and idle: "idle_act (sched_pools s cpu) \<noteq> None" and hint: "\<And>h. hint = Some h \<Longrightarrow> h \<in> A"
    and cur: "current_act (sched_pools s cpu) = Some c" and st: "sched_status (acts s c) \<noteq> sched_runnable"
    and others: "\<And>p b. p \<noteq> cpu \<Longrightarrow> current_act (sched_pools s p) = Some b \<Longrightarrow> sched_status (acts s b) = sched_running"
  defines "n \<equiv> chosen cpu hint s"
  obtains s' where "sched_reschedule cpu hint in_exc s = Some (switch_of in_exc c n s, s')"
    and "kernel_inv A s'" "current_act (sched_pools s' cpu) = Some n"
    and "\<And>b. b \<noteq> c \<Longrightarrow> b \<noteq> n \<Longrightarrow> sched_status (acts s' b) = sched_status (acts s b)"
    and "n \<in> A" "a_pool s n = cpu" "sched_status (acts s n) \<le> sched_running"
    and "n \<noteq> c \<Longrightarrow> sched_status (acts s' c) =
      (if sched_status (acts s c) = sched_running then sched_runnable else sched_status (acts s c))"
proof -
  obtain s' where s': "sched_reschedule cpu hint in_exc s = Some (switch_of in_exc c n s, s')"
    "sched_inv A s'" "unlocked s'"
    "current_act (sched_pools s' cpu) = Some n" "sched_status (acts s' n) = sched_running"
    "\<And>p. p \<noteq> cpu \<Longrightarrow> current_act (sched_pools s' p) = current_act (sched_pools s p)"
    "\<And>b. b \<noteq> c \<Longrightarrow> b \<noteq> n \<Longrightarrow> sched_status (acts s' b) = sched_status (acts s b)"
    "n \<in> A" "a_pool s n = cpu" "sched_status (acts s n) \<le> sched_running"
    "n \<noteq> c \<Longrightarrow> sched_status (acts s' c) =
      (if sched_status (acts s c) = sched_running then sched_runnable else sched_status (acts s c))"
    using reschedule_ok [where hint = hint and in_exc = in_exc, OF inv lk idle hint cur st, folded n_def]
    by blast
  have pool: "a_pool s b = p" if "current_act (sched_pools s p) = Some b" for b p
    using inv that unfolding sched_inv_def cur_inv_def by blast
  have "cur_running s'"
    unfolding cur_running_def
  proof (intro allI impI)
    fix p b assume b: "current_act (sched_pools s' p) = Some b"
    show "sched_status (acts s' b) = sched_running"
    proof (cases "p = cpu")
      case True
      then show ?thesis using b s'(4,5) by simp
    next
      case False
      then have b': "current_act (sched_pools s p) = Some b" using b s'(6) by simp
      then have "b \<noteq> c" "b \<noteq> n" using pool [OF b'] pool [OF cur] s'(9) False by auto
      then show ?thesis using others [OF False b'] s'(7) by simp
    qed
  qed
  then show thesis using that s' by (simp add: kernel_inv_def)
qed

subsection \<open>Changing the priority\<close>

lemma change_prio_ok:
  assumes inv: "kernel_inv A s" and a: "a \<in> A" "\<not> is_idle (acts s a)"
  obtains s' where "sched_change_prio a pr s = Some s'" "kernel_inv A s'"
    "priority (acts s' a) = pr"
    "\<And>b. sched_status (acts s' b) = sched_status (acts s b)"
proof (cases "priority (acts s a) = pr")
  case True
  then show thesis using that inv by (simp add: sched_change_prio_def)
next
  case neq: False
  define s0 where "s0 = locked a s"
  note lk = lock_ok(1) [OF inv, of a, folded s0_def] and u0 = lock_ok(3) [OF inv, of a, folded s0_def]
  have inv0: "sched_inv A s0" "cur_running s0" "on_q A s0 = on_q A s"
    using lock_ok(2,4) [OF inv, of a] same_view_inv(2) [OF lock_ok(5) [OF inv]] kernel_invD(3) [OF inv]
    by (simp_all add: s0_def)
  have same0: "sched_status (acts s0 b) = sched_status (acts s b)" for b by (simp add: s0_def)
  show thesis
  proof (cases "sched_status (acts s a) \<le> sched_running")
    case True
    let ?p = "a_pool s0 a" and ?st = "sched_status (acts s0 a)"
    define s1 where "s1 = upd_act a (\<lambda>x. x\<lparr>priority := pr\<rparr>) (del_result ?p a ?st s0)"
    define s2 where "s2 = add_result ?p a ?st s1"
    have prem: "a \<in> on_q A s0" "\<not> queue_lock (sched_pools s0 ?p)"
      using a True inv0(3) u0 by (auto simp: on_q_def unlocked_but_def)
    note rq = requeue_ok(1) [OF inv0(1) prem(1) refl prem(2) refl]
      requeue_ok(2,3) [OF inv0(1) prem(1) refl prem(2) refl, of pr, folded s1_def, folded s2_def]
    have s1: "a_pool s1 a = ?p" "sched_status (acts s1 a) = ?st" by (simp_all add: s1_def)
    have s2: "sched_status (acts s2 b) = sched_status (acts s b)" for b
      by (simp add: s2_def s1_def same0)
    have "?st \<le> sched_running" using True by (simp add: same0)
    then have chg: "sched_change_prio a pr s = Some (unlock_act a s2)"
      using neq lk rq(1,2) s1 by (simp add: sched_change_prio_def s1_def [symmetric])
    moreover have "unlocked (unlock_act a s2)"
      unfolding s2_def s1_def by (rule unlock_act_unlocked) (simp add: unlocked_but_upd_act u0)
    moreover have "cur_running s2"
      using kernel_invD(3) [OF inv] unfolding cur_running_def s2 by (simp add: s2_def s1_def s0_def)
    ultimately have "kernel_inv A (unlock_act a s2)" using rq(3) by (simp add: kernel_inv_def)
    moreover have "priority (acts (unlock_act a s2) a) = pr"
      "sched_status (acts (unlock_act a s2) b) = sched_status (acts s b)" for b
      by (simp_all add: unlock_act_def s2) (simp add: s2_def s1_def)
    ultimately show thesis using that [OF chg] by blast
  next
    case False
    define s1 where "s1 = upd_act a (\<lambda>x. x\<lparr>priority := pr\<rparr>) s0"
    have na: "a \<notin> on_q A s0" using False by (simp add: on_q_def same0)
    have "q_inv (on_q A s0) s1"
      using inv0(1) na unfolding sched_inv_def
      by (intro q_inv_frame [of "on_q A s0" s0 s1]) (auto simp: s1_def)
    moreover have same1: "is_idle (acts s1 b) = is_idle (acts s0 b)" "sched_status (acts s1 b) = sched_status (acts s0 b)"
      "pool_id (acts s1 b) = pool_id (acts s0 b)" "timeout_indx (acts s1 b) = timeout_indx (acts s0 b)"
      "sched_pools s1 = sched_pools s0" "sleeps s1 = sleeps s0" for b
      by (simp_all add: s1_def)
    ultimately have "sched_inv A s1"
      using inv0(1) by (simp add: sched_inv_def on_q_def cur_inv_def idle_inv_def cap_inv_def timer_inv_def)
    moreover have "cur_running s1" using inv0(2) by (simp add: cur_running_def same1)
    moreover have "unlocked (unlock_act a s1)"
      unfolding s1_def by (intro unlock_act_unlocked unlocked_but_upd_act) (use u0 in auto)
    ultimately have "kernel_inv A (unlock_act a s1)" by (simp add: kernel_inv_def)
    moreover have "sched_change_prio a pr s = Some (unlock_act a s1)"
      using neq lk False by (simp add: sched_change_prio_def same0 s1_def)
    moreover have "priority (acts (unlock_act a s1) a) = pr"
      "sched_status (acts (unlock_act a s1) b) = sched_status (acts s b)" for b
      by (simp_all add: unlock_act_def s1_def same0)
    ultimately show thesis using that by blast
  qed
qed

subsection \<open>Deleting\<close>

lemma delete_inv:
  assumes inv: "sched_inv A s" and a: "a \<in> A" "\<not> is_idle (acts s a)"
    and lk: "\<not> queue_lock (sched_pools s (a_pool s a))"
  defines "s' \<equiv> upd_act a (\<lambda>x. x\<lparr>sched_status := sched_terminated\<rparr>)
    (if sched_status (acts s a) \<le> sched_running then del_result (a_pool s a) a sched_terminated s else s)"
  shows "sched_inv A s'"
    and "(if sched_status (acts s a) = sched_runnable \<or> sched_status (acts s a) = sched_running
          then delete_act_from_queue (a_pool s a) a sched_terminated s else Some s)
      = Some (if sched_status (acts s a) \<le> sched_running then del_result (a_pool s a) a sched_terminated s else s)"
proof -
  have q: "q_inv (on_q A s) s" and r: "cur_inv A s" "idle_inv A s" "cap_inv A s" and t: "timer_inv A s"
    using inv by (auto simp: sched_inv_def)
  have on: "sched_status (acts s a) \<le> sched_running \<Longrightarrow> a \<in> on_q A s" using a by (simp add: on_q_def)
  show "(if sched_status (acts s a) = sched_runnable \<or> sched_status (acts s a) = sched_running
          then delete_act_from_queue (a_pool s a) a sched_terminated s else Some s)
      = Some (if sched_status (acts s a) \<le> sched_running then del_result (a_pool s a) a sched_terminated s else s)"
    using delete_act_from_queue_eq [OF q on refl lk] by (simp add: le_running_iff)
  have sel: "is_idle (acts s' b) = is_idle (acts s b)" "pool_id (acts s' b) = pool_id (acts s b)"
    "timeout_indx (acts s' b) = timeout_indx (acts s b)"
    "sched_status (acts s' b) = (if b = a then sched_terminated else sched_status (acts s b))"
    "idle_act (sched_pools s' p) = idle_act (sched_pools s p)"
    "current_act (sched_pools s' p) = current_act (sched_pools s p)" "sleeps s' = sleeps s" for b p
    by (simp_all add: s'_def)
  have "on_q A s' = on_q A s - {a}" by (auto simp: on_q_def sel)
  moreover have "q_inv (on_q A s - {a}) s'"
  proof (cases "sched_status (acts s a) \<le> sched_running")
    case True
    show ?thesis
      by (rule q_inv_frame [OF del_result_q_inv [OF q on [OF True] refl, of sched_terminated]])
         (use True in \<open>simp_all add: s'_def\<close>)
  next
    case False
    then have "on_q A s - {a} = on_q A s" by (auto simp: on_q_def)
    moreover have "q_inv (on_q A s) s'"
      by (rule q_inv_frame [OF q, of s']) (use False in \<open>auto simp: s'_def on_q_def\<close>)
    ultimately show ?thesis by simp
  qed
  moreover have "cur_inv A s'" "idle_inv A s'" "cap_inv A s'"
    by (rule status_change_rest [OF r, of s' a]; use a(2) in \<open>simp add: sel\<close>)+
  moreover have "timer_inv A s'" by (rule timer_inv_frame [OF t]) (simp_all add: sel)
  ultimately show "sched_inv A s'" by (simp add: sched_inv_def)
qed

lemma delete_ok:
  assumes inv: "kernel_inv A s" and a: "a \<in> A" "\<not> is_idle (acts s a)"
    and run: "sched_status (acts s a) = sched_running \<Longrightarrow>
      a_pool s a = cpu \<and> idle_act (sched_pools s cpu) \<noteq> None"
  obtains sw s' where "sched_delete cpu a s = Some (sw, s')" "kernel_inv A s'"
    "sched_status (acts s' a) = sched_terminated"
    "sched_status (acts s a) = sched_running \<Longrightarrow>
      \<exists>n. n \<noteq> a \<and> current_act (sched_pools s' cpu) = Some n
        \<and> sw = (if status (acts s a) = status_terminated then DestroyAndSwitchTo n a else SwitchTo n)"
    "sched_status (acts s a) \<noteq> sched_running \<Longrightarrow> sw = NoSwitch"
proof -
  define s0 where "s0 = locked a s"
  note lk = lock_ok(1) [OF inv, of a, folded s0_def] and inv0 = lock_ok(2) [OF inv, of a, folded s0_def]
    and u0 = lock_ok(3) [OF inv, of a, folded s0_def]
  have same0: "sched_status (acts s0 b) = sched_status (acts s b)" "a_pool s0 b = a_pool s b"
    "is_idle (acts s0 b) = is_idle (acts s b)" "sched_pools s0 = sched_pools s"
    "status (acts s0 b) = status (acts s b)" for b by (simp_all add: s0_def)
  define d where "d = (if sched_status (acts s0 a) \<le> sched_running
    then del_result (a_pool s0 a) a sched_terminated s0 else s0)"
  define s1 where "s1 = unlock_act a (upd_act a (\<lambda>x. x\<lparr>sched_status := sched_terminated\<rparr>) d)"
  have "\<not> queue_lock (sched_pools s0 (a_pool s0 a))" using u0 by (simp add: unlocked_but_def)
  note di = delete_inv [OF inv0 a(1) _ this, folded d_def]
  have inv1: "sched_inv A s1" using di(1) a(2) by (simp add: s1_def same0)
  have "unlocked_but {a} d" using u0 by (simp add: d_def)
  then have u1: "unlocked s1" unfolding s1_def
    by (intro unlock_act_unlocked unlocked_but_upd_act) auto
  have same1: "sched_status (acts s1 b) = (if b = a then sched_terminated else sched_status (acts s b))"
    "idle_act (sched_pools s1 p) = idle_act (sched_pools s p)" "status (acts s1 b) = status (acts s b)"
    "current_act (sched_pools s1 p) = current_act (sched_pools s p)" "a_pool s1 b = a_pool s b" for b p
    by (simp_all add: s1_def unlock_act_def d_def same0)
  have eq: "sched_delete cpu a s =
    (if sched_status (acts s a) = sched_running then sched_reschedule cpu None False s1 else Some (NoSwitch, s1))"
    using lk di(2) a(2) run by (auto simp: sched_delete_def same0 Let_def s1_def)
  show thesis
  proof (cases "sched_status (acts s a) = sched_running")
    case True
    then have cpu: "a_pool s a = cpu" and idle: "idle_act (sched_pools s1 cpu) \<noteq> None"
      using run by (auto simp: same1)
    have cur: "current_act (sched_pools s1 cpu) = Some a"
      using kernel_invD(8) [OF inv a(1) True] cpu by (simp add: same1)
    have others: "sched_status (acts s1 b) = sched_running"
      if "p \<noteq> cpu" "current_act (sched_pools s1 p) = Some b" for p b
      using that kernel_invD(6,7) [OF inv, of p b] cpu by (auto simp: same1)
    define n where "n = chosen cpu None s1"
    obtain s' where s': "sched_reschedule cpu None False s1 = Some (switch_of False a n s1, s')"
      "kernel_inv A s'" "current_act (sched_pools s' cpu) = Some n"
      "sched_status (acts s1 n) \<le> sched_running"
      "n \<noteq> a \<Longrightarrow> sched_status (acts s' a) = sched_status (acts s1 a)"
      unfolding n_def
      by (rule reschedule_kernel_inv [where hint = None and in_exc = False, OF inv1 u1 idle _ cur _ others])
         (auto simp: same1)
    have na: "n \<noteq> a" using s'(4) by (auto simp: same1)
    then have "switch_of False a n s1
        = (if status (acts s a) = status_terminated then DestroyAndSwitchTo n a else SwitchTo n)"
      by (simp add: switch_of_def same1)
    moreover have "sched_status (acts s' a) = sched_terminated" using na s'(5) by (simp add: same1)
    ultimately show thesis using that [of "switch_of False a n s1" s'] eq True s'(1-3) na by auto
  next
    case False
    then have "cur_running s1"
      using kernel_invD(6) [OF inv] by (auto simp: cur_running_def same1)
    then show thesis
      using that [of NoSwitch s1] eq False inv1 u1 by (simp add: kernel_inv_def same1)
  qed
qed

end
