(* ===== verification/Sched_Events.thy ===== *)
theory Sched_Events
  imports Sched_Correct
begin

text \<open>Correctness of the event operations: waking, blocking, interrupts, creation.\<close>

subsection \<open>Receiving an event\<close>

definition effective_events :: "sched_status_e \<Rightarrow> act_t \<Rightarrow> sched_status_e" where
  "effective_events events x =
     (if sched_status x AND sched_waiting AND events \<noteq> 0 \<and> header_start (msg_queue x) = header_end x
      then events AND NOT sched_waiting else events)"

lemma low_bits_and:
  assumes "ev AND 0xF = (0 :: u32)"
  shows "sched_runnable AND ev = 0" "sched_running AND ev = 0" "sched_terminated AND ev = 0"
proof -
  have "1 AND ev = 1 AND (0xF AND ev)" "2 AND ev = 2 AND (0xF AND ev)"
    by (simp_all flip: and.assoc)
  then show "sched_runnable AND ev = 0" "sched_running AND ev = 0" "sched_terminated AND ev = 0"
    using assms by (simp_all add: sched_status_defs and.commute)
qed

lemma blocked_if_cause:
  assumes "ev AND 0xF = 0" "st AND ev \<noteq> 0"
  shows "\<not> st \<le> sched_running" "st \<noteq> sched_terminated"
  using assms low_bits_and [OF assms(1)] by (auto simp: le_running_iff)

lemma effective_events_low:
  assumes "ev AND 0xF = 0"
  shows "effective_events ev x AND 0xF = 0"
proof -
  have "(ev AND NOT sched_waiting) AND 0xF = (ev AND 0xF) AND NOT sched_waiting"
    by (simp only: and.assoc and.commute and.left_commute)
  then show ?thesis using assms by (simp add: effective_events_def)
qed

lemma set_fast_res_view [simp]: "act_view (set_fast_res ev x) = act_view x"
  "sched_access_lock (set_fast_res ev x) = sched_access_lock x"
  "sched_status (set_fast_res ev x) = sched_status x" "pool_id (set_fast_res ev x) = pool_id x"
  by (simp_all add: set_fast_res_def act_view_def)

lemma same_view_trans: "same_view s s' \<Longrightarrow> same_view s' s'' \<Longrightarrow> same_view s s''"
  by (simp add: same_view_def q_eq_def)

lemma upd_unlocked: "unlocked s \<Longrightarrow> unlocked_but {a} (upd_act a f s)"
  by (rule unlocked_but_upd_act) (auto simp: unlocked_mono)

text \<open>The activation before the decision to wake it: locked, its condition variable cleared.\<close>

definition pre_wake :: "sched_status_e \<Rightarrow> act_t \<Rightarrow> act_t" where
  "pre_wake ev x =
     (let y = x\<lparr>sched_access_lock := True\<rparr>
      in if ev AND sched_sync_block \<noteq> 0 then y\<lparr>sync_state := (sync_state y)\<lparr>sync_condition := 0\<rparr>\<rparr> else y)"

lemma pre_wake_sel [simp]:
  "act_view (pre_wake ev x) = act_view x" "sched_status (pre_wake ev x) = sched_status x"
  "pool_id (pre_wake ev x) = pool_id x" "sched_access_lock (pre_wake ev x)"
  "early_notify (pre_wake ev x) = early_notify x" "commit_early_notify (pre_wake ev x) = commit_early_notify x"
  "is_idle (pre_wake ev x) = is_idle x"
  by (simp_all add: pre_wake_def act_view_def Let_def)

lemma receive_unfold:
  assumes lk: "\<not> sched_access_lock (acts s a)"
    and sync: "events AND sched_sync_block \<noteq> 0 \<longrightarrow> sync_condition (sync_state (acts s a)) = 1"
  defines "ev \<equiv> effective_events events (acts s a)"
  defines "cause \<equiv> sched_status (acts s a) AND ev"
  shows "cause \<noteq> 0 \<Longrightarrow> sched_receive_event a events s = do {
      let s2 = upd_act a (\<lambda>x. (set_fast_res cause (pre_wake ev x))\<lparr>woke_from := cause\<rparr>) s;
      s3 \<leftarrow> (if sched_status (acts s a) AND sched_wait_timeout \<noteq> 0
             then kernel_timer_unsubcsribe a s2 else Some s2);
      s4 \<leftarrow> add_act_to_queue (a_pool s3 a) a sched_runnable s3;
      Some (unlock_act a s4) }"
    and "cause = 0 \<Longrightarrow> sched_receive_event a events s =
      Some (unlock_act a (upd_act a (\<lambda>x. (pre_wake ev x)\<lparr>
              early_notify := (ev AND sched_wait_notify \<noteq> 0 \<or> early_notify x),
              commit_early_notify := (ev AND sched_wait_commit \<noteq> 0 \<or> commit_early_notify x)\<rparr>) s))"
proof -
  have ev: "(if sched_status (acts (locked a s) a) AND sched_waiting AND events \<noteq> 0
                      \<and> header_start (msg_queue (acts (locked a s) a)) = header_end (acts (locked a s) a)
                   then events AND NOT sched_waiting else events) = ev"
    by (simp add: ev_def effective_events_def header_end_def)
  have "sched_waiting AND sched_sync_block = 0" by (simp add: sched_status_defs)
  have sb: "NOT sched_waiting AND sched_sync_block = sched_sync_block" by (simp add: sched_status_defs)
  have sync': "ev AND sched_sync_block \<noteq> 0 \<Longrightarrow> sync_condition (sync_state (acts s a)) = 1"
    using sync sb by (auto simp: ev_def effective_events_def and.assoc split: if_splits)
  have pre: "(if ev AND sched_sync_block \<noteq> 0 then do {
            kassert (sync_condition (sync_state (acts (locked a s) a)) = 1);
            Some (upd_act a (\<lambda>x. x\<lparr>sync_state := (sync_state x)\<lparr>sync_condition := 0\<rparr>\<rparr>) (locked a s))
          } else Some (locked a s)) = Some (upd_act a (pre_wake ev) s)"
    using sync' by (simp add: upd_act_def pre_wake_def Let_def)
  have st: "sched_status (acts (upd_act a (pre_wake ev) s) a) AND ev = cause"
    by (simp add: cause_def)
  show "cause \<noteq> 0 \<Longrightarrow> sched_receive_event a events s = do {
      let s2 = upd_act a (\<lambda>x. (set_fast_res cause (pre_wake ev x))\<lparr>woke_from := cause\<rparr>) s;
      s3 \<leftarrow> (if sched_status (acts s a) AND sched_wait_timeout \<noteq> 0
             then kernel_timer_unsubcsribe a s2 else Some s2);
      s4 \<leftarrow> add_act_to_queue (a_pool s3 a) a sched_runnable s3;
      Some (unlock_act a s4) }"
    using lk unfolding sched_receive_event_def Let_def
    by (simp add: lock_act_def ev pre st del: upd_act_sel) (simp add: upd_act_def Let_def)
  show "cause = 0 \<Longrightarrow> sched_receive_event a events s =
      Some (unlock_act a (upd_act a (\<lambda>x. (pre_wake ev x)\<lparr>
              early_notify := (ev AND sched_wait_notify \<noteq> 0 \<or> early_notify x),
              commit_early_notify := (ev AND sched_wait_commit \<noteq> 0 \<or> commit_early_notify x)\<rparr>) s))"
    using lk unfolding sched_receive_event_def Let_def
    by (simp add: lock_act_def ev pre st del: upd_act_sel) (simp add: upd_act_def)
qed

lemma receive_ok:
  assumes inv: "kernel_inv A s" and a: "a \<in> A" "\<not> is_idle (acts s a)" and low: "events AND 0xF = 0"
    and sync: "events AND sched_sync_block \<noteq> 0 \<longrightarrow> sync_condition (sync_state (acts s a)) = 1"
  defines "ev \<equiv> effective_events events (acts s a)"
  defines "cause \<equiv> sched_status (acts s a) AND ev"
  obtains s' where "sched_receive_event a events s = Some s'" "kernel_inv A s'"
    "cause \<noteq> 0 \<Longrightarrow> sched_status (acts s' a) = sched_runnable \<and> woke_from (acts s' a) = cause"
    "cause = 0 \<Longrightarrow> sched_status (acts s' a) = sched_status (acts s a)
       \<and> early_notify (acts s' a) = (ev AND sched_wait_notify \<noteq> 0 \<or> early_notify (acts s a))
       \<and> commit_early_notify (acts s' a) = (ev AND sched_wait_commit \<noteq> 0 \<or> commit_early_notify (acts s a))"
    "\<And>b. b \<noteq> a \<Longrightarrow> sched_status (acts s' b) = sched_status (acts s b)"
    "\<And>p. current_act (sched_pools s' p) = current_act (sched_pools s p)"
    "\<And>p. idle_act (sched_pools s' p) = idle_act (sched_pools s p)"
proof (cases "cause = 0")
  case True
  define s1 where "s1 = upd_act a (\<lambda>x. (pre_wake ev x)\<lparr>
              early_notify := (ev AND sched_wait_notify \<noteq> 0 \<or> early_notify x),
              commit_early_notify := (ev AND sched_wait_commit \<noteq> 0 \<or> commit_early_notify x)\<rparr>) s"
  have "sched_receive_event a events s = Some (unlock_act a s1)"
    using receive_unfold(2) [OF kernel_invD(4) [OF inv] sync] True
    unfolding s1_def cause_def ev_def by blast
  moreover have "kernel_inv A (unlock_act a s1)"
  proof (rule kernel_inv_view [OF inv])
    have "act_view (pre_wake ev x\<lparr>early_notify := e, commit_early_notify := c\<rparr>) = act_view x" for x e c
      using pre_wake_sel(1) [of ev x] by (simp add: act_view_def)
    then show "same_view s (unlock_act a s1)"
      by (simp add: same_view_def s1_def unlock_act_def act_view_def)
    show "unlocked (unlock_act a s1)"
      unfolding s1_def by (rule unlock_act_unlocked [OF upd_unlocked [OF kernel_invD(2) [OF inv]]])
  qed
  ultimately show thesis
    using that [of "unlock_act a s1"] True by (simp add: unlock_act_def s1_def)
next
  case False
  define s2 where "s2 = upd_act a (\<lambda>x. (set_fast_res cause (pre_wake ev x))\<lparr>woke_from := cause\<rparr>) s"
  have v2: "same_view s s2"
    using pre_wake_sel(1) [of ev] set_fast_res_view(1) [of cause]
    by (simp add: same_view_def s2_def act_view_def)
  have sel2: "sched_status (acts s2 b) = sched_status (acts s b)" "a_pool s2 b = a_pool s b"
    "is_idle (acts s2 b) = is_idle (acts s b)" "sched_pools s2 = sched_pools s" for b
    using v2 by (simp_all add: same_view_def act_view_def s2_def)
  have inv2: "sched_inv A s2" using same_view_inv(1) [OF v2] kernel_invD(1) [OF inv] by simp
  have t2: "timer_inv A s2" using inv2 by (simp add: sched_inv_def)
  have u2: "unlocked_but {a} s2"
    unfolding s2_def by (rule upd_unlocked [OF kernel_invD(2) [OF inv]])
  have low': "ev AND 0xF = 0" unfolding ev_def by (rule effective_events_low [OF low])
  note bl = blocked_if_cause [OF low', of "sched_status (acts s a)", folded cause_def, OF False]
  define s3 where "s3 = unsub_result a s2"
  define s4 where "s4 = add_result (a_pool s2 a) a sched_runnable s3"
  have prems: "\<not> is_idle (acts s2 a)" "\<not> sched_status (acts s2 a) \<le> sched_running"
    "sched_status (acts s2 a) \<noteq> sched_terminated" "\<not> queue_lock (sched_pools s2 (a_pool s2 a))"
    using a bl u2 by (simp_all add: sel2 unlocked_but_def)
  note wk = wake_ok [OF inv2 a(1) prems(1-3) refl prems(4), folded s3_def, folded s4_def]
  have p3: "a_pool s3 a = a_pool s2 a" by (simp add: s3_def)
  have eq: "sched_receive_event a events s = Some (unlock_act a s4)"
    using receive_unfold(1) [OF kernel_invD(4) [OF inv] sync, folded ev_def, folded cause_def, OF False, folded s2_def]
      unsub_ok [OF t2 a(1), folded s3_def] wk(1)
    by (simp add: Let_def p3 sel2)
  have s4: "sched_status (acts s4 b) = (if b = a then sched_runnable else sched_status (acts s b))"
    "current_act (sched_pools s4 p) = current_act (sched_pools s p)"
    "idle_act (sched_pools s4 p) = idle_act (sched_pools s p)" for b p
    by (simp_all add: s4_def s3_def sel2)
  have wf: "woke_from (acts s4 a) = cause"
    by (simp add: s4_def add_result_def Let_def s3_def s2_def)
  have na: "current_act (sched_pools s p) \<noteq> Some a" for p
    using kernel_invD(6) [OF inv, of p a] bl by auto
  have "cur_running s4"
    unfolding cur_running_def s4 using kernel_invD(6) [OF inv] na by auto
  moreover have "unlocked (unlock_act a s4)"
    unfolding s4_def by (rule unlock_act_unlocked) (use u2 in \<open>simp add: s3_def unlocked_but_def\<close>)
  ultimately have "kernel_inv A (unlock_act a s4)" using wk(2) by (simp add: kernel_inv_def)
  moreover have "sched_status (acts (unlock_act a s4) b) = (if b = a then sched_runnable else sched_status (acts s b))"
    "current_act (sched_pools (unlock_act a s4) p) = current_act (sched_pools s p)"
    "idle_act (sched_pools (unlock_act a s4) p) = idle_act (sched_pools s p)"
    "woke_from (acts (unlock_act a s4) a) = cause" for b p
    using s4 wf by (simp_all add: unlock_act_def)
  ultimately show thesis using that [OF eq] False by simp
qed

subsection \<open>Blocking\<close>

lemma block_timer_inv:
  assumes t: "timer_inv A s" and a: "a \<in> A" "sched_status (acts s a) = sched_running"
    and sl: "if sub then i < MAX_WAITERS \<and> sleeps s ! i = None \<and> sleeps s' = (sleeps s)[i := Some a]
               \<and> timeout_indx (acts s' a) = i
             else sleeps s' = sleeps s"
    and other: "\<And>b. b \<noteq> a \<Longrightarrow> timeout_indx (acts s' b) = timeout_indx (acts s b)
                  \<and> sched_status (acts s' b) = sched_status (acts s b)"
    and st: "(sched_status (acts s' a) AND sched_wait_timeout \<noteq> 0) = sub"
  shows "timer_inv A s'"
proof -
  have len: "length (sleeps s) = MAX_WAITERS" using t by (simp add: timer_inv_def)
  have slot: "j < MAX_WAITERS \<Longrightarrow> sleeps s ! j = Some b \<Longrightarrow> b \<in> A \<and> timeout_indx (acts s b) = j
        \<and> (sched_status (acts s b) AND sched_wait_timeout \<noteq> 0 \<or> sched_status (acts s b) = sched_terminated)"
    for j b using t by (simp add: timer_inv_def)
  have wait: "b \<in> A \<Longrightarrow> sched_status (acts s b) AND sched_wait_timeout \<noteq> 0 \<Longrightarrow>
      timeout_indx (acts s b) < MAX_WAITERS \<and> sleeps s ! timeout_indx (acts s b) = Some b" for b
    using t by (simp add: timer_inv_def)
  have na: "j < MAX_WAITERS \<Longrightarrow> sleeps s ! j \<noteq> Some a" for j using slot [of j a] a(2) by auto
  have nth: "sleeps s' ! j = (if sub \<and> j = i then Some a else sleeps s ! j)" if "j < MAX_WAITERS" for j
    using sl that len by (cases sub) (simp_all add: nth_list_update)
  show ?thesis
    unfolding timer_inv_def
  proof (intro conjI ballI allI impI)
    show "length (sleeps s') = MAX_WAITERS" using sl len by (cases sub) simp_all
  next
    fix b assume b: "b \<in> A" "sched_status (acts s' b) AND sched_wait_timeout \<noteq> 0"
    have "timeout_indx (acts s' b) < MAX_WAITERS \<and> sleeps s' ! timeout_indx (acts s' b) = Some b"
    proof (cases "b = a")
      case True
      then show ?thesis using b st sl nth by simp
    next
      case False
      then have w: "timeout_indx (acts s b) < MAX_WAITERS" "sleeps s ! timeout_indx (acts s b) = Some b"
        using wait b other by auto
      moreover have "\<not> (sub \<and> timeout_indx (acts s b) = i)" using w sl by (cases sub) auto
      ultimately show ?thesis using other [OF False] nth by auto
    qed
    then show "timeout_indx (acts s' b) < MAX_WAITERS" "sleeps s' ! timeout_indx (acts s' b) = Some b" by auto
  next
    fix j b assume j: "j < MAX_WAITERS \<and> sleeps s' ! j = Some b"
    have "b \<in> A \<and> timeout_indx (acts s' b) = j \<and>
      (sched_status (acts s' b) AND sched_wait_timeout \<noteq> 0 \<or> sched_status (acts s' b) = sched_terminated)"
    proof (cases "sub \<and> j = i")
      case True
      then show ?thesis using j nth sl st a by simp
    next
      case False
      then have sb: "sleeps s ! j = Some b" using j nth by auto
      then have "b \<noteq> a" using na j by auto
      then show ?thesis using slot [OF _ sb] j other by simp
    qed
    then show "b \<in> A" "timeout_indx (acts s' b) = j"
      "sched_status (acts s' b) AND sched_wait_timeout \<noteq> 0 \<or> sched_status (acts s' b) = sched_terminated" by auto
  qed
qed

lemma block_inv:
  assumes inv: "sched_inv A s" and a: "a \<in> A" "\<not> is_idle (acts s a)" "sched_status (acts s a) = sched_running"
    and s2: "\<And>p. sched_pools s2 p = sched_pools s p"
      "\<And>b. b \<noteq> a \<Longrightarrow> act_view (acts s2 b) = act_view (acts s b)"
      "act_view ((acts s2 a)\<lparr>timeout_indx := 0\<rparr>) = act_view ((acts s a)\<lparr>timeout_indx := 0\<rparr>)"
      "if sub then i < MAX_WAITERS \<and> sleeps s ! i = None \<and> sleeps s2 = (sleeps s)[i := Some a]
               \<and> timeout_indx (acts s2 a) = i
       else sleeps s2 = sleeps s"
    and ev: "\<not> ev \<le> sched_running" "(ev AND sched_wait_timeout \<noteq> 0) = sub"
    and lk: "\<not> queue_lock (sched_pools s (a_pool s a))"
  defines "s4 \<equiv> upd_act a (\<lambda>x. x\<lparr>priority := priority x OR PRIO_IO\<rparr>) (del_result (a_pool s2 a) a ev s2)"
  shows "delete_act_from_queue (a_pool s2 a) a ev s2 = Some (del_result (a_pool s2 a) a ev s2)"
    and "sched_inv A s4"
proof -
  have sel: "is_idle (acts s2 b) = is_idle (acts s b)" "sched_status (acts s2 b) = sched_status (acts s b)"
    "pool_id (acts s2 b) = pool_id (acts s b)" "priority (acts s2 b) = priority (acts s b)"
    "queue_ndx (acts s2 b) = queue_ndx (acts s b)" for b
    using s2(2,3) by (cases "b = a"; simp add: act_view_def)+
  have q: "q_inv (on_q A s) s" and r: "cur_inv A s" "idle_inv A s" "cap_inv A s" and t: "timer_inv A s"
    using inv by (auto simp: sched_inv_def)
  have on: "on_q A s2 = on_q A s" by (simp add: on_q_def sel)
  have q2: "q_inv (on_q A s2) s2" unfolding on by (rule q_inv_frame [OF q]) (simp_all add: sel s2(1))
  have r2: "cur_inv A s2" "idle_inv A s2" "cap_inv A s2"
    using r by (simp_all add: cur_inv_def idle_inv_def cap_inv_def sel s2(1))
  have prem: "a \<in> on_q A s2" "\<not> queue_lock (sched_pools s2 (a_pool s2 a))"
    using a lk by (simp_all add: on_q_def sel s2(1))
  note d = del_inv [OF q2 r2 prem(1) refl ev(1) prem(2)]
  show "delete_act_from_queue (a_pool s2 a) a ev s2 = Some (del_result (a_pool s2 a) a ev s2)" by (rule d(1))
  define s3 where "s3 = del_result (a_pool s2 a) a ev s2"
  note d = d(2-5) [folded s3_def]
  have sel4: "is_idle (acts s4 b) = is_idle (acts s3 b)" "sched_status (acts s4 b) = sched_status (acts s3 b)"
    "pool_id (acts s4 b) = pool_id (acts s3 b)" "sched_pools s4 = sched_pools s3"
    "timeout_indx (acts s4 b) = timeout_indx (acts s2 b)" "sleeps s4 = sleeps s2"
    "sched_status (acts s3 b) = (if b = a then ev else sched_status (acts s b))" for b
    by (simp_all add: s4_def s3_def sel)
  have on4: "on_q A s4 = on_q A s3" "a \<notin> on_q A s3" using ev(1) by (simp_all add: on_q_def sel4)
  have "q_inv (on_q A s4) s4"
    unfolding on4(1) by (rule q_inv_frame [OF d(1)]) (use on4(2) in \<open>auto simp: s4_def s3_def\<close>)
  moreover have "cur_inv A s4" "idle_inv A s4" "cap_inv A s4"
    using d(2-4) by (simp_all add: cur_inv_def idle_inv_def cap_inv_def sel4)
  moreover have "timer_inv A s4"
    by (rule block_timer_inv [OF t a(1,3), of sub i])
       (use s2(2,4) ev(2) in \<open>simp_all add: sel4 sel act_view_def\<close>)
  ultimately show "sched_inv A s4" by (simp add: sched_inv_def)
qed

lemma low_bits_ge:
  assumes "ev AND 0xF = 0" "ev \<noteq> (0 :: u32)"
  shows "sched_waiting \<le> ev"
proof -
  have "(0xF :: u32) = mask 4" by (simp add: mask_eq_exp_minus_1)
  then have "take_bit 4 ev = 0" using assms(1) by (simp add: take_bit_eq_mask)
  then have "take_bit 4 (unat ev) = 0" by (metis unsigned_0 unsigned_take_bit_eq)
  then have "unat ev mod 16 = 0" by (simp add: take_bit_eq_mod)
  moreover have "unat ev \<noteq> 0" using assms(2) by (simp add: unat_eq_zero)
  ultimately have "16 \<le> unat ev" by presburger
  then show ?thesis by (simp add: sched_waiting_def word_le_nat_alt)
qed

definition full_events :: "sched_status_e \<Rightarrow> u64 \<Rightarrow> sched_status_e" where
  "full_events events timeout = (if timeout > 0 then events OR sched_wait_timeout else events)"

lemma full_events_props:
  assumes "events AND 0xF = 0" "events AND sched_sem = 0" "events \<noteq> 0 \<or> timeout > 0"
    and "events AND sched_wait_timeout \<noteq> 0 \<longrightarrow> timeout > 0"
  defines "ev \<equiv> full_events events timeout"
  shows "ev AND 0xF = 0" "ev AND sched_sem = 0" "ev \<noteq> 0"
    and "(ev AND sched_wait_timeout \<noteq> 0) = (timeout > 0)"
proof -
  have d: "(events OR sched_wait_timeout) AND m = (events AND m) OR (sched_wait_timeout AND m)" for m
    by (simp add: bit.conj_disj_distrib2)
  show "ev AND 0xF = 0" "ev AND sched_sem = 0"
    using assms(1,2) by (simp_all add: ev_def full_events_def d) (simp_all add: sched_status_defs)
  have nz: "x OR sched_wait_timeout \<noteq> 0" for x
  proof
    assume "x OR sched_wait_timeout = 0"
    then have "(x OR sched_wait_timeout) AND sched_wait_timeout = 0" by simp
    then have "sched_wait_timeout = 0" by (simp add: bit.conj_disj_distrib2)
    then show False by (simp add: sched_status_defs)
  qed
  show "ev \<noteq> 0" using assms(3) nz by (auto simp: ev_def full_events_def)
  show "(ev AND sched_wait_timeout \<noteq> 0) = (timeout > 0)"
    using assms(4) nz by (auto simp: ev_def full_events_def d)
qed

text \<open>The state of the activation just before it is taken off its queue.\<close>

definition subscribed :: "nat \<Rightarrow> u32 \<Rightarrow> nat \<Rightarrow> u64 \<Rightarrow> kstate \<Rightarrow> kstate option" where
  "subscribed cpu count a timeout s =
     (if timeout > 0 then kernel_timer_subscribe cpu count a timeout s
      else Some (kernel_timer_start_count cpu count a s))"

lemma subscribed_ok:
  assumes "timeout > 0 \<longrightarrow> None \<in> set (sleeps s)" "length (sleeps s) = MAX_WAITERS"
  obtains s2 i where "subscribed cpu count a timeout s = Some s2"
    "\<And>p. sched_pools s2 p = sched_pools s p"
    "\<And>b. b \<noteq> a \<Longrightarrow> acts s2 b = acts s b"
    "\<exists>t l i. acts s2 a = (acts s a)\<lparr>timeout_start := t, timeout_length := l, timeout_indx := i\<rparr>"
    "if timeout > 0 then i < MAX_WAITERS \<and> sleeps s ! i = None \<and> sleeps s2 = (sleeps s)[i := Some a]
               \<and> timeout_indx (acts s2 a) = i
     else sleeps s2 = sleeps s"
proof (cases "timeout > 0")
  case True
  then obtain i where i: "free_slot (sleeps s) 0 = Some i"
    using assms(1) free_slot_None [of "sleeps s" 0] by (cases "free_slot (sleeps s) 0") auto
  define s2 where "s2 = upd_act a (\<lambda>x. x\<lparr>timeout_start := get_high_res_time cpu count s,
     timeout_length := timeout, timeout_indx := i\<rparr>) (s\<lparr>sleeps := (sleeps s)[i := Some a]\<rparr>)"
  have "subscribed cpu count a timeout s = Some s2"
    using True i by (simp add: subscribed_def kernel_timer_subscribe_def Let_def s2_def
        kernel_timer_start_count_def upd_act_def)
  moreover have "i < MAX_WAITERS \<and> sleeps s ! i = None" using free_slot_Some [OF i] assms(2) by simp
  moreover have ex: "\<exists>t l j. acts s2 a = (acts s a)\<lparr>timeout_start := t, timeout_length := l, timeout_indx := j\<rparr>"
    by (intro exI) (simp add: s2_def)
  moreover have "sched_pools s2 p = sched_pools s p" "b \<noteq> a \<Longrightarrow> acts s2 b = acts s b"
    "sleeps s2 = (sleeps s)[i := Some a]" "timeout_indx (acts s2 a) = i" for p b
    by (simp_all add: s2_def)
  ultimately show thesis using that [of s2 i] True by presburger
next
  case False
  define s2 where "s2 = kernel_timer_start_count cpu count a s"
  have "acts s2 a = (acts s a)\<lparr>timeout_start := get_high_res_time cpu count s,
      timeout_length := timeout_length (acts s a), timeout_indx := timeout_indx (acts s a)\<rparr>"
    by (simp add: s2_def kernel_timer_start_count_def)
  then have "\<exists>t l i. acts s2 a = (acts s a)\<lparr>timeout_start := t, timeout_length := l, timeout_indx := i\<rparr>"
    by (intro exI)
  moreover have "subscribed cpu count a timeout s = Some s2" using False by (simp add: subscribed_def s2_def)
  moreover have "sched_pools s2 p = sched_pools s p" "b \<noteq> a \<Longrightarrow> acts s2 b = acts s b" "sleeps s2 = sleeps s" for p b
    by (simp_all add: s2_def kernel_timer_start_count_def)
  ultimately show thesis using that [of s2] False by presburger
qed

text \<open>The activation after it has looked for an event that is already there.\<close>

definition polled :: "sched_status_e \<Rightarrow> act_t \<Rightarrow> act_t" where
  "polled ev x = (let y = x\<lparr>sched_access_lock := True\<rparr>
     in if ev AND sched_wait_notify \<noteq> 0 \<and> early_notify x then y\<lparr>early_notify := False\<rparr> else y)"

lemma polled_sel [simp]:
  "act_view (polled ev x) = act_view x" "sched_status (polled ev x) = sched_status x"
  "pool_id (polled ev x) = pool_id x" "is_idle (polled ev x) = is_idle x" "status (polled ev x) = status x"
  "early_notify (polled ev x) = (early_notify x \<and> ev AND sched_wait_notify = 0)"
  by (auto simp: polled_def act_view_def Let_def)

lemma block_unfold:
  fixes events :: sched_status_e and timeout :: u64
  assumes lk: "\<not> sched_access_lock (acts s a)" and act: "act = Some a \<or> act = None \<and> sched_get_current_act cpu s = Some a"
  defines "ev \<equiv> full_events events timeout"
  assumes sem: "ev AND sched_sem = 0"
  defines "got \<equiv> got_event_of ev (acts s a)"
  defines "s1 \<equiv> upd_act a (polled ev) s"
  shows "got \<noteq> 0 \<Longrightarrow> sched_block_until_event cpu count act hint events timeout in_exc s =
      Some (NoSwitch, upd_act a (\<lambda>x. (set_fast_res got x)\<lparr>woke_from := got\<rparr>) (unlock_act a s1))"
    and "got = 0 \<Longrightarrow> sched_block_until_event cpu count act hint events timeout in_exc s = do {
        s2 \<leftarrow> subscribed cpu count a timeout s1;
        s3 \<leftarrow> sched_block a ev s2;
        sched_reschedule cpu hint in_exc
          (unlock_act a (upd_act a (\<lambda>x. x\<lparr>priority := priority x OR PRIO_IO\<rparr>) s3)) }"
proof -
  have act': "(case act of None \<Rightarrow> sched_get_current_act cpu s | Some a \<Rightarrow> Some a) = Some a" using act by auto
  have ev: "(if timeout > 0 then events OR sched_wait_timeout else events) = ev"
    by (simp add: ev_def full_events_def)
  have got: "got_event_of ev (acts (locked a s) a) = got"
    by (simp add: got_def got_event_of_def msg_queue_empty_def)
  have s1: "(if ev AND sched_wait_notify \<noteq> 0 \<and> early_notify (acts (locked a s) a)
              then upd_act a (\<lambda>x. x\<lparr>early_notify := False\<rparr>) (locked a s) else locked a s) = s1"
    by (simp add: s1_def polled_def upd_act_def Let_def)
  note unf = sched_block_until_event_def [of cpu count act hint events timeout in_exc s, unfolded act' bind.bind_lunit Let_def ev]
  show "got \<noteq> 0 \<Longrightarrow> sched_block_until_event cpu count act hint events timeout in_exc s =
      Some (NoSwitch, upd_act a (\<lambda>x. (set_fast_res got x)\<lparr>woke_from := got\<rparr>) (unlock_act a s1))"
    using lk sem unfolding unf by (simp add: lock_act_def got s1 del: upd_act_sel)
  show "got = 0 \<Longrightarrow> sched_block_until_event cpu count act hint events timeout in_exc s = do {
        s2 \<leftarrow> subscribed cpu count a timeout s1;
        s3 \<leftarrow> sched_block a ev s2;
        sched_reschedule cpu hint in_exc
          (unlock_act a (upd_act a (\<lambda>x. x\<lparr>priority := priority x OR PRIO_IO\<rparr>) s3)) }"
    using lk sem unfolding unf by (simp add: lock_act_def got s1 subscribed_def del: upd_act_sel)
qed

lemma block_ok:
  assumes inv: "kernel_inv A s" and cur: "current_act (sched_pools s cpu) = Some a"
    and a: "\<not> is_idle (acts s a)" and act: "act = Some a \<or> act = None"
    and idle: "idle_act (sched_pools s cpu) \<noteq> None" and hint: "\<And>h. hint = Some h \<Longrightarrow> h \<in> A"
    and ev: "events AND 0xF = 0" "events AND sched_sem = 0" "events \<noteq> 0 \<or> timeout > 0"
      "events AND sched_wait_timeout \<noteq> 0 \<longrightarrow> timeout > 0"
    and slot: "timeout > 0 \<longrightarrow> None \<in> set (sleeps s)"
  defines "got \<equiv> got_event_of (full_events events timeout) (acts s a)"
  obtains sw s' where "sched_block_until_event cpu count act hint events timeout in_exc s = Some (sw, s')"
    "kernel_inv A s'"
    "got \<noteq> 0 \<Longrightarrow> sw = NoSwitch \<and> current_act (sched_pools s' cpu) = Some a \<and> woke_from (acts s' a) = got"
    "got = 0 \<Longrightarrow> sched_status (acts s' a) = full_events events timeout
       \<and> (\<exists>n. n \<noteq> a \<and> current_act (sched_pools s' cpu) = Some n \<and> sw = switch_of in_exc a n s)"
proof -
  let ?ev = "full_events events timeout"
  note evp = full_events_props [OF ev]
  define s1 where "s1 = upd_act a (polled ?ev) s"
  have aA: "a \<in> A" and pool: "a_pool s a = cpu" and run: "sched_status (acts s a) = sched_running"
    using kernel_invD(6,7) [OF inv cur] by auto
  have v1: "same_view s s1" by (simp add: s1_def)
  note inv1 = same_view_inv [OF v1]
  have sel1: "sched_status (acts s1 b) = sched_status (acts s b)" "is_idle (acts s1 b) = is_idle (acts s b)"
    "pool_id (acts s1 b) = pool_id (acts s b)" "sched_pools s1 = sched_pools s" "sleeps s1 = sleeps s"
    "status (acts s1 b) = status (acts s b)" for b
    by (simp_all add: s1_def)
  have act': "act = Some a \<or> act = None \<and> sched_get_current_act cpu s = Some a"
    using act cur by (auto simp: sched_get_current_act_def)
  note unf = block_unfold [OF kernel_invD(4) [OF inv] act' evp(2), folded got_def s1_def]
  have u1: "unlocked_but {a} s1" unfolding s1_def by (rule upd_unlocked [OF kernel_invD(2) [OF inv]])
  show thesis
  proof (cases "got = 0")
    case False
    define s' where "s' = upd_act a (\<lambda>x. (set_fast_res got x)\<lparr>woke_from := got\<rparr>) (unlock_act a s1)"
    have "act_view ((set_fast_res got x)\<lparr>woke_from := got\<rparr>) = act_view x" for x
      using set_fast_res_view(1) [of got x] by (simp add: act_view_def)
    then have v: "same_view (unlock_act a s1) s'" unfolding s'_def by (rule same_view_upd_act)
    have "same_view s1 (unlock_act a s1)" unfolding unlock_act_def by (rule same_view_upd_act) (simp add: act_view_def)
    then have "same_view s s'" using v v1 same_view_trans by blast
    moreover have "unlocked s'"
      unfolding s'_def using unlock_act_unlocked [OF u1]
      by (rule unlocked_but_upd_act) (simp add: unlock_act_def)
    ultimately have "kernel_inv A s'" by (rule kernel_inv_view [OF inv])
    moreover have "current_act (sched_pools s' cpu) = Some a" "woke_from (acts s' a) = got"
      using cur by (simp_all add: s'_def unlock_act_def sel1)
    ultimately show thesis using that unf(1) [OF False, folded s'_def] False by blast
  next
    case True
    have len: "length (sleeps s1) = MAX_WAITERS"
      using kernel_invD(1) [OF inv] by (simp add: sel1 sched_inv_def timer_inv_def)
    obtain s2 i where s2: "subscribed cpu count a timeout s1 = Some s2"
      "\<And>p. sched_pools s2 p = sched_pools s1 p" "\<And>b. b \<noteq> a \<Longrightarrow> acts s2 b = acts s1 b"
      "\<exists>t l i. acts s2 a = (acts s1 a)\<lparr>timeout_start := t, timeout_length := l, timeout_indx := i\<rparr>"
      "if timeout > 0 then i < MAX_WAITERS \<and> sleeps s1 ! i = None \<and> sleeps s2 = (sleeps s1)[i := Some a]
               \<and> timeout_indx (acts s2 a) = i else sleeps s2 = sleeps s1"
      using subscribed_ok [of timeout s1] slot len sel1(5) by metis
    have st2: "sched_status (acts s2 a) = sched_running" "a_pool s2 a = cpu" "status (acts s2 a) = status (acts s a)"
      using s2(4) run pool by (auto simp: sel1)
    define s4 where "s4 = upd_act a (\<lambda>x. x\<lparr>priority := priority x OR PRIO_IO\<rparr>) (del_result (a_pool s2 a) a ?ev s2)"
    have "act_view ((acts s2 a)\<lparr>timeout_indx := 0\<rparr>) = act_view ((acts s1 a)\<lparr>timeout_indx := 0\<rparr>)"
      using s2(4) by (auto simp: act_view_def)
    note bi = block_inv [OF _ aA _ _ s2(2) _ this s2(5) not_le_running(1) [OF evp(1,3)] evp(4), folded s4_def]
    have inv4: "sched_inv A s4" and del: "delete_act_from_queue (a_pool s2 a) a ?ev s2 = Some (del_result (a_pool s2 a) a ?ev s2)"
      using bi inv1(1) [of A] kernel_invD(1,5) [OF inv] a run s2(3) by (simp_all add: sel1)
    define s5 where "s5 = unlock_act a s4"
    have "sched_block a ?ev s2 = Some (del_result (a_pool s2 a) a ?ev s2)"
      using st2(1) del low_bits_ge [OF evp(1,3)] by (simp add: sched_block_def)
    then have eq: "sched_block_until_event cpu count act hint events timeout in_exc s = sched_reschedule cpu hint in_exc s5"
      using unf(2) [OF True] s2(1) by (simp add: s5_def s4_def)
    have sel5: "sched_status (acts s5 b) = (if b = a then ?ev else sched_status (acts s b))"
      "current_act (sched_pools s5 p) = current_act (sched_pools s p)"
      "idle_act (sched_pools s5 p) = idle_act (sched_pools s p)" "status (acts s5 a) = status (acts s a)" for b p
      using s2(2,3) st2(3) by (simp_all add: s5_def s4_def unlock_act_def sel1)
    have inv5: "sched_inv A s5" using inv4 by (simp add: s5_def)
    have "unlocked_but {a} s2"
      using u1 s2(2,3) unfolding unlocked_but_def by (metis singletonI)
    then have u5: "unlocked s5"
      unfolding s5_def s4_def by (intro unlock_act_unlocked unlocked_but_upd_act) simp_all
    define n where "n = chosen cpu hint s5"
    obtain s' where s': "sched_reschedule cpu hint in_exc s5 = Some (switch_of in_exc a n s5, s')"
      "kernel_inv A s'" "current_act (sched_pools s' cpu) = Some n"
      "sched_status (acts s5 n) \<le> sched_running"
      "n \<noteq> a \<Longrightarrow> sched_status (acts s' a) =
        (if sched_status (acts s5 a) = sched_running then sched_runnable else sched_status (acts s5 a))"
      unfolding n_def
    proof (rule reschedule_kernel_inv [where hint = hint and in_exc = in_exc, OF inv5 u5])
      show "sched_status (acts s5 a) \<noteq> sched_runnable" using evp(3) by (simp add: sel5 sched_status_defs)
      show "sched_status (acts s5 b) = sched_running"
        if "p \<noteq> cpu" "current_act (sched_pools s5 p) = Some b" for p b
        using that kernel_invD(6,7) [OF inv, of p b] pool by (auto simp: sel5)
    qed (use idle hint cur in \<open>simp_all add: sel5\<close>)
    have na: "n \<noteq> a" using s'(4) not_le_running(1) [OF evp(1,3)] by (auto simp: sel5)
    have "sched_status (acts s' a) = ?ev"
      using s'(5) [OF na] not_le_running(1) [OF evp(1,3)] by (auto simp: sel5 le_running_iff)
    moreover have "switch_of in_exc a n s5 = switch_of in_exc a n s" by (simp add: switch_of_def sel5)
    ultimately show thesis using that [of "switch_of in_exc a n s" s'] eq s'(1-3) na True by auto
  qed
qed

end
