(* ===== verification/Sched_Steps.thy ===== *)
theory Sched_Steps
  imports Sched_Events
begin

text \<open>
  Creation of activations, the reaction to interrupts, and the scheduler as a
  transition system: \<open>sched_step\<close> has one rule for each entry point of \<open>sched.c\<close>
  with the conditions under which the rest of the kernel calls it, and every
  reachable state satisfies \<open>kernel_inv\<close>.
\<close>

subsection \<open>Creation\<close>

lemma timer_frame_on:
  assumes t: "timer_inv A s"
    and same: "\<And>b. b \<in> A \<Longrightarrow> sched_status (acts s' b) = sched_status (acts s b)
        \<and> timeout_indx (acts s' b) = timeout_indx (acts s b)"
    and sl: "sleeps s' = sleeps s"
  shows "timer_inv A s'"
proof -
  have slot: "b \<in> A" if "i < MAX_WAITERS" "sleeps s ! i = Some b" for i b
    using t that by (simp add: timer_inv_def)
  show ?thesis using t slot unfolding timer_inv_def sl by (simp add: same)
qed

lemma rest_frame_on:
  assumes "cur_inv A s" "idle_inv A s" "cap_inv A s" "timer_inv A s"
    and same: "\<And>b. b \<in> A \<Longrightarrow> is_idle (acts s' b) = is_idle (acts s b) \<and> pool_id (acts s' b) = pool_id (acts s b)
        \<and> sched_status (acts s' b) = sched_status (acts s b) \<and> timeout_indx (acts s' b) = timeout_indx (acts s b)"
    and pools: "\<And>p. current_act (sched_pools s' p) = current_act (sched_pools s p)
        \<and> idle_act (sched_pools s' p) = idle_act (sched_pools s p)"
    and sl: "sleeps s' = sleeps s"
  shows "cur_inv A s'" "idle_inv A s'" "cap_inv A s'" "timer_inv A s'"
proof -
  show "cur_inv A s'"
    unfolding cur_inv_def
  proof (intro conjI ballI allI impI)
    fix b assume "b \<in> A" "sched_status (acts s' b) = sched_running"
    then show "current_act (sched_pools s' (a_pool s' b)) = Some b"
      using same [of b] pools assms(1) by (simp add: cur_inv_def)
  next
    fix p c assume "current_act (sched_pools s' p) = Some c"
    then have c: "c \<in> A" "a_pool s c = p" using assms(1) pools by (simp_all add: cur_inv_def)
    then show "c \<in> A" "a_pool s' c = p" using same [OF c(1)] by simp_all
  qed
  show "idle_inv A s'"
    unfolding idle_inv_def
  proof (intro conjI ballI allI impI)
    fix p i assume "idle_act (sched_pools s' p) = Some i"
    then have i: "i \<in> A" "a_pool s i = p" "is_idle (acts s i)"
      using assms(2) pools by (simp_all add: idle_inv_def)
    then show "i \<in> A" "a_pool s' i = p" "is_idle (acts s' i)" using same [of i] by simp_all
  next
    fix b assume "b \<in> A" "is_idle (acts s' b)"
    then show "sched_status (acts s' b) \<le> sched_running" using same [of b] assms(2) by (simp add: idle_inv_def)
  qed
  have "{b \<in> A. \<not> is_idle (acts s' b) \<and> sched_status (acts s' b) \<noteq> sched_terminated \<and> a_pool s' b = p}
      = {b \<in> A. \<not> is_idle (acts s b) \<and> sched_status (acts s b) \<noteq> sched_terminated \<and> a_pool s b = p}" for p
    using same by auto
  then show "cap_inv A s'" using assms(3) unfolding cap_inv_def by simp
  show "timer_inv A s'" by (rule timer_frame_on [OF assms(4) _ sl]) (use same in auto)
qed

lemma insert_inv:
  assumes r: "cur_inv A s" "idle_inv A s" "cap_inv A s" "timer_inv A s"
    and q: "q_inv (on_q (insert a A) s) s"
    and cur: "sched_status (acts s a) = sched_running \<longrightarrow> current_act (sched_pools s (a_pool s a)) = Some a"
    and cap: "card {b \<in> insert a A. \<not> is_idle (acts s b) \<and> sched_status (acts s b) \<noteq> sched_terminated
        \<and> a_pool s b = a_pool s a} \<le> SCHED_QUEUE_LENGTH"
    and t: "sched_status (acts s a) AND sched_wait_timeout = 0" and i: "\<not> is_idle (acts s a)"
  shows "sched_inv (insert a A) s"
proof -
  have "cur_inv (insert a A) s" using r cur by (auto simp: cur_inv_def)
  moreover have "idle_inv (insert a A) s" using r i by (auto simp: idle_inv_def)
  moreover have "cap_inv (insert a A) s"
    unfolding cap_inv_def
  proof (intro conjI allI)
    show "finite (insert a A)" using r by (simp add: cap_inv_def)
    show "card {b \<in> insert a A. \<not> is_idle (acts s b) \<and> sched_status (acts s b) \<noteq> sched_terminated \<and> a_pool s b = p}
        \<le> SCHED_QUEUE_LENGTH" for p
    proof (cases "a_pool s a = p")
      case False
      then have "{b \<in> insert a A. \<not> is_idle (acts s b) \<and> sched_status (acts s b) \<noteq> sched_terminated \<and> a_pool s b = p}
        = {b \<in> A. \<not> is_idle (acts s b) \<and> sched_status (acts s b) \<noteq> sched_terminated \<and> a_pool s b = p}" by auto
      then show ?thesis using r by (simp add: cap_inv_def)
    qed (use cap in auto)
  qed
  moreover have "timer_inv (insert a A) s" using r t by (auto simp: timer_inv_def)
  ultimately show ?thesis using q by (simp add: sched_inv_def)
qed

lemma fresh_not_current:
  assumes "kernel_inv A s" "a \<notin> A"
  shows "current_act (sched_pools s p) \<noteq> Some a"
  using kernel_invD(7) [OF assms(1), of p a] assms(2) by auto

lemma create_alive_ok:
  assumes inv: "kernel_inv A s" and a: "a \<notin> A"
    and st: "status (acts s a) = status_alive" "act_name (acts s a) \<noteq> ''idle.elf''"
    and cap: "card {b \<in> A. \<not> is_idle (acts s b) \<and> sched_status (acts s b) \<noteq> sched_terminated
        \<and> a_pool s b = unat pid} < SCHED_QUEUE_LENGTH"
  obtains s' where "sched_create pid a prio s = Some s'" "kernel_inv (insert a A) s'"
    "sched_status (acts s' a) = sched_runnable" "a_pool s' a = unat pid" "priority (acts s' a) = prio"
proof -
  define s1 where "s1 = upd_act a (\<lambda>x. x\<lparr>sched_access_lock := False, priority := prio,
     is_idle := False, pool_id := pid\<rparr>) s"
  define s2 where "s2 = add_result (unat pid) a sched_runnable s1"
  have q: "q_inv (on_q A s) s" and r: "cur_inv A s" "idle_inv A s" "cap_inv A s" "timer_inv A s" and fin: "finite A"
    using kernel_invD(1) [OF inv] by (auto simp: sched_inv_def cap_inv_def)
  have on1: "on_q A s1 = on_q A s" using a by (auto simp: on_q_def s1_def)
  have q1: "q_inv (on_q A s) s1"
    by (rule q_inv_frame [OF q]) (use a in \<open>auto simp: s1_def on_q_def\<close>)
  have acts1: "a_pool s1 a = unat pid" "\<not> is_idle (acts s1 a)" by (simp_all add: s1_def)
  let ?P = "{b \<in> A. \<not> is_idle (acts s b) \<and> sched_status (acts s b) \<noteq> sched_terminated \<and> a_pool s b = unat pid}"
  have "card {b \<in> on_q A s. a_pool s1 b = unat pid} \<le> card ?P"
    by (rule card_mono) (use fin a in \<open>auto simp: on_q_def s1_def\<close>)
  then have room: "unat (act_queue_end (get_q s1 (unat pid) l)) \<noteq> SCHED_QUEUE_LENGTH" for l
    using q_end_le_card [OF q1, of "unat pid" l] fin cap by (simp add: on_q_def)
  have na: "a \<notin> on_q A s" using a by (simp add: on_q_def)
  have lk1: "\<not> queue_lock (sched_pools s1 (unat pid))" using kernel_invD(5) [OF inv] by (simp add: s1_def)
  have add: "add_act_to_queue (unat pid) a sched_runnable s1 = Some s2" "q_inv (insert a (on_q A s)) s2"
    unfolding s2_def
    using add_act_to_queue_eq [OF q_invD(1) [OF q1] lk1 acts1(2) room]
      add_result_q_inv [OF q1 na acts1(2) acts1(1) [symmetric] room] by simp_all
  have eq: "sched_create pid a prio s = Some s2"
    using add(1) st by (simp add: sched_create_def Let_def s1_def upd_act_def)
  have sel: "is_idle (acts s2 b) = (b \<noteq> a \<and> is_idle (acts s b))"
    "pool_id (acts s2 b) = (if b = a then pid else pool_id (acts s b))"
    "sched_status (acts s2 b) = (if b = a then sched_runnable else sched_status (acts s b))"
    "timeout_indx (acts s2 b) = timeout_indx (acts s b)"
    "sched_access_lock (acts s2 b) = (b \<noteq> a \<and> sched_access_lock (acts s b))"
    "current_act (sched_pools s2 p) = current_act (sched_pools s p)"
    "idle_act (sched_pools s2 p) = idle_act (sched_pools s p)" "sleeps s2 = sleeps s"
    "priority (acts s2 a) = prio" for b p
    by (simp_all add: s2_def s1_def)
  have r2: "cur_inv A s2" "idle_inv A s2" "cap_inv A s2" "timer_inv A s2"
    by (rule rest_frame_on [OF r]; use a in \<open>auto simp: sel\<close>)+
  have "on_q (insert a A) s2 = insert a (on_q A s)" using a by (auto simp: on_q_def sel)
  then have q2: "q_inv (on_q (insert a A) s2) s2" using add(2) by simp
  have "{b \<in> insert a A. \<not> is_idle (acts s2 b) \<and> sched_status (acts s2 b) \<noteq> sched_terminated
        \<and> a_pool s2 b = a_pool s2 a} = insert a ?P" using a by (auto simp: sel)
  then have "sched_inv (insert a A) s2"
    using fin cap by (intro insert_inv [OF r2 q2]) (simp_all add: sel card_insert_if)
  moreover have "unlocked s2"
    using kernel_invD(2) [OF inv] unfolding unlocked_but_def by (auto simp: sel s2_def s1_def)
  moreover have "cur_running s2"
    using kernel_invD(6) [OF inv] fresh_not_current [OF inv a] by (auto simp: cur_running_def sel)
  ultimately show thesis using that [OF eq] by (simp add: kernel_inv_def sel)
qed

lemma create_dead_ok:
  assumes inv: "kernel_inv A s" and a: "a \<notin> A" and st: "status (acts s a) \<noteq> status_alive"
  obtains s' where "sched_create pid a prio s = Some s'" "kernel_inv (insert a A) s'"
    "sched_status (acts s' a) = sched_terminated"
proof -
  define s2 where "s2 = upd_act a (\<lambda>x. x\<lparr>sched_access_lock := False, priority := prio,
     is_idle := False, sched_status := sched_terminated\<rparr>) s"
  have eq: "sched_create pid a prio s = Some s2"
    using st by (simp add: sched_create_def Let_def s2_def upd_act_def)
  have q: "q_inv (on_q A s) s" and r: "cur_inv A s" "idle_inv A s" "cap_inv A s" "timer_inv A s"
    using kernel_invD(1) [OF inv] by (auto simp: sched_inv_def)
  have r2: "cur_inv A s2" "idle_inv A s2" "cap_inv A s2" "timer_inv A s2"
    by (rule rest_frame_on [OF r]; use a in \<open>auto simp: s2_def\<close>)+
  have "on_q (insert a A) s2 = on_q A s" using a by (auto simp: on_q_def s2_def)
  moreover have "q_inv (on_q A s) s2"
    by (rule q_inv_frame [OF q]) (use a in \<open>auto simp: s2_def on_q_def\<close>)
  ultimately have q2: "q_inv (on_q (insert a A) s2) s2" by simp
  have "{b \<in> insert a A. \<not> is_idle (acts s2 b) \<and> sched_status (acts s2 b) \<noteq> sched_terminated
        \<and> a_pool s2 b = a_pool s2 a}
     = {b \<in> A. \<not> is_idle (acts s2 b) \<and> sched_status (acts s2 b) \<noteq> sched_terminated
        \<and> a_pool s2 b = a_pool s2 a}" by (auto simp: s2_def)
  then have "sched_inv (insert a A) s2"
    using r2(3) by (intro insert_inv [OF r2 q2]) (simp_all add: cap_inv_def, simp_all add: s2_def)
  moreover have "unlocked s2"
    using kernel_invD(2) [OF inv] unfolding s2_def by (rule unlocked_but_upd_act) simp
  moreover have "cur_running s2"
    using kernel_invD(6) [OF inv] fresh_not_current [OF inv a] by (auto simp: cur_running_def s2_def)
  ultimately show thesis using that [OF eq] by (simp add: kernel_inv_def) (simp add: s2_def)
qed

lemma create_idle_ok:
  assumes inv: "kernel_inv A s" and a: "a \<notin> A"
    and st: "status (acts s a) = status_alive" "act_name (acts s a) = ''idle.elf''"
    and n: "unat (idles_registered s) < smp_cores s"
      "idles_registered s \<noteq> 0 \<longrightarrow> current_act (sched_pools s (unat (idles_registered s))) = None"
  obtains s' where "sched_create pid a prio s = Some s'" "kernel_inv (insert a A) s'"
    "idle_act (sched_pools s' (unat (idles_registered s))) = Some a"
    "idles_registered s' = idles_registered s + 1"
proof -
  define k where "k = idles_registered s"
  define s1 where "s1 = upd_act a (\<lambda>x. x\<lparr>is_idle := True, priority := PRIO_IDLE\<rparr>)
    (upd_pool (unat k) (\<lambda>pl. pl\<lparr>idle_act := Some a\<rparr>)
     (upd_act a (\<lambda>x. x\<lparr>sched_status := sched_runnable, pool_id := k\<rparr>)
      (upd_act a (\<lambda>x. x\<lparr>sched_access_lock := False, priority := prio, is_idle := False\<rparr>) s)))"
  define s2 where "s2 = (if k \<noteq> 0 then upd_pool (unat k) (\<lambda>pl. pl\<lparr>current_act := Some a\<rparr>)
      (upd_act a (\<lambda>x. x\<lparr>sched_status := sched_running\<rparr>) s1) else s1)\<lparr>idles_registered := k + 1\<rparr>"
  have eq: "sched_create pid a prio s = Some s2"
    using st n unfolding s2_def s1_def
    by (simp add: sched_create_def Let_def k_def [symmetric])
  have sel: "is_idle (acts s2 a)" "a_pool s2 a = unat k" "\<not> sched_access_lock (acts s2 a)"
    "sched_status (acts s2 a) = (if k \<noteq> 0 then sched_running else sched_runnable)"
    "b \<noteq> a \<Longrightarrow> acts s2 b = acts s b" "queues (sched_pools s2 p) = queues (sched_pools s p)"
    "in_queues (sched_pools s2 p) = in_queues (sched_pools s p)"
    "queue_lock (sched_pools s2 p) = queue_lock (sched_pools s p)"
    "idle_act (sched_pools s2 p) = (if p = unat k then Some a else idle_act (sched_pools s p))"
    "current_act (sched_pools s2 p) = (if p = unat k \<and> k \<noteq> 0 then Some a else current_act (sched_pools s p))"
    "sleeps s2 = sleeps s" "idles_registered s2 = k + 1" for b p
    by (simp_all add: s2_def s1_def)
  have same: "b \<in> A \<Longrightarrow> acts s2 b = acts s b" for b using sel(5) [of b] a by blast
  have q: "q_inv (on_q A s) s" and r: "cur_inv A s" "idle_inv A s" "cap_inv A s" "timer_inv A s"
    using kernel_invD(1) [OF inv] by (auto simp: sched_inv_def)
  have on: "on_q (insert a A) s2 = on_q A s" using a same by (auto simp: on_q_def sel)
  have "q_inv (on_q A s) s2"
    by (rule q_inv_frame [OF q]) (use same in \<open>auto simp: sel on_q_def\<close>)
  then have "q_inv (on_q (insert a A) s2) s2" by (simp add: on)
  moreover have "cur_inv (insert a A) s2"
    unfolding cur_inv_def
  proof (intro conjI ballI allI impI)
    fix b assume b: "b \<in> insert a A" "sched_status (acts s2 b) = sched_running"
    show "current_act (sched_pools s2 (a_pool s2 b)) = Some b"
    proof (cases "b = a")
      case True
      then show ?thesis using b by (auto simp: sel split: if_splits)
    next
      case False
      then have bA: "b \<in> A" using b by blast
      then have "current_act (sched_pools s (a_pool s b)) = Some b"
        using r(1) b same by (simp add: cur_inv_def)
      then show ?thesis using n(2) same [OF bA] by (auto simp: sel k_def)
    qed
  next
    fix p c assume "current_act (sched_pools s2 p) = Some c"
    then show "c \<in> insert a A" "a_pool s2 c = p"
      using r(1) same sel(2) by (auto simp: cur_inv_def sel(10) split: if_splits)
  qed
  moreover have "idle_inv (insert a A) s2"
    using r(2) same sel(1,2,4) by (auto simp: idle_inv_def sel(9))
  moreover have "{b \<in> insert a A. \<not> is_idle (acts s2 b) \<and> sched_status (acts s2 b) \<noteq> sched_terminated \<and> a_pool s2 b = p}
      = {b \<in> A. \<not> is_idle (acts s b) \<and> sched_status (acts s b) \<noteq> sched_terminated \<and> a_pool s b = p}" for p
    using a same by (auto simp: sel(1))
  then have "cap_inv (insert a A) s2" using r(3) by (simp add: cap_inv_def)
  moreover have "timer_inv A s2" by (rule timer_frame_on [OF r(4) _ sel(11)]) (use same in auto)
  then have "timer_inv (insert a A) s2" by (auto simp: timer_inv_def sel(4))
  ultimately have "sched_inv (insert a A) s2" by (simp add: sched_inv_def)
  moreover have "unlocked s2"
    using kernel_invD(2) [OF inv] sel(3,5,8) unfolding unlocked_but_def by metis
  moreover have "cur_running s2"
    unfolding cur_running_def
  proof (intro allI impI)
    fix p c assume c: "current_act (sched_pools s2 p) = Some c"
    show "sched_status (acts s2 c) = sched_running"
    proof (cases "p = unat k \<and> k \<noteq> 0")
      case True
      then show ?thesis using c sel(4) by (auto simp: sel(10))
    next
      case False
      then have "current_act (sched_pools s p) = Some c" using c by (auto simp: sel(10))
      moreover from this have "c \<noteq> a" using fresh_not_current [OF inv a] by auto
      ultimately show ?thesis using kernel_invD(6) [OF inv] sel(5) by simp
    qed
  qed
  ultimately show thesis using that [OF eq] by (simp add: kernel_inv_def sel k_def)
qed

subsection \<open>Interrupts, start of the first activation\<close>

lemma reschedule_from_kernel_inv:
  assumes inv: "kernel_inv A s" and cur: "current_act (sched_pools s cpu) = Some c"
    and idle: "idle_act (sched_pools s cpu) \<noteq> None" and hint: "\<And>h. hint = Some h \<Longrightarrow> h \<in> A"
  obtains s' where "sched_reschedule cpu hint in_exc s = Some (switch_of in_exc c (chosen cpu hint s) s, s')"
    and "kernel_inv A s'" "current_act (sched_pools s' cpu) = Some (chosen cpu hint s)"
  by (rule reschedule_kernel_inv [where hint = hint and in_exc = in_exc, OF kernel_invD(1,2) [OF inv] idle hint cur])
     (use kernel_invD(6) [OF inv] cur in auto)

lemma got_int_ok:
  assumes inv: "kernel_inv A s" and cur: "current_act (sched_pools s cpu) = Some c"
    and idle: "idle_act (sched_pools s cpu) \<noteq> None" and a: "a \<in> A"
  obtains sw s' where "sched_got_int cpu a s = Some (sw, s')" "kernel_inv A s'"
    "a_pool s a = cpu \<Longrightarrow> priority (acts s c) \<noteq> PRIO_IO \<Longrightarrow> sched_status (acts s a) = sched_runnable \<Longrightarrow>
       current_act (sched_pools s' cpu) = Some a"
    "current_act (sched_pools s' cpu) \<noteq> None"
proof -
  let ?sw = "a_pool s a = cpu \<and> priority (acts s c) \<noteq> PRIO_IO \<and> sched_status (acts s a) = sched_runnable"
  have free: "\<not> sched_access_lock (acts s a)" by (rule kernel_invD(4) [OF inv])
  have pr: "priority (acts (locked a s) c) = priority (acts s c)" by simp
  have eq: "sched_got_int cpu a s = (if ?sw then sched_reschedule cpu (Some a) True s else Some (NoSwitch, s))"
    using cur unlock_lock_id [OF free] free
    by (simp add: sched_got_int_def lock_act_def Let_def pr del: upd_act_sel(1)) (auto simp: pr)
  show thesis
  proof (cases ?sw)
    case True
    obtain s' where s': "sched_reschedule cpu (Some a) True s = Some (switch_of True c (chosen cpu (Some a) s) s, s')"
      "kernel_inv A s'" "current_act (sched_pools s' cpu) = Some (chosen cpu (Some a) s)"
      by (rule reschedule_from_kernel_inv [where hint = "Some a" and in_exc = True, OF inv cur idle]) (use a in auto)
    moreover have "chosen cpu (Some a) s = a" using True by (simp add: chosen_def hint_taken_def)
    ultimately show thesis using that eq True by simp
  next
    case False
    then show thesis using that [of NoSwitch s] eq inv cur by auto
  qed
qed

lemma boot_ok:
  assumes inv: "kernel_inv A s" and cur: "current_act (sched_pools s (unat pid)) = None"
    and a: "a \<in> A" "a_pool s a = unat pid" "sched_status (acts s a) = sched_runnable"
  obtains s' where "sched_schedule pid a s = Some s'" "kernel_inv A s'"
    "current_act (sched_pools s' (unat pid)) = Some a"
proof -
  define s' where "s' = upd_pool (unat pid) (\<lambda>pl. pl\<lparr>current_act := Some a\<rparr>)
     (upd_act a (\<lambda>x. x\<lparr>sched_status := sched_running\<rparr>) s)"
  have eq: "sched_schedule pid a s = Some s'" using a by (simp add: sched_schedule_def s'_def)
  have sel: "is_idle (acts s' b) = is_idle (acts s b)" "pool_id (acts s' b) = pool_id (acts s b)"
    "priority (acts s' b) = priority (acts s b)" "queue_ndx (acts s' b) = queue_ndx (acts s b)"
    "timeout_indx (acts s' b) = timeout_indx (acts s b)" "sched_access_lock (acts s' b) = sched_access_lock (acts s b)"
    "sched_status (acts s' b) = (if b = a then sched_running else sched_status (acts s b))"
    "queues (sched_pools s' p) = queues (sched_pools s p)" "in_queues (sched_pools s' p) = in_queues (sched_pools s p)"
    "queue_lock (sched_pools s' p) = queue_lock (sched_pools s p)" "idle_act (sched_pools s' p) = idle_act (sched_pools s p)"
    "current_act (sched_pools s' p) = (if p = unat pid then Some a else current_act (sched_pools s p))"
    "sleeps s' = sleeps s" for b p
    by (simp_all add: s'_def)
  have le: "(sched_status (acts s' b) \<le> sched_running) = (sched_status (acts s b) \<le> sched_running)"
    "(sched_status (acts s' b) = sched_terminated) = (sched_status (acts s b) = sched_terminated)" for b
    using a(3) by (auto simp: sel(7))
  have q: "q_inv (on_q A s) s" and r: "cur_inv A s" "idle_inv A s" "cap_inv A s" "timer_inv A s"
    using kernel_invD(1) [OF inv] by (auto simp: sched_inv_def)
  have "on_q A s' = on_q A s" by (simp add: on_q_def sel(1) le)
  moreover have "q_inv (on_q A s) s'" by (rule q_inv_frame [OF q]) (simp_all add: sel)
  moreover have "cur_inv A s'"
    unfolding cur_inv_def
  proof (intro conjI ballI allI impI)
    fix b assume b: "b \<in> A" "sched_status (acts s' b) = sched_running"
    show "current_act (sched_pools s' (a_pool s' b)) = Some b"
    proof (cases "b = a")
      case True
      then show ?thesis using a(2) by (simp add: sel)
    next
      case False
      then have "current_act (sched_pools s (a_pool s b)) = Some b"
        using b r(1) by (simp add: cur_inv_def sel)
      then show ?thesis using cur by (auto simp: sel)
    qed
  next
    fix p c assume "current_act (sched_pools s' p) = Some c"
    then show "c \<in> A" "a_pool s' c = p" using a r(1) by (auto simp: sel cur_inv_def split: if_splits)
  qed
  moreover have "idle_inv A s'" "cap_inv A s'"
    using r(2,3) by (simp_all add: idle_inv_def cap_inv_def sel(1,2,11) le)
  moreover have "timer_inv A s'" by (rule timer_inv_frame_le [OF r(4)]) (use a(3) in \<open>simp_all add: sel\<close>)
  ultimately have "sched_inv A s'" by (simp add: sched_inv_def)
  moreover have "unlocked s'" using kernel_invD(2) [OF inv] by (simp add: unlocked_but_def sel)
  moreover have "cur_running s'"
    using kernel_invD(6) [OF inv] by (simp add: cur_running_def sel)
  ultimately show thesis using that [OF eq] by (simp add: kernel_inv_def sel)
qed

subsection \<open>The scheduler as a transition system\<close>

datatype sched_op =
    Op_create u8 nat sched_prio
  | Op_boot u8 nat
  | Op_change_prio nat sched_prio
  | Op_delete nat nat
  | Op_receive nat sched_status_e
  | Op_block nat u32 "nat option" "nat option" sched_status_e u64 bool
  | Op_reschedule nat "nat option" bool
  | Op_got_int nat nat

fun exec :: "sched_op \<Rightarrow> kstate \<Rightarrow> kstate option" where
  "exec (Op_create pid a prio) s = sched_create pid a prio s"
| "exec (Op_boot pid a) s = sched_schedule pid a s"
| "exec (Op_change_prio a prio) s = sched_change_prio a prio s"
| "exec (Op_delete cpu a) s = map_option snd (sched_delete cpu a s)"
| "exec (Op_receive a ev) s = sched_receive_event a ev s"
| "exec (Op_block cpu count act hint ev timeout in_exc) s =
     map_option snd (sched_block_until_event cpu count act hint ev timeout in_exc s)"
| "exec (Op_reschedule cpu hint in_exc) s = map_option snd (sched_reschedule cpu hint in_exc s)"
| "exec (Op_got_int cpu a) s = map_option snd (sched_got_int cpu a s)"

fun registered :: "sched_op \<Rightarrow> nat set \<Rightarrow> nat set" where
  "registered (Op_create pid a prio) A = insert a A"
| "registered _ A = A"

text \<open>
  \<open>core_ready cpu s\<close>: the core runs an activation and has an idle activation to
  fall back on. \<open>live_in A p s\<close> are the activations that may compete for the
  queues of pool \<open>p\<close>.
\<close>

definition core_ready :: "nat \<Rightarrow> kstate \<Rightarrow> bool" where
  "core_ready cpu s \<longleftrightarrow> current_act (sched_pools s cpu) \<noteq> None \<and> idle_act (sched_pools s cpu) \<noteq> None"

definition live_in :: "nat set \<Rightarrow> nat \<Rightarrow> kstate \<Rightarrow> nat set" where
  "live_in A p s = {b \<in> A. \<not> is_idle (acts s b) \<and> sched_status (acts s b) \<noteq> sched_terminated \<and> a_pool s b = p}"

fun guard :: "nat set \<Rightarrow> kstate \<Rightarrow> sched_op \<Rightarrow> bool" where
  "guard A s (Op_create pid a prio) \<longleftrightarrow> a \<notin> A \<and>
     (status (acts s a) = status_alive \<longrightarrow>
        (if act_name (acts s a) = ''idle.elf''
         then unat (idles_registered s) < smp_cores s
            \<and> (idles_registered s \<noteq> 0 \<longrightarrow> current_act (sched_pools s (unat (idles_registered s))) = None)
         else card (live_in A (unat pid) s) < SCHED_QUEUE_LENGTH))"
| "guard A s (Op_boot pid a) \<longleftrightarrow> a \<in> A \<and> current_act (sched_pools s (unat pid)) = None
     \<and> a_pool s a = unat pid \<and> sched_status (acts s a) = sched_runnable"
| "guard A s (Op_change_prio a prio) \<longleftrightarrow> a \<in> A \<and> \<not> is_idle (acts s a)"
| "guard A s (Op_delete cpu a) \<longleftrightarrow> a \<in> A \<and> \<not> is_idle (acts s a)
     \<and> (sched_status (acts s a) = sched_running \<longrightarrow> a_pool s a = cpu \<and> core_ready cpu s)"
| "guard A s (Op_receive a ev) \<longleftrightarrow> a \<in> A \<and> \<not> is_idle (acts s a) \<and> ev AND 0xF = 0
     \<and> (ev AND sched_sync_block \<noteq> 0 \<longrightarrow> sync_condition (sync_state (acts s a)) = 1)"
| "guard A s (Op_block cpu count act hint ev timeout in_exc) \<longleftrightarrow> core_ready cpu s
     \<and> (case current_act (sched_pools s cpu) of None \<Rightarrow> False | Some a \<Rightarrow> \<not> is_idle (acts s a))
     \<and> (act = None \<or> act = current_act (sched_pools s cpu)) \<and> (case hint of None \<Rightarrow> True | Some h \<Rightarrow> h \<in> A)
     \<and> ev AND 0xF = 0 \<and> ev AND sched_sem = 0 \<and> (ev \<noteq> 0 \<or> timeout > 0)
     \<and> (ev AND sched_wait_timeout \<noteq> 0 \<longrightarrow> timeout > 0) \<and> (timeout > 0 \<longrightarrow> None \<in> set (sleeps s))"
| "guard A s (Op_reschedule cpu hint in_exc) \<longleftrightarrow> core_ready cpu s \<and> (case hint of None \<Rightarrow> True | Some h \<Rightarrow> h \<in> A)"
| "guard A s (Op_got_int cpu a) \<longleftrightarrow> core_ready cpu s \<and> a \<in> A"

text \<open>One operation: it does not panic, and it keeps the invariant.\<close>

lemma exec_ok:
  assumes inv: "kernel_inv A s" and g: "guard A s op"
  shows "\<exists>s'. exec op s = Some s' \<and> kernel_inv (registered op A) s'"
proof (cases op)
  case (Op_create pid a prio)
  show ?thesis
  proof (cases "status (acts s a) = status_alive")
    case True
    show ?thesis
    proof (cases "act_name (acts s a) = ''idle.elf''")
      case idle: True
      then have "unat (idles_registered s) < smp_cores s" "a \<notin> A"
        "idles_registered s \<noteq> 0 \<longrightarrow> current_act (sched_pools s (unat (idles_registered s))) = None"
        using g Op_create True by auto
      then obtain s' where "sched_create pid a prio s = Some s'" "kernel_inv (insert a A) s'"
        using create_idle_ok [OF inv _ True idle, of pid prio] by blast
      then show ?thesis using Op_create by simp
    next
      case False
      then have "card (live_in A (unat pid) s) < SCHED_QUEUE_LENGTH" "a \<notin> A" using g Op_create True by auto
      then obtain s' where "sched_create pid a prio s = Some s'" "kernel_inv (insert a A) s'"
        using create_alive_ok [OF inv _ True False, of pid prio] unfolding live_in_def by blast
      then show ?thesis using Op_create by simp
    qed
  next
    case False
    have "a \<notin> A" using g Op_create by simp
    then obtain s' where "sched_create pid a prio s = Some s'" "kernel_inv (insert a A) s'"
      using create_dead_ok [OF inv _ False, of pid prio] by blast
    then show ?thesis using Op_create by simp
  qed
next
  case (Op_boot pid a)
  then show ?thesis using g boot_ok [OF inv, of pid a] by auto
next
  case (Op_change_prio a prio)
  then obtain s' where "sched_change_prio a prio s = Some s'" "kernel_inv A s'"
    using g change_prio_ok [OF inv, of a prio] by auto
  then show ?thesis using Op_change_prio by simp
next
  case (Op_delete cpu a)
  then have "a \<in> A" "\<not> is_idle (acts s a)"
    "sched_status (acts s a) = sched_running \<Longrightarrow> a_pool s a = cpu \<and> idle_act (sched_pools s cpu) \<noteq> None"
    using g by (auto simp: core_ready_def)
  from delete_ok [OF inv this] obtain sw s' where "sched_delete cpu a s = Some (sw, s')" "kernel_inv A s'" by blast
  then show ?thesis using Op_delete by simp
next
  case (Op_receive a ev)
  then have "a \<in> A" "\<not> is_idle (acts s a)" "ev AND 0xF = 0"
    "ev AND sched_sync_block \<noteq> 0 \<longrightarrow> sync_condition (sync_state (acts s a)) = 1" using g by auto
  then obtain s' where "sched_receive_event a ev s = Some s'" "kernel_inv A s'"
    by (rule receive_ok [OF inv]) (erule (1) that)
  then show ?thesis using Op_receive by simp
next
  case (Op_block cpu count act hint ev timeout in_exc)
  from g Op_block obtain a where cur: "current_act (sched_pools s cpu) = Some a" by (auto simp: core_ready_def)
  have "\<not> is_idle (acts s a)" "act = Some a \<or> act = None" "idle_act (sched_pools s cpu) \<noteq> None"
    "\<And>h. hint = Some h \<Longrightarrow> h \<in> A" "ev AND 0xF = 0" "ev AND sched_sem = 0" "ev \<noteq> 0 \<or> timeout > 0"
    "ev AND sched_wait_timeout \<noteq> 0 \<longrightarrow> timeout > 0" "timeout > 0 \<longrightarrow> None \<in> set (sleeps s)"
    using g Op_block cur by (auto simp: core_ready_def)
  from block_ok [OF inv cur this] obtain sw s' where
    "sched_block_until_event cpu count act hint ev timeout in_exc s = Some (sw, s')" "kernel_inv A s'" by blast
  then show ?thesis using Op_block by simp
next
  case (Op_reschedule cpu hint in_exc)
  from g Op_reschedule obtain c where cur: "current_act (sched_pools s cpu) = Some c" by (auto simp: core_ready_def)
  have "idle_act (sched_pools s cpu) \<noteq> None" "\<And>h. hint = Some h \<Longrightarrow> h \<in> A"
    using g Op_reschedule by (auto simp: core_ready_def)
  from reschedule_from_kernel_inv [OF inv cur this]
  obtain sw s' where "sched_reschedule cpu hint in_exc s = Some (sw, s')" "kernel_inv A s'" by blast
  then show ?thesis using Op_reschedule by simp
next
  case (Op_got_int cpu a)
  from g Op_got_int obtain c where cur: "current_act (sched_pools s cpu) = Some c" by (auto simp: core_ready_def)
  have "idle_act (sched_pools s cpu) \<noteq> None" "a \<in> A" using g Op_got_int by (auto simp: core_ready_def)
  from got_int_ok [OF inv cur this]
  obtain sw s' where "sched_got_int cpu a s = Some (sw, s')" "kernel_inv A s'" by blast
  then show ?thesis using Op_got_int by simp
qed

text \<open>
  Between scheduler operations the rest of the kernel and the users change fields
  that the scheduler's invariant does not mention (message queues, return values,
  tokens): the rule \<open>env\<close>.
\<close>

inductive sched_step :: "nat set \<times> kstate \<Rightarrow> nat set \<times> kstate \<Rightarrow> bool" where
  op: "guard A s op \<Longrightarrow> exec op s = Some s' \<Longrightarrow> sched_step (A, s) (registered op A, s')"
| env: "same_view s s' \<Longrightarrow> unlocked s' \<Longrightarrow> sched_step (A, s) (A, s')"

inductive_cases sched_stepE: "sched_step (A, s) (A', s')"

inductive sched_reach :: "kstate \<Rightarrow> nat set \<times> kstate \<Rightarrow> bool" for s0 :: kstate where
  init: "sched_reach s0 ({}, sched_init s0)"
| step: "sched_reach s0 c \<Longrightarrow> sched_step c c' \<Longrightarrow> sched_reach s0 c'"

text \<open>
  The kernel's memory before \<open>sched_init\<close>: the static data is zero, so the arrays
  are empty and the locks are free.
\<close>

definition zeroed :: "kstate \<Rightarrow> bool" where
  "zeroed s \<longleftrightarrow> (\<forall>p. sched_pools s p = zero_pool) \<and> (\<forall>a. \<not> sched_access_lock (acts s a))
     \<and> sleeps s = replicate MAX_WAITERS None"

lemma init_inv:
  assumes "zeroed s0"
  shows "kernel_inv {} (sched_init s0)"
proof -
  have pools: "sched_pools (sched_init s0) p = zero_pool" "acts (sched_init s0) = acts s0"
    "sleeps (sched_init s0) = sleeps s0" for p
    using assms by (simp_all add: sched_init_def zeroed_def)
  have "q_inv {} (sched_init s0)"
    by (simp add: q_inv_def pools zero_pool_def zero_q_def qwf_def in_q_def)
  then show ?thesis using assms
    by (simp add: kernel_inv_def sched_inv_def on_q_def cur_inv_def idle_inv_def cap_inv_def timer_inv_def
        pools unlocked_but_def cur_running_def zeroed_def) (simp add: zero_pool_def)
qed

lemma reach_inv:
  assumes "sched_reach s0 c" "zeroed s0"
  shows "kernel_inv (fst c) (snd c)"
  using assms
proof (induction rule: sched_reach.induct)
  case init
  then show ?case using init_inv by simp
next
  case (step c c')
  from step.hyps(2) step.IH [OF step.prems] show ?case
  proof cases
    case (op A s op s')
    with step.IH [OF step.prems] exec_ok [of A s op] show ?thesis by auto
  next
    case (env s s' A)
    with step.IH [OF step.prems] kernel_inv_view show ?thesis by auto
  qed
qed

end
