(* ===== verification/Sched_Props.thy ===== *)
theory Sched_Props
  imports Sched_Steps
begin

text \<open>
  What the scheduler guarantees, stated for the reachable states of its transition
  system and for its single operations.
\<close>

lemma zero_state_zeroed: "zeroed (zero_state n)"
  by (simp add: zeroed_def zero_state_def zero_act_def zero_pool_def zero_q_def MAX_WAITERS_def)

subsection \<open>No panic\<close>

text \<open>
  C1. In every reachable state, every scheduler operation that the rest of the
  kernel may call there returns: no assertion of \<open>sched.c\<close> or \<open>timer.c\<close> fails, no
  lock is acquired while it is held and no NULL activation is dereferenced. The
  state it leaves satisfies the scheduler's invariant again: the run queues hold
  exactly the runnable activations, at the place each of them records, the count
  of queued activations is exact, each core runs its current activation, every
  sleeper has its timer slot, and all locks are free. \<open>guard\<close> has the obligations of the
  callers, among them that a sleep finds a free slot, a new activation a pool with room,
  and that no activation that runs on another core is deleted.
\<close>

theorem sched_never_panics:
  assumes "zeroed s0" "sched_reach s0 (A, s)" "guard A s op"
  shows "\<exists>s'. exec op s = Some s' \<and> kernel_inv (registered op A) s'"
  using exec_ok [OF _ assms(3)] reach_inv [OF assms(2,1)] by simp

theorem sched_never_panics_witness:
  "\<exists>s'. exec (Op_create 0 5 PRIO_MID) (sched_init (zero_state 1)) = Some s' \<and> kernel_inv {5} s'"
proof -
  have "guard {} (sched_init (zero_state 1)) (Op_create 0 5 PRIO_MID)"
    by (simp add: live_in_def SCHED_QUEUE_LENGTH_def sched_init_def zero_state_def zero_act_def)
  from sched_never_panics [OF zero_state_zeroed sched_reach.init this] show ?thesis by simp
qed

subsection \<open>A booted kernel\<close>

text \<open>
  A concrete state for the witnesses: one core, the idle activation at address 1
  and two activations at addresses 2 and 3 of middle priority, of which 2 runs.
\<close>

definition demo_mem :: kstate where
  "demo_mem = (zero_state 1)\<lparr>acts := (\<lambda>_. zero_act)(1 := zero_act\<lparr>act_name := ''idle.elf''\<rparr>)\<rparr>"

definition demo0 :: kstate where "demo0 = sched_init demo_mem"
definition demo1 :: kstate where "demo1 = the (sched_create 0 1 PRIO_IDLE demo0)"
definition demo2 :: kstate where "demo2 = the (sched_create 0 2 PRIO_MID demo1)"
definition demo3 :: kstate where "demo3 = the (sched_create 0 3 PRIO_MID demo2)"
definition demo :: kstate where "demo = the (sched_schedule 0 2 demo3)"

lemmas sched_op_defs = sched_create_def sched_schedule_def add_act_to_queue_def lock_pool_def unlock_pool_def Let_def
  upd_q_def upd_act_def upd_pool_def SCHED_QUEUE_LENGTH_def LEVEL_TO_NDX_def prio_defs
  zero_pool_def zero_q_def SCHED_PRIO_LEVELS_def

lemma demo0_eq: "demo0 = demo_mem" 
  by (simp add: demo0_def sched_init_def demo_mem_def zero_state_def cong: if_cong)

lemmas demo_defs = demo_def demo3_def demo2_def demo1_def demo0_eq demo_mem_def zero_state_def zero_act_def
  sched_op_defs

lemma demo_zeroed: "zeroed demo_mem"
  by (simp add: zeroed_def demo_mem_def zero_state_def zero_act_def zero_pool_def zero_q_def
      MAX_WAITERS_def)

lemma reach_op:
  assumes "zeroed s0" "sched_reach s0 (A, s)" "guard A s op"
  shows "sched_reach s0 (registered op A, the (exec op s))"
proof -
  have "kernel_inv A s" using reach_inv [OF assms(2,1)] by simp
  from exec_ok [OF this assms(3)] have "exec op s = Some (the (exec op s))" by auto
  from sched_reach.step [OF assms(2) sched_step.op [OF assms(3) this]] show ?thesis .
qed

lemma demo_reach: "sched_reach demo_mem ({1, 2, 3}, demo)"
proof -
  note r = reach_op [OF demo_zeroed]
  have r0: "sched_reach demo_mem ({}, demo0)" unfolding demo0_def by (rule sched_reach.init)
  have "guard {} demo0 (Op_create 0 1 PRIO_IDLE)" by code_simp
  from r [OF r0 this] have r1: "sched_reach demo_mem ({1}, demo1)" by (simp add: demo1_def)
  have "guard {1} demo1 (Op_create 0 2 PRIO_MID)" by code_simp
  from r [OF r1 this] have r2: "sched_reach demo_mem ({1, 2}, demo2)" by (simp add: demo2_def insert_commute)
  have "guard {1, 2} demo2 (Op_create 0 3 PRIO_MID)" by code_simp
  from r [OF r2 this] have r3: "sched_reach demo_mem ({1, 2, 3}, demo3)" by (simp add: demo3_def insert_commute)
  have "guard {1, 2, 3} demo3 (Op_boot 0 2)" by code_simp
  from r [OF r3 this] show ?thesis by (simp add: demo_def)
qed

lemma demo_inv: "kernel_inv {1, 2, 3} demo"
  using reach_inv [OF demo_reach demo_zeroed] by simp

subsection \<open>The run queues\<close>

text \<open>
  C2. In every reachable state an activation that is not an idle activation is
  runnable or running if and only if it stands in a run queue; it stands there at
  one place only; and a core never has two running activations.
\<close>

theorem run_queues_exact:
  assumes "zeroed s0" "sched_reach s0 (A, s)" "a \<in> A" "\<not> is_idle (acts s a)"
  shows "(sched_status (acts s a) \<le> sched_running \<longleftrightarrow> (\<exists>p l i. in_q (get_q s p l) i a))
    \<and> (\<forall>p l i p' l' i'. in_q (get_q s p l) i a \<and> in_q (get_q s p' l') i' a \<longrightarrow> p = p' \<and> l = l' \<and> i = i')
    \<and> (\<forall>b \<in> A. sched_status (acts s a) = sched_running \<and> sched_status (acts s b) = sched_running
         \<and> pool_id (acts s a) = pool_id (acts s b) \<longrightarrow> a = b)"
proof -
  have inv: "kernel_inv A s" using reach_inv [OF assms(2,1)] by simp
  then have q: "q_inv (on_q A s) s" by (simp add: kernel_inv_def sched_inv_def)
  have "sched_status (acts s a) \<le> sched_running \<longleftrightarrow> (\<exists>p l i. in_q (get_q s p l) i a)"
  proof
    assume "sched_status (acts s a) \<le> sched_running"
    then have "a \<in> on_q A s" using assms(3,4) by (simp add: on_q_def)
    then show "\<exists>p l i. in_q (get_q s p l) i a" using q_invD(4) [OF q] by blast
  next
    assume "\<exists>p l i. in_q (get_q s p l) i a"
    then show "sched_status (acts s a) \<le> sched_running" using q_invD(2) [OF q] unfolding on_q_def by blast
  qed
  moreover have "p = p' \<and> l = l' \<and> i = i'" if "in_q (get_q s p l) i a" "in_q (get_q s p' l') i' a" for p l i p' l' i'
    using q_invD(2) [OF q that(1)] q_invD(2) [OF q that(2)] by auto
  moreover have "a = b" if "b \<in> A" "sched_status (acts s a) = sched_running" "sched_status (acts s b) = sched_running"
      "pool_id (acts s a) = pool_id (acts s b)" for b
    using kernel_invD(8) [OF inv assms(3) that(2)] kernel_invD(8) [OF inv that(1,3)] unfolding that(4)
    by (metis option.inject)
  ultimately show ?thesis by blast
qed

theorem run_queues_exact_witness:
  "sched_status (acts demo 3) = sched_runnable \<and> (\<exists>p l i. in_q (get_q demo p l) i 3)"
proof -
  have st: "sched_status (acts demo 3) = sched_runnable" "\<not> is_idle (acts demo 3)" by code_simp+
  from run_queues_exact [OF demo_zeroed demo_reach _ st(2)] st(1) show ?thesis by simp
qed

subsection \<open>Rescheduling\<close>

text \<open>
  C9. \<open>sched_reschedule\<close> on a core that runs an activation \<open>c\<close> and has an idle
  activation: the hint is scheduled exactly when it is runnable and belongs to
  this core; otherwise the idle activation when the queues of the core are empty;
  otherwise an activation that stands in the selected queue. The scheduled
  activation is running afterwards and is the current one. The caller switches
  contexts unless it is an exception handler or the choice is \<open>c\<close> itself, and the
  context of a terminated \<open>c\<close> is destroyed on the way.
\<close>

theorem reschedule_choice:
  assumes "kernel_inv A s" "current_act (sched_pools s cpu) = Some c"
    and "idle_act (sched_pools s cpu) = Some i" and "case hint of None \<Rightarrow> True | Some h \<Rightarrow> h \<in> A"
  shows "\<exists>n s' sw. sched_reschedule cpu hint in_exc s = Some (sw, s') \<and> kernel_inv A s'
    \<and> current_act (sched_pools s' cpu) = Some n \<and> sched_status (acts s' n) = sched_running
    \<and> sw = (if n = c \<or> in_exc then NoSwitch
            else if status (acts s c) = status_terminated then DestroyAndSwitchTo n c else SwitchTo n)
    \<and> (if (\<exists>h. hint = Some h \<and> unat (pool_id (acts s h)) = cpu \<and> sched_status (acts s h) = sched_runnable)
       then hint = Some n
       else if in_queues (sched_pools s cpu) = 0 then n = i
       else \<exists>k. in_q (get_q s cpu (fst (picked_level (queues (sched_pools s cpu))))) k n)"
proof -
  note inv = assms(1)
  let ?n = "chosen cpu hint s"
  have h: "\<And>h. hint = Some h \<Longrightarrow> h \<in> A" using assms(4) by (auto split: option.splits)
  have idle: "idle_act (sched_pools s cpu) \<noteq> None" using assms(3) by simp
  obtain s' where s': "sched_reschedule cpu hint in_exc s = Some (switch_of in_exc c ?n s, s')"
    "kernel_inv A s'" "current_act (sched_pools s' cpu) = Some ?n"
    by (rule reschedule_from_kernel_inv [OF inv assms(2) idle h])
  have taken: "hint_taken cpu hint s = (\<exists>h. hint = Some h \<and> a_pool s h = cpu \<and> sched_status (acts s h) = sched_runnable)"
    by (auto simp: hint_taken_def split: option.splits)
  have "if hint_taken cpu hint s then hint = Some ?n
       else if in_queues (sched_pools s cpu) = 0 then ?n = i
       else \<exists>k. in_q (get_q s cpu (fst (picked_level (queues (sched_pools s cpu))))) k ?n"
  proof (cases "hint_taken cpu hint s \<or> in_queues (sched_pools s cpu) = 0")
    case True
    then show ?thesis using assms(3) by (auto simp: chosen_def hint_taken_def split: option.splits)
  next
    case False
    obtain l qs where pl: "picked_level (queues (sched_pools s cpu)) = (l, qs)" by force
    have ne: "in_queues (sched_pools s cpu) \<noteq> 0" using False by simp
    note ch = picknext_choice [OF kernel_invD(1,2) [OF inv] ne pl]
    have "q_inv (on_q A s) s" using kernel_invD(1) [OF inv] by (simp add: sched_inv_def)
    from q_invD(4) [OF this ch(1)] ch(2,3) show ?thesis using False pl by (auto simp: chosen_def)
  qed
  then show ?thesis using s' kernel_invD(6) [OF s'(2,3)] unfolding taken [symmetric]
    by (auto simp: switch_of_def)
qed

theorem reschedule_choice_witness:
  "\<exists>n s' sw. sched_reschedule 0 (Some 3) False demo = Some (sw, s') \<and> current_act (sched_pools s' 0) = Some n
     \<and> n = 3 \<and> sw = SwitchTo 3"
proof -
  have d: "current_act (sched_pools demo 0) = Some 2" "idle_act (sched_pools demo 0) = Some 1"
    "unat (pool_id (acts demo 3)) = 0" "sched_status (acts demo 3) = sched_runnable"
    "status (acts demo 2) \<noteq> status_terminated" by code_simp+
  from reschedule_choice [OF demo_inv d(1,2), of "Some 3" False] d(3-5) show ?thesis by auto
qed

subsection \<open>Notifications\<close>

text \<open>
  C11. A notification that reaches an activation while it is running is not lost:
  its next wait for a notification returns at once, without a context switch, and
  uses the notification up.
\<close>

theorem notify_not_lost:
  assumes "kernel_inv A s" "current_act (sched_pools s cpu) = Some a" "\<not> is_idle (acts s a)"
    and "idle_act (sched_pools s cpu) \<noteq> None"
    and "sched_receive_event a sched_wait_notify s = Some s1"
  shows "\<exists>s2. sched_block_until_event cpu count None None sched_wait_notify 0 in_exc s1 = Some (NoSwitch, s2)
     \<and> kernel_inv A s2 \<and> current_act (sched_pools s2 cpu) = Some a \<and> \<not> early_notify (acts s2 a)"
proof -
  note inv = assms(1)
  have a: "a \<in> A" "sched_status (acts s a) = sched_running" using kernel_invD(6,7) [OF inv assms(2)] by auto
  have low: "sched_wait_notify AND 0xF = 0" "sched_wait_notify AND sched_sem = 0" "sched_wait_notify \<noteq> 0"
    "sched_wait_notify AND sched_sync_block = 0" "sched_wait_notify AND sched_wait_timeout = 0"
    "sched_waiting AND sched_wait_notify = 0" "sched_running AND sched_wait_notify = 0"
    "sched_wait_notify AND sched_waiting = 0" "sched_wait_notify AND sched_wait_commit = 0"
    by (simp_all add: sched_status_defs)
  have ev: "effective_events sched_wait_notify (acts s a) = sched_wait_notify"
    by (simp add: effective_events_def low)
  have "sched_wait_notify AND sched_sync_block \<noteq> 0 \<longrightarrow> sync_condition (sync_state (acts s a)) = 1"
    by (simp add: low)
  then obtain s' where s': "sched_receive_event a sched_wait_notify s = Some s'" "kernel_inv A s'"
    "early_notify (acts s' a)"
    "current_act (sched_pools s' cpu) = current_act (sched_pools s cpu)"
    "idle_act (sched_pools s' cpu) = idle_act (sched_pools s cpu)"
    "sched_status (acts s' a) = sched_status (acts s a)"
    by (rule receive_ok [OF inv a(1) assms(3) low(1)]) (use a low that in \<open>auto simp: ev\<close>)
  then have s1: "kernel_inv A s1" "early_notify (acts s1 a)" "current_act (sched_pools s1 cpu) = Some a"
    "idle_act (sched_pools s1 cpu) \<noteq> None" using assms(2,4,5) by auto
  have idle1: "\<not> is_idle (acts s1 a)"
    using receive_unfold(2) [OF kernel_invD(4) [OF inv], of sched_wait_notify a] assms(3,5) a low
    by (auto simp: ev unlock_act_def)
  have fe: "full_events sched_wait_notify 0 = sched_wait_notify" by (simp add: full_events_def)
  have got: "got_event_of sched_wait_notify (acts s1 a) \<noteq> 0"
    using s1(2) low(3) by (simp add: got_event_of_def low)
  have act: "(None :: nat option) = Some a \<or> (None :: nat option) = None \<and> sched_get_current_act cpu s1 = Some a"
    using s1(3) by (simp add: sched_get_current_act_def)
  have sem: "full_events sched_wait_notify 0 AND sched_sem = 0" by (simp add: fe low)
  define s2 where "s2 = upd_act a (\<lambda>x. (set_fast_res (got_event_of sched_wait_notify (acts s1 a)) x)
      \<lparr>woke_from := got_event_of sched_wait_notify (acts s1 a)\<rparr>)
    (unlock_act a (upd_act a (polled sched_wait_notify) s1))"
  have eq: "sched_block_until_event cpu count None None sched_wait_notify 0 in_exc s1 = Some (NoSwitch, s2)"
    using block_unfold(1) [OF kernel_invD(4) [OF s1(1)] act sem] got unfolding s2_def fe by blast
  have "early_notify (acts s2 a) = early_notify (polled sched_wait_notify (acts s1 a))"
    by (simp add: s2_def unlock_act_def set_fast_res_def)
  then have "\<not> early_notify (acts s2 a)" using low(3) by simp
  moreover have "kernel_inv A s2" "current_act (sched_pools s2 cpu) = Some a"
  proof -
    have c: "sched_wait_notify \<noteq> 0 \<or> (0 :: u64) < 0" "sched_wait_notify AND sched_wait_timeout \<noteq> 0 \<longrightarrow> (0 :: u64) < 0"
      "(0 :: u64) < 0 \<longrightarrow> None \<in> set (sleeps s1)" using low by auto
    obtain sw s3 where "sched_block_until_event cpu count None None sched_wait_notify 0 in_exc s1 = Some (sw, s3)"
      "kernel_inv A s3" "current_act (sched_pools s3 cpu) = Some a"
      by (rule block_ok [where act = None and hint = None and events = sched_wait_notify and timeout = 0
            and count = count and in_exc = in_exc, OF s1(1,3) idle1 _ s1(4) _ low(1,2) c])
         (use got that in \<open>auto simp: fe\<close>)
    then show "kernel_inv A s2" "current_act (sched_pools s2 cpu) = Some a" using eq by auto
  qed
  ultimately show ?thesis using eq by blast
qed

theorem notify_not_lost_witness:
  "\<exists>s1 s2. sched_receive_event 2 sched_wait_notify demo = Some s1
     \<and> sched_block_until_event 0 0 None None sched_wait_notify 0 False s1 = Some (NoSwitch, s2)"
proof -
  have d: "current_act (sched_pools demo 0) = Some 2" "\<not> is_idle (acts demo 2)"
    "idle_act (sched_pools demo 0) \<noteq> None" "sched_receive_event 2 sched_wait_notify demo \<noteq> None" by code_simp+
  then obtain s1 where s1: "sched_receive_event 2 sched_wait_notify demo = Some s1" by blast
  from notify_not_lost [OF demo_inv d(1-3) s1] s1 show ?thesis by blast
qed

subsection \<open>Priorities\<close>

lemma select_level_down:
  assumes "h \<le> i" "1 \<le> h" "\<forall>l. h < l \<and> l \<le> i \<longrightarrow> act_queue_end (qs l) = 0"
  shows "select_level i f qs = select_level h f qs"
  using assms
proof (induction i)
  case (Suc i)
  show ?case
  proof (cases "h = Suc i")
    case False
    then have "select_level (Suc i) f qs = select_level i f qs"
      using Suc.prems select_level_cases(2) [of "Suc i" qs f] by simp
    then show ?thesis using Suc False by auto
  qed simp
qed simp

lemma ctr_mod: "(ctr :: u8) AND (SCHED_PRIO_FACTOR - 1) = 0 \<longleftrightarrow> unat ctr mod 16 = 0"
proof -
  have "(SCHED_PRIO_FACTOR - 1 :: u8) = mask 4" by (simp add: SCHED_PRIO_FACTOR_def mask_eq_exp_minus_1)
  then have "ctr AND (SCHED_PRIO_FACTOR - 1) = take_bit 4 ctr" by (simp add: take_bit_eq_mask)
  moreover have "take_bit 4 ctr = 0 \<longleftrightarrow> take_bit 4 (unat ctr) = 0"
    by (metis unsigned_0 unsigned_take_bit_eq unat_eq_zero)
  ultimately show ?thesis by (simp add: take_bit_eq_mod)
qed

lemma bump_keeps_ctr:
  "select_level i f qs = (i', f', qs') \<Longrightarrow> i < h \<Longrightarrow> queue_ctr (qs' h) = queue_ctr (qs h)"
proof (induction i arbitrary: f qs)
  case 0
  then show ?case by (simp add: select_level_cases)
next
  case (Suc i)
  consider "Suc i \<le> 1" | "1 < Suc i" "act_queue_end (qs (Suc i)) = 0"
    | "1 < Suc i" "act_queue_end (qs (Suc i)) \<noteq> 0" "queue_ctr (qs (Suc i)) AND (SCHED_PRIO_FACTOR - 1) = 0"
    | "1 < Suc i" "act_queue_end (qs (Suc i)) \<noteq> 0" "queue_ctr (qs (Suc i)) AND (SCHED_PRIO_FACTOR - 1) \<noteq> 0"
    by force
  then show ?case
  proof cases
    case 3
    then have "select_level i (Suc i) (bump (Suc i) qs) = (i', f', qs')"
      using Suc.prems by (simp add: select_level_cases)
    then show ?thesis using Suc.IH Suc.prems(2) by (simp add: bump_def)
  qed (use Suc in \<open>auto simp: select_level_cases bump_def\<close>)
qed

text \<open>
  C14. Let \<open>h\<close> be the highest level that has a runnable activation, above the level
  \<open>PRIO_LOW\<close>. \<open>sched_picknext\<close> takes level \<open>h\<close>, except on every sixteenth look at
  it (when its counter is a multiple of \<open>SCHED_PRIO_FACTOR\<close>), when it takes a
  lower level if one at or above \<open>PRIO_LOW\<close> has a runnable activation. The counter
  advances by one at every look, so no level from \<open>PRIO_LOW\<close> upwards starves.
\<close>

theorem level_choice:
  assumes "1 < h" "h \<le> 4" "act_queue_end (qs h) \<noteq> 0" "\<forall>l. h < l \<and> l \<le> 4 \<longrightarrow> act_queue_end (qs l) = 0"
  shows "(if unat (queue_ctr (qs h)) mod 16 \<noteq> 0 \<or> (\<forall>l. 1 \<le> l \<and> l < h \<longrightarrow> act_queue_end (qs l) = 0)
          then fst (picked_level qs) = h
          else 1 \<le> fst (picked_level qs) \<and> fst (picked_level qs) < h
             \<and> act_queue_end (qs (fst (picked_level qs))) \<noteq> 0)
    \<and> queue_ctr (snd (picked_level qs) h) = queue_ctr (qs h) + 1"
proof -
  have down: "select_level 4 0 qs = select_level h 0 qs" using select_level_down [of h 4 qs 0] assms by simp
  show ?thesis
  proof (cases "unat (queue_ctr (qs h)) mod 16 = 0")
    case False
    then have "select_level 4 0 qs = (h, h, bump h qs)"
      using down assms select_level_cases(4) [of h qs 0] by (simp add: ctr_mod)
    then show ?thesis using assms False by (simp add: picked_level_def bump_def)
  next
    case True
    obtain i' f' qs' where sl: "select_level (h - 1) h (bump h qs) = (i', f', qs')" by (metis surj_pair)
    then have sl4: "select_level 4 0 qs = (i', f', qs')"
      using down assms True select_level_cases(3) [of h qs 0] by (simp add: ctr_mod)
    note spec = select_level_spec [OF sl]
    have e: "act_queue_end (qs' l) = act_queue_end (qs l)" for l using spec by (simp add: q_eq_def)
    have fst: "fst (picked_level qs) = (if act_queue_end (qs i') = 0 then f' else i')"
      and snd: "snd (picked_level qs) = qs'"
      using sl4 by (simp_all add: picked_level_def e)
    have "queue_ctr (qs' h) = queue_ctr (qs h) + 1"
      using bump_keeps_ctr [OF sl, of h] assms by (simp add: bump_def)
    moreover have "if (\<forall>l. 1 \<le> l \<and> l < h \<longrightarrow> act_queue_end (qs l) = 0) then fst (picked_level qs) = h
      else 1 \<le> fst (picked_level qs) \<and> fst (picked_level qs) < h \<and> act_queue_end (qs (fst (picked_level qs))) \<noteq> 0"
    proof (cases "act_queue_end (qs i') = 0")
      case False
      then show ?thesis using spec fst assms(1) by (auto simp: fst)
    next
      case True
      then have i1: "i' = 1" using spec assms(1) by auto
      from spec True consider "f' = h" "\<forall>l. 1 < l \<and> l \<le> h - 1 \<longrightarrow> act_queue_end (qs l) = 0"
        | "1 < f'" "f' \<le> h - 1" "act_queue_end (qs f') \<noteq> 0" by auto
      then show ?thesis
      proof cases
        case 1
        have "act_queue_end (qs l) = 0" if "1 \<le> l" "l < h" for l
          using 1(2) that True i1 by (cases "l = 1") auto
        then show ?thesis using 1(1) True fst by simp
      next
        case 2
        then show ?thesis using True fst by fastforce
      qed
    qed
    ultimately show ?thesis using True snd by simp
  qed
qed

theorem level_choice_witness:
  "fst (picked_level (\<lambda>l. if l = 2 then zero_q\<lparr>act_queue_end := 3, queue_ctr := 5\<rparr>
     else if l = 1 then zero_q\<lparr>act_queue_end := 1\<rparr> else zero_q)) = 2"
  using level_choice [of 2 "\<lambda>l. if l = 2 then zero_q\<lparr>act_queue_end := 3, queue_ctr := 5\<rparr>
     else if l = 1 then zero_q\<lparr>act_queue_end := 1\<rparr> else zero_q"] by (simp add: zero_q_def)

end
