(* ===== verification/Sched_Fair.thy ===== *)
theory Sched_Fair
  imports Sched_Props
begin

text \<open>Fairness of the scheduler among activations of one level, and its error cases.\<close>

subsection \<open>Round robin within a level\<close>

text \<open>\<open>k\<close> successive forced reschedulings of a core, as the timer interrupt makes them.\<close>

fun ticks :: "nat \<Rightarrow> nat \<Rightarrow> kstate \<Rightarrow> kstate option" where
  "ticks cpu 0 s = Some s"
| "ticks cpu (Suc k) s = do { (sw, s') \<leftarrow> sched_reschedule cpu None True s; ticks cpu k s' }"

lemma level_no_io:
  assumes "LEVEL_TO_NDX p \<le> 3"
  shows "p AND PRIO_IO = 0"
proof -
  have "unat p \<le> 3" using assms by (auto simp: LEVEL_TO_NDX_def prio_defs word_less_nat_alt split: if_splits)
  define n where "n = unat p"
  then have p: "p = of_nat n" by simp
  have "n = 0 \<or> n = 1 \<or> n = 2 \<or> n = 3" using \<open>unat p \<le> 3\<close> by (auto simp: n_def)
  then show ?thesis unfolding p by (auto simp: PRIO_IO_def)
qed

lemma of_nat_neq_0:
  assumes "0 < k" "k < 2 ^ LENGTH('a)"
  shows "(of_nat k :: 'a::len word) \<noteq> 0"
proof -
  have "unat (of_nat k :: 'a word) = k" using assms by (simp add: unat_of_nat)
  then show ?thesis using assms(1) by (metis unsigned_0 less_irrefl)
qed

definition only_level :: "nat \<Rightarrow> nat \<Rightarrow> kstate \<Rightarrow> bool" where
  "only_level cpu l s \<longleftrightarrow> l \<le> 3 \<and> act_queue_end (get_q s cpu l) \<noteq> 0
     \<and> (\<forall>l' < SCHED_PRIO_LEVELS. l' \<noteq> l \<longrightarrow> act_queue_end (get_q s cpu l') = 0)"

lemma tick_step:
  assumes inv: "kernel_inv A s" and cur: "current_act (sched_pools s cpu) = Some c"
    and idle: "idle_act (sched_pools s cpu) \<noteq> None" and l: "only_level cpu l s"
  defines "j \<equiv> (unat (act_queue_current (get_q s cpu l)) + 1) mod unat (act_queue_end (get_q s cpu l))"
  obtains s' where "sched_reschedule cpu None True s = Some (NoSwitch, s')" "kernel_inv A s'"
    "current_act (sched_pools s' cpu) = act_queue (get_q s cpu l) ! j" "act_queue (get_q s cpu l) ! j \<noteq> None"
    "only_level cpu l s'" "q_eq (get_q s cpu l) (get_q s' cpu l)"
    "unat (act_queue_current (get_q s' cpu l)) = j" "idle_act (sched_pools s' cpu) \<noteq> None"
proof -
  let ?q = "get_q s cpu l"
  have qi: "q_inv (on_q A s) s" using kernel_invD(1) [OF inv] by (simp add: sched_inv_def)
  have l5: "l < SCHED_PRIO_LEVELS" using l by (simp add: only_level_def SCHED_PRIO_LEVELS_def)
  have wf: "qwf (get_q s cpu k)" for k using q_invD(1) [OF qi] .
  have ne: "in_queues (sched_pools s cpu) \<noteq> 0"
  proof -
    have le: "(\<Sum>k < SCHED_PRIO_LEVELS. unat (act_queue_end (get_q s cpu k))) = unat (act_queue_end ?q)"
      using l l5 by (simp add: only_level_def sum.remove [of _ l])
    have "unat (act_queue_end ?q) \<le> 31" using wf [of l] by (simp add: qwf_def SCHED_QUEUE_LENGTH_def)
    moreover have "unat (act_queue_end ?q) \<noteq> 0" using l by (simp add: only_level_def unat_eq_zero)
    ultimately have "(of_nat (unat (act_queue_end ?q)) :: u64) \<noteq> 0"
      by (intro of_nat_neq_0) simp_all
    then show ?thesis using q_invD(5) [OF qi, of cpu] le by simp
  qed
  obtain l' qs where pl: "picked_level (queues (sched_pools s cpu)) = (l', qs)" by force
  note spec = picked_level_spec [OF pl in_queues_pos [OF qi ne]]
  have l': "l' = l" using spec(3,4) l by (auto simp: only_level_def)
  define n where "n = picked_act cpu s"
  define s1 where "s1 = picked_state cpu l qs j n s"
  note ch = picknext_choice [OF kernel_invD(1,2) [OF inv] ne pl, unfolded l', folded j_def n_def, folded s1_def]
  have io: "priority (acts s n) AND PRIO_IO = 0" using ch(3) l by (intro level_no_io) (simp add: only_level_def)
  have pick: "sched_picknext cpu s = Some (Some n, s1)" using ch(4) io by simp
  have jlt: "j < unat (act_queue_end ?q)" using l by (simp add: j_def only_level_def unat_gt_0)
  from qwf_in_q_ex [OF wf this] obtain m where m: "act_queue ?q ! j = Some m" by (auto simp: in_q_def)
  have nm: "n = m" using m pl l' by (simp add: n_def picked_act_def j_def)
  obtain s' where s': "sched_reschedule cpu None True s = Some (switch_of True c (chosen cpu None s) s, s')"
    "kernel_inv A s'" "current_act (sched_pools s' cpu) = Some (chosen cpu None s)"
    by (rule reschedule_from_kernel_inv [where hint = None and in_exc = True, OF inv cur idle]) auto
  have chn: "chosen cpu None s = n" using ne by (simp add: chosen_def hint_taken_def n_def)
  have "s' = unlock_act n (if n = c then s1 else the (sched_schedule (of_nat cpu) n (sched_deschedule c s1)))"
    using s'(1) pick cur by (auto simp: sched_reschedule_def Let_def bind_Some_conv split: if_splits)
  moreover have "sched_schedule (of_nat cpu) n (sched_deschedule c s1) \<noteq> None" if "n \<noteq> c"
    using s'(1) pick cur that by (auto simp: sched_reschedule_def Let_def bind_Some_conv split: if_splits)
  ultimately have qs': "queues (sched_pools s' cpu) = queues (sched_pools s1 cpu)"
    "idle_act (sched_pools s' cpu) = idle_act (sched_pools s1 cpu)"
    by (auto simp: unlock_act_def sched_schedule_def sched_deschedule_def split: if_splits)
  have q1: "queues (sched_pools s1 cpu) = qs(l := (qs l)\<lparr>act_queue_current := of_nat j\<rparr>)"
    "idle_act (sched_pools s1 cpu) = idle_act (sched_pools s cpu)"
    by (simp_all add: s1_def picked_state_def)
  have qe: "q_eq (get_q s cpu k) (get_q s' cpu k)" for k
    using spec(1) [of k] by (cases "k = l") (simp_all add: qs' q1 q_eq_def)
  have "j < 256" using jlt wf [of l] by (simp add: qwf_def SCHED_QUEUE_LENGTH_def)
  then have cj: "unat (act_queue_current (get_q s' cpu l)) = j" by (simp add: qs' q1 unat_of_nat)
  have ol: "only_level cpu l s'" using l qe by (simp add: only_level_def q_eq_def)
  have id': "idle_act (sched_pools s' cpu) \<noteq> None" using idle qs'(2) q1(2) by simp
  have re: "sched_reschedule cpu None True s = Some (NoSwitch, s')" using s'(1) by (simp add: switch_of_def)
  have cu: "current_act (sched_pools s' cpu) = act_queue ?q ! j" "act_queue ?q ! j \<noteq> None"
    using s'(3) chn nm m by simp_all
  show thesis by (rule that [OF re s'(2) cu ol qe cj id'])
qed

text \<open>
  C7. While the activations of a core that are ready all stand in one level and the
  queue does not change, the timer interrupts run them round robin: the \<open>k\<close>-th
  tick runs the activation \<open>k\<close> places after the last one, so each of the \<open>n\<close>
  activations runs once in every \<open>n\<close> ticks.
\<close>

theorem round_robin:
  assumes "kernel_inv A s" "current_act (sched_pools s cpu) \<noteq> None" "idle_act (sched_pools s cpu) \<noteq> None"
    and "only_level cpu l s" "0 < k"
  shows "\<exists>s'. ticks cpu k s = Some s' \<and> kernel_inv A s' \<and> current_act (sched_pools s' cpu) =
     act_queue (get_q s cpu l) !
       ((unat (act_queue_current (get_q s cpu l)) + k) mod unat (act_queue_end (get_q s cpu l)))"
  using assms
proof (induction k arbitrary: s)
  case (Suc k)
  let ?q = "get_q s cpu l" and ?n = "unat (act_queue_end (get_q s cpu l))"
  let ?c = "unat (act_queue_current (get_q s cpu l))"
  from Suc.prems obtain c where cur: "current_act (sched_pools s cpu) = Some c" by blast
  obtain s1 where s1: "sched_reschedule cpu None True s = Some (NoSwitch, s1)" "kernel_inv A s1"
    "current_act (sched_pools s1 cpu) = act_queue ?q ! ((?c + 1) mod ?n)" "act_queue ?q ! ((?c + 1) mod ?n) \<noteq> None"
    "only_level cpu l s1" "q_eq ?q (get_q s1 cpu l)"
    "unat (act_queue_current (get_q s1 cpu l)) = (?c + 1) mod ?n" "idle_act (sched_pools s1 cpu) \<noteq> None"
    by (rule tick_step [OF Suc.prems(1) cur Suc.prems(3,4)])
  show ?case
  proof (cases "k = 0")
    case True
    then show ?thesis using s1 by simp
  next
    case False
    then obtain s' where "ticks cpu k s1 = Some s'" "kernel_inv A s'"
      "current_act (sched_pools s' cpu) = act_queue ?q ! (((?c + 1) mod ?n + k) mod ?n)"
      using Suc.IH [OF s1(2) _ s1(8,5)] s1(3,4,6,7) by (auto simp: q_eq_def)
    moreover have "((?c + 1) mod ?n + k) mod ?n = (?c + Suc k) mod ?n" by (simp add: mod_add_left_eq)
    ultimately show ?thesis using s1(1) by simp
  qed
qed simp

theorem round_robin_witness:
  "\<exists>s'. ticks 0 2 demo = Some s' \<and> current_act (sched_pools s' 0) = Some 2"
proof -
  have d: "current_act (sched_pools demo 0) \<noteq> None" "idle_act (sched_pools demo 0) \<noteq> None"
    "only_level 0 2 demo"
    "act_queue (get_q demo 0 2) ! ((unat (act_queue_current (get_q demo 0 2)) + 2) mod unat (act_queue_end (get_q demo 0 2)))
       = Some 2"
    by (simp_all add: demo_defs only_level_def SCHED_PRIO_LEVELS_def)
  have "0 < (2 :: nat)" by simp
  from round_robin [OF demo_inv d(1-3) this] show ?thesis unfolding d(4) by blast
qed

subsection \<open>Termination of activations\<close>

text \<open>
  Terminating an activation that is running on another core panics: the
  assertion in \<open>sched_delete\<close> fails, because no interrupt is sent to that core.
\<close>

lemma delete_remote_running_panics:
  assumes "sched_status (acts s a) = sched_running" "unat (pool_id (acts s a)) \<noteq> cpu"
  shows "sched_delete cpu a s = None"
  using assms by (cases "lock_act a s") (auto simp: sched_delete_def lock_act_def Let_def split: if_splits)









end
