(* ===== verification/Fifo.thy ===== *)
theory Fifo
  imports Prelude
begin

text \<open>
  The interface of a bounded first-in first-out queue, and what a client of it may
  rely on. \<open>ok\<close> is the provider's invariant, \<open>items\<close> the abstract contents, \<open>cap\<close> the
  capacity. \<open>put\<close> is \<open>None\<close> when the item is refused, \<open>get\<close> when there is nothing to
  take. A queue may be usable for a limited number of removals only (an index that
  wraps): \<open>budget\<close> is a lower bound on what is left of them.
\<close>

datatype 'm qop = Put 'm | Get

text \<open>A run of operations: the accepted items, the delivered items and the final queue.\<close>

fun run_ops :: "('m \<Rightarrow> 'q \<Rightarrow> 'q option) \<Rightarrow> ('q \<Rightarrow> ('m \<times> 'q) option) \<Rightarrow> 'm qop list \<Rightarrow> 'q \<Rightarrow> 'm list \<times> 'm list \<times> 'q" where
  "run_ops put get [] q = ([], [], q)"
| "run_ops put get (Put m # ops) q =
     (case put m q of
        None \<Rightarrow> run_ops put get ops q
      | Some q' \<Rightarrow> (let (a, d, q'') = run_ops put get ops q' in (m # a, d, q'')))"
| "run_ops put get (Get # ops) q =
     (case get q of
        None \<Rightarrow> run_ops put get ops q
      | Some (m, q') \<Rightarrow> (let (a, d, q'') = run_ops put get ops q' in (a, m # d, q'')))"

fun gets :: "'m qop list \<Rightarrow> nat" where
  "gets [] = 0"
| "gets (Put m # ops) = gets ops"
| "gets (Get # ops) = Suc (gets ops)"

locale fifo =
  fixes ok :: "'q \<Rightarrow> bool" and items :: "'q \<Rightarrow> 'm list" and cap :: "'q \<Rightarrow> nat" and budget :: "'q \<Rightarrow> nat"
    and put :: "'m \<Rightarrow> 'q \<Rightarrow> 'q option" and get :: "'q \<Rightarrow> ('m \<times> 'q) option"
  assumes bounded: "ok q \<Longrightarrow> length (items q) \<le> cap q"
    and put_room: "ok q \<Longrightarrow> length (items q) < cap q \<Longrightarrow>
      \<exists>q'. put m q = Some q' \<and> ok q' \<and> items q' = items q @ [m] \<and> cap q' = cap q \<and> budget q \<le> budget q'"
    and put_full: "ok q \<Longrightarrow> 0 < budget q \<Longrightarrow> length (items q) = cap q \<Longrightarrow> put m q = None"
    and get_some: "ok q \<Longrightarrow> items q = m # ms \<Longrightarrow>
      \<exists>q'. get q = Some (m, q') \<and> ok q' \<and> items q' = ms \<and> cap q' = cap q \<and> budget q \<le> Suc (budget q')"
    and get_none: "ok q \<Longrightarrow> items q = [] \<Longrightarrow> get q = None"
begin

text \<open>What goes in comes out, in order, and nothing else does.\<close>

lemma run_fifo:
  assumes "ok q" "gets ops < budget q" "run_ops put get ops q = (a, d, q')"
  shows "ok q' \<and> items q @ a = d @ items q'"
  using assms
proof (induction ops arbitrary: q a d)
  case (Cons op ops)
  show ?case
  proof (cases op)
    case (Put m)
    show ?thesis
    proof (cases "length (items q) < cap q")
      case True
      obtain q1 where q1: "put m q = Some q1" "ok q1" "items q1 = items q @ [m]" "budget q \<le> budget q1"
        using put_room [OF Cons.prems(1) True] by blast
      obtain a' where "run_ops put get ops q1 = (a', d, q')" "a = m # a'"
        using Cons.prems(3) q1(1) Put by (auto split: prod.splits)
      then show ?thesis using Cons.IH [of q1 a' d] q1 Cons.prems(2) Put by simp
    next
      case False
      then have "length (items q) = cap q" using bounded [OF Cons.prems(1)] by simp
      then have "put m q = None" using put_full [OF Cons.prems(1)] Cons.prems(2) by simp
      then show ?thesis using Cons.IH [of q a d] Cons.prems Put by simp
    qed
  next
    case Get
    show ?thesis
    proof (cases "items q")
      case Nil
      then show ?thesis using Cons.IH [of q a d] Cons.prems Get get_none [OF Cons.prems(1)] by simp
    next
      case (Cons m ms)
      obtain q1 where q1: "get q = Some (m, q1)" "ok q1" "items q1 = ms" "budget q \<le> Suc (budget q1)"
        using get_some [OF Cons.prems(1) Cons] by blast
      obtain d' where "run_ops put get ops q1 = (a, d', q')" "d = m # d'"
        using Cons.prems(3) q1(1) Get by (auto split: prod.splits)
      then show ?thesis using Cons.IH [of q1 a d'] q1 Cons.prems(2) Get Cons by simp
    qed
  qed
qed simp

text \<open>Draining: as many removals as there are items deliver all of them.\<close>

lemma drain:
  assumes "ok q" "length (items q) < budget q"
  shows "\<exists>q'. run_ops put get (replicate (length (items q)) Get) q = ([], items q, q') \<and> items q' = []"
  using assms
proof (induction "items q" arbitrary: q)
  case (Cons m ms)
  obtain q1 where q1: "get q = Some (m, q1)" "ok q1" "items q1 = ms" "budget q \<le> Suc (budget q1)"
    using get_some [OF Cons.prems(1) Cons.hyps(2) [symmetric]] by blast
  have "length (items q1) < budget q1"
    using q1(3,4) Cons.prems(2) unfolding Cons.hyps(2) [symmetric] by simp
  from Cons.hyps(1) [OF q1(3) [symmetric] q1(2) this] q1 show ?case
    unfolding Cons.hyps(2) [symmetric] by auto
qed auto

end

end
