(* ===== verification/Msg_Queue.thy ===== *)
theory Msg_Queue
  imports Sched Fifo
begin

text \<open>
  The message queue of an activation: a ring of messages that the kernel fills
  (\<open>msg_push\<close> and \<open>msg_queue_init\<close> of \<open>cherios/kernel/src/msg.c\<close>) and the activation
  empties (\<open>libuser/src/msg.c\<close>). The kernel keeps the write index in the upper half
  of the transaction word \<open>msg_tsx\<close>, whose lower half holds the number of the last
  transaction that was begun (N) and finished (F); the activation owns the read
  index \<open>header.start\<close>. Indices are 32 bits wide and run freely; the slot is the
  index masked with the queue length less one.

  Sizes are those of the 128-bit capability format.
\<close>

subsection \<open>The transaction word\<close>

definition TRANS_N :: "u64 \<Rightarrow> u64" where "TRANS_N x = x AND 0xFFFF"
definition TRANS_F :: "u64 \<Rightarrow> u64" where "TRANS_F x = drop_bit 16 x AND 0xFFFF"
definition TRANS_HD :: "u64 \<Rightarrow> u64" where "TRANS_HD x = drop_bit 32 x"

definition N_TOP_BIT :: u64 where "N_TOP_BIT = push_bit 15 1"
definition N_INC :: u64 where "N_INC = 1"

definition begin_tsx :: "u64 \<Rightarrow> u64" where
  "begin_tsx tsx = (let add_msk = tsx AND N_TOP_BIT in ((add_msk XOR tsx) + N_INC) XOR add_msk)"

definition end_tsx :: "u64 \<Rightarrow> u64 \<Rightarrow> u64" where
  "end_tsx head our_tsx = (let our_tsx_n = TRANS_N our_tsx in
     push_bit 16 (push_bit 16 (head + 1) OR our_tsx_n) OR our_tsx_n)"

subsection \<open>The kernel's side\<close>

text \<open>
  \<open>push_slot\<close> is the transaction of \<open>msg_push\<close> when no other sender interferes;
  \<open>try_push\<close> is the test for a full queue followed by it, with the return value of
  \<open>msg_push\<close>. A slot outside the queue is a bounds violation.
\<close>

definition push_slot :: "msg_t \<Rightarrow> act_t \<Rightarrow> act_t option" where
  "push_slot m x = do {
     let head = TRANS_HD (msg_tsx x);
     let our_tsx = begin_tsx (msg_tsx x);
     let slot = unat (head AND ucast (queue_mask x));
     kassert (slot < length (queue_msg (msg_queue x)));
     Some (x\<lparr>msg_queue := (msg_queue x)\<lparr>queue_msg := (queue_msg (msg_queue x))[slot := m]\<rparr>,
             msg_tsx := end_tsx head our_tsx\<rparr>)
   }"

definition queue_full :: "act_t \<Rightarrow> bool" where
  "queue_full x = (TRANS_HD (msg_tsx x) = ucast (header_start (msg_queue x)) + ucast (queue_mask x))"

definition try_push :: "msg_t \<Rightarrow> act_t \<Rightarrow> (int \<times> act_t) option" where
  "try_push m x = (if queue_full x then Some (-1, x) else map_option (\<lambda>x'. (0, x')) (push_slot m x))"

definition is_power_2 :: "u64 \<Rightarrow> bool" where
  "is_power_2 x = (x AND (x - 1) = 0)"

definition SIZEOF_HEADER :: u64 where "SIZEOF_HEADER = 32"
definition SIZEOF_MSG :: u64 where "SIZEOF_MSG = 128"

definition msg_queue_init :: "act_t \<Rightarrow> u64 \<Rightarrow> msg_t list \<Rightarrow> act_t option" where
  "msg_queue_init x total_length_bytes mem = do {
     kassert (total_length_bytes > SIZEOF_HEADER);
     let queue_len = (ucast ((total_length_bytes - SIZEOF_HEADER) div SIZEOF_MSG) :: u32);
     kassert (is_power_2 (ucast queue_len));
     kassert (queue_len \<noteq> 0);
     Some (x\<lparr>msg_queue := \<lparr>header_start = 0, header_len = queue_len, queue_msg = mem\<rparr>,
             queue_mask := queue_len - 1, msg_tsx := 0\<rparr>)
   }"

subsection \<open>The activation's side\<close>

definition next_msg :: "act_t \<Rightarrow> act_t" where
  "next_msg x = x\<lparr>msg_queue := (msg_queue x)\<lparr>header_start := header_start (msg_queue x) + 1\<rparr>\<rparr>"

definition user_msg_queue_empty :: "act_t \<Rightarrow> bool" where
  "user_msg_queue_empty x = (header_start (msg_queue x) = header_end x)"

definition current_slot :: "act_t \<Rightarrow> nat" where
  "current_slot x = unat (header_start (msg_queue x) AND (header_len (msg_queue x) - 1))"

text \<open>\<open>None\<close>: the caller blocks in \<open>wait\<close> instead.\<close>

definition get_message :: "act_t \<Rightarrow> msg_t option" where
  "get_message x = (if user_msg_queue_empty x then None else Some (queue_msg (msg_queue x) ! current_slot x))"

definition pop_msg :: "act_t \<Rightarrow> (msg_t \<times> act_t) option" where
  "pop_msg x = (if header_start (msg_queue x) = header_end x then None
     else Some (queue_msg (msg_queue x) ! current_slot x, next_msg x))"

subsection \<open>Arithmetic of the transaction word\<close>

lemma bit_N_TOP_BIT [simp]: "bit N_TOP_BIT n \<longleftrightarrow> n = 15"
  unfolding N_TOP_BIT_def bit_push_bit_iff bit_1_iff by auto

lemma TRANS_alt: "TRANS_N w = take_bit 16 w" "TRANS_F w = take_bit 16 (drop_bit 16 w)"
proof -
  have "(0xFFFF :: u64) = mask 16" by (simp add: mask_eq_exp_minus_1)
  then show "TRANS_N w = take_bit 16 w" "TRANS_F w = take_bit 16 (drop_bit 16 w)"
    by (simp_all only: TRANS_N_def TRANS_F_def take_bit_eq_mask)
qed

lemma xor_bit_15:
  "\<not> bit (w :: u64) 15 \<Longrightarrow> w XOR N_TOP_BIT = w + N_TOP_BIT"
  "bit (w :: u64) 15 \<Longrightarrow> w XOR N_TOP_BIT = w - N_TOP_BIT"
proof -
  have plus: "v XOR N_TOP_BIT = v + N_TOP_BIT" if "\<not> bit v 15" for v :: u64
  proof -
    have "v AND N_TOP_BIT = 0"
      by (rule bit_word_eqI) (use that in \<open>auto simp: bit_simps\<close>)
    then show ?thesis by (simp add: disjunctive_add_eq_xor)
  qed
  show "\<not> bit w 15 \<Longrightarrow> w XOR N_TOP_BIT = w + N_TOP_BIT" by (rule plus)
  assume "bit w 15"
  then have "\<not> bit (w XOR N_TOP_BIT) 15" by (simp add: bit_simps)
  from plus [OF this] show "w XOR N_TOP_BIT = w - N_TOP_BIT" by (simp add: xor.assoc eq_diff_eq)
qed

lemma and_top_bit: "w AND N_TOP_BIT = (if bit w 15 then N_TOP_BIT else 0)"
  by (rule bit_word_eqI) (auto simp: bit_simps)

lemma unat_TRANS:
  "unat (TRANS_N w) = unat w mod 2 ^ 16" "unat (TRANS_F w) = unat w div 2 ^ 16 mod 2 ^ 16"
  "unat (TRANS_HD w) = unat w div 2 ^ 32"
  by (simp_all only: TRANS_alt TRANS_HD_def unsigned_take_bit_eq unat_drop_bit_eq
      take_bit_eq_mod [where 'a = nat] drop_bit_eq_div [where 'a = nat])

lemma bit_15_iff: "bit (w :: u64) 15 \<longleftrightarrow> 2 ^ 15 \<le> unat (TRANS_N w)"
proof -
  have "bit w 15 \<longleftrightarrow> bit (unat w) 15" by (simp add: bit_unsigned_iff)
  also have "\<dots> \<longleftrightarrow> odd (unat w div 2 ^ 15)" by (simp add: bit_iff_odd)
  also have "\<dots> \<longleftrightarrow> 2 ^ 15 \<le> unat w mod 2 ^ 16"
  proof -
    define q r where "q = unat w div 2 ^ 16" and "r = unat w mod 2 ^ 16"
    have "unat w = q * 2 ^ 16 + r" "r < 2 ^ 16" by (simp_all add: q_def r_def)
    then have "unat w div 2 ^ 15 = 2 * q + r div 2 ^ 15" by simp
    moreover have "r div 2 ^ 15 = (if 2 ^ 15 \<le> r then 1 else 0)" using \<open>r < 2 ^ 16\<close> by auto
    ultimately show ?thesis by (simp add: r_def)
  qed
  finally show ?thesis by (simp add: unat_TRANS)
qed

text \<open>Beginning a transaction adds one to N, modulo \<open>2^16\<close>, and carries nothing into F.\<close>

lemma begin_tsx_eq: "begin_tsx t = (if TRANS_N t = 0xFFFF then t - 0xFFFF else t + 1)"
proof (cases "bit t 15")
  case False
  then have "TRANS_N t \<noteq> 0xFFFF" by (auto simp: bit_15_iff)
  then show ?thesis using False by (simp add: begin_tsx_def and_top_bit N_INC_def)
next
  case True
  define n where "n = unat (TRANS_N t)"
  have n: "n = unat t mod 2 ^ 16" "2 ^ 15 \<le> n" "n < 2 ^ 16" using True by (simp_all add: n_def bit_15_iff unat_TRANS)
  have top: "N_TOP_BIT = 0x8000" by (simp add: N_TOP_BIT_def)
  have le: "2 ^ 15 \<le> unat t" using n by (metis le_trans mod_less_eq_dividend)
  define v where "v = t - N_TOP_BIT + 1"
  have "unat (t - N_TOP_BIT) = unat t - 2 ^ 15" using le by (simp add: top unat_sub word_le_nat_alt)
  moreover have "unat t < 2 ^ 64" using unsigned_less [of t, where 'a = nat] by simp
  ultimately have v: "unat v = unat t - 2 ^ 15 + 1" using le by (simp add: v_def unat_word_ariths)
  have eq: "begin_tsx t = v XOR N_TOP_BIT"
    using True xor_bit_15(2) [OF True] by (simp add: begin_tsx_def and_top_bit N_INC_def v_def xor.commute)
  have "unat t = unat t div 2 ^ 16 * 2 ^ 16 + n" using n(1) by simp
  then have "unat v = unat t div 2 ^ 16 * 2 ^ 16 + (n - 2 ^ 15 + 1)" using v n(2) by linarith
  moreover have "n - 2 ^ 15 + 1 < 2 ^ 16" using n by simp
  ultimately have "unat (TRANS_N v) = n - 2 ^ 15 + 1" unfolding unat_TRANS by simp
  then have b: "bit v 15 \<longleftrightarrow> n = 2 ^ 16 - 1" using n by (auto simp: bit_15_iff)
  have nn: "TRANS_N t = 0xFFFF \<longleftrightarrow> n = 2 ^ 16 - 1"
    unfolding n_def by (simp add: word_unat_eq_iff)
  show ?thesis
  proof (cases "bit v 15")
    case True
    then show ?thesis using eq xor_bit_15(2) [OF True] b nn by (simp add: v_def top)
  next
    case False
    then show ?thesis using eq xor_bit_15(1) [OF False] b nn by (simp add: v_def)
  qed
qed

lemma begin_tsx_fields:
  "unat (TRANS_N (begin_tsx t)) = (unat (TRANS_N t) + 1) mod 2 ^ 16"
  "TRANS_F (begin_tsx t) = TRANS_F t" "TRANS_HD (begin_tsx t) = TRANS_HD t"
proof -
  define n u where "n = unat t mod 2 ^ 16" and "u = unat t div 2 ^ 16"
  have t: "unat t = u * 2 ^ 16 + n" "n < 2 ^ 16" by (simp_all add: n_def u_def)
  have t64: "unat t < 2 ^ 64" using unsigned_less [of t, where 'a = nat] by simp
  have b: "unat (begin_tsx t) = u * 2 ^ 16 + (n + 1) mod 2 ^ 16"
  proof (cases "n = 2 ^ 16 - 1")
    case True
    then have "TRANS_N t = 0xFFFF" by (simp add: word_unat_eq_iff unat_TRANS n_def)
    then have "begin_tsx t = t - 0xFFFF" by (simp add: begin_tsx_eq)
    then show ?thesis using t True by (simp add: unat_sub word_le_nat_alt)
  next
    case False
    then have "TRANS_N t \<noteq> 0xFFFF" by (simp add: word_unat_eq_iff unat_TRANS n_def)
    moreover have "unat (t + 1) = unat t + 1"
    proof -
      have "u < 2 ^ 48" unfolding u_def by (rule less_mult_imp_div_less) (use t64 in simp)
      then have "u * 2 ^ 16 + n + 1 < 2 ^ 64" using False t(2) by simp
      then show ?thesis using t(1) by (simp add: unat_word_ariths)
    qed
    ultimately show ?thesis using t False by (simp add: begin_tsx_eq)
  qed
  have lt: "(n + 1) mod 2 ^ 16 < 2 ^ 16" by simp
  show "unat (TRANS_N (begin_tsx t)) = (unat (TRANS_N t) + 1) mod 2 ^ 16"
    unfolding unat_TRANS b using t by (simp add: mod_Suc_eq)
  have d: "unat (begin_tsx t) div 2 ^ 16 = unat t div 2 ^ 16" unfolding b t(1) using lt t(2) by simp
  then show "TRANS_F (begin_tsx t) = TRANS_F t" by (simp add: word_unat_eq_iff unat_TRANS)
  have "x div 2 ^ 32 = x div 2 ^ 16 div 2 ^ 16" for x :: nat by (simp flip: div_mult2_eq)
  then show "TRANS_HD (begin_tsx t) = TRANS_HD t" unfolding word_unat_eq_iff unat_TRANS d by (simp only: d)
qed

lemma end_tsx_fields:
  "TRANS_N (end_tsx h t) = TRANS_N t" "TRANS_F (end_tsx h t) = TRANS_N t"
  "TRANS_HD (end_tsx h t) = take_bit 32 (h + 1)"
  unfolding end_tsx_def TRANS_alt TRANS_HD_def Let_def
  by (rule bit_word_eqI; auto simp: bit_simps)+

end
