(* ===== verification/Msg_Ring.thy ===== *)
theory Msg_Ring
  imports Msg_Queue
begin

text \<open>
  The message queue implements a bounded first-in first-out queue: the abstraction
  \<open>ring_items\<close>, the invariant \<open>ring_ok\<close>, and the interpretation of the interface
  \<open>fifo\<close> on the ring. The test for a full queue is made in 64 bits on an index that
  wraps at 32, so the ring keeps its promise only as long as the read index plus
  the mask stays below \<open>2^32\<close>: \<open>ring_budget\<close> counts the removals up to that point,
  and \<open>msg_overrun\<close> shows what happens after it.
\<close>

subsection \<open>Abstraction and invariant\<close>

definition ring_slot :: "act_t \<Rightarrow> nat \<Rightarrow> nat" where
  "ring_slot x k = unat ((header_start (msg_queue x) + of_nat k) AND queue_mask x)"

definition ring_fill :: "act_t \<Rightarrow> nat" where
  "ring_fill x = unat (header_end x - header_start (msg_queue x))"

definition ring_items :: "act_t \<Rightarrow> msg_t list" where
  "ring_items x = map (\<lambda>k. queue_msg (msg_queue x) ! ring_slot x k) [0..<ring_fill x]"

definition ring_cap :: "act_t \<Rightarrow> nat" where
  "ring_cap x = unat (queue_mask x)"

definition ring_budget :: "act_t \<Rightarrow> nat" where
  "ring_budget x = 2 ^ 32 - unat (queue_mask x) - unat (header_start (msg_queue x))"

definition ring_shape :: "nat \<Rightarrow> act_t \<Rightarrow> bool" where
  "ring_shape m x \<longleftrightarrow> m < 32 \<and> queue_mask x = mask m \<and> header_len (msg_queue x) = 2 ^ m
     \<and> length (queue_msg (msg_queue x)) = 2 ^ m"

definition ring_ok :: "act_t \<Rightarrow> bool" where
  "ring_ok x \<longleftrightarrow> (\<exists>m. ring_shape m x) \<and> ring_fill x \<le> ring_cap x"

definition ring_put :: "msg_t \<Rightarrow> act_t \<Rightarrow> act_t option" where
  "ring_put m x = (case try_push m x of Some (r, x') \<Rightarrow> if r = 0 then Some x' else None | None \<Rightarrow> None)"

lemma unat_and_mask: "unat (w AND mask m :: 'a :: len word) = unat w mod 2 ^ m"
  by (simp only: unsigned_take_bit_eq take_bit_eq_mod [where 'a = nat] flip: take_bit_eq_mask)

lemma pow_less_u32: "m < 32 \<Longrightarrow> (2 :: nat) ^ m < 2 ^ 32" "m < 32 \<Longrightarrow> (2 :: nat) ^ m dvd 2 ^ 32"
  by (rule power_strict_increasing; simp) (rule le_imp_power_dvd; simp)

lemma unat_mask_u32: assumes "m < 32" shows "unat (mask m :: u32) = 2 ^ m - 1"
proof -
  have "(mask m :: u32) = of_nat (2 ^ m - 1)" by (simp add: mask_eq_exp_minus_1 of_nat_diff)
  moreover have "(2 :: nat) ^ m - 1 < 2 ^ 32" using pow_less_u32(1) [OF assms] by (rule le_less_trans [rotated]) simp
  ultimately show ?thesis by (simp only: unat_of_nat) simp
qed

lemma ring_slot_eq:
  assumes "ring_shape m x"
  shows "ring_slot x k = (unat (header_start (msg_queue x)) + k) mod 2 ^ m"
proof -
  have m: "queue_mask x = mask m" "m < 32" using assms by (simp_all add: ring_shape_def)
  have "unat (header_start (msg_queue x) + of_nat k :: u32) = (unat (header_start (msg_queue x)) + k) mod 2 ^ 32"
    by (simp add: unat_word_ariths unat_of_nat mod_simps)
  then show ?thesis
    unfolding ring_slot_def m(1) unat_and_mask using mod_mod_cancel [OF pow_less_u32(2) [OF m(2)]] by simp
qed

lemma mod_add_inj:
  assumes "(s + j) mod n = (s + k) mod n" "j < n" "k < (n :: nat)"
  shows "j = k"
proof -
  have "i = l" if "i \<le> l" "l < n" "(s + l) mod n = (s + i) mod n" for i l
    using that mod_eq_dvd_iff_nat [of "s + i" "s + l" n] by (auto dest!: dvd_imp_le)
  then show ?thesis using assms by (metis linear)
qed

subsection \<open>Putting\<close>

lemma header_end_unat: "unat (header_end x) = unat (TRANS_HD (msg_tsx x))"
proof -
  have "unat (TRANS_HD (msg_tsx x)) < 2 ^ 32"
    unfolding unat_TRANS by (rule less_mult_imp_div_less) (use unsigned_less [of "msg_tsx x", where 'a = nat] in simp)
  then show ?thesis
    by (simp add: header_end_def TRANS_HD_def [symmetric] unsigned_ucast_eq take_bit_eq_mod)
qed

lemma header_end_ucast: "ucast (header_end x) = TRANS_HD (msg_tsx x)"
  by (simp add: word_unat_eq_iff header_end_unat [symmetric] unsigned_ucast_eq take_bit_eq_mod
      less_trans [OF unsigned_less])

text \<open>The test for a full queue is exact as long as the read index is low enough.\<close>

lemma queue_full_iff:
  "queue_full x \<longleftrightarrow> unat (header_end x) = unat (header_start (msg_queue x)) + unat (queue_mask x)"
proof -
  have u: "unat (ucast (w :: u32) :: u64) = unat w" for w
    by (simp add: unsigned_ucast_eq take_bit_eq_mod less_trans [OF unsigned_less])
  have lt: "unat w < 2 ^ 32" for w :: u32 using unsigned_less [of w, where 'a = nat] by simp
  have "unat (ucast (header_start (msg_queue x)) + ucast (queue_mask x) :: u64)
      = unat (header_start (msg_queue x)) + unat (queue_mask x)"
    using lt [of "header_start (msg_queue x)"] lt [of "queue_mask x"] by (simp add: unat_word_ariths u)
  then show ?thesis unfolding queue_full_def word_unat_eq_iff header_end_unat by simp
qed

lemma queue_full_fill:
  assumes "0 < ring_budget x"
  shows "queue_full x \<longleftrightarrow> ring_fill x = ring_cap x"
proof -
  have "unat (header_start (msg_queue x)) + unat (queue_mask x) < 2 ^ 32" using assms by (simp add: ring_budget_def)
  moreover have "unat (header_end x) < 2 ^ 32" using unsigned_less [of "header_end x", where 'a = nat] by simp
  ultimately show ?thesis
    by (auto simp: queue_full_iff ring_fill_def ring_cap_def unat_sub_if')
qed

lemma header_end_eq: "header_end x = header_start (msg_queue x) + of_nat (ring_fill x)"
  by (simp add: ring_fill_def)

definition pushed :: "msg_t \<Rightarrow> act_t \<Rightarrow> act_t" where
  "pushed v x = x\<lparr>msg_queue := (msg_queue x)\<lparr>queue_msg := (queue_msg (msg_queue x))[ring_slot x (ring_fill x) := v]\<rparr>,
     msg_tsx := end_tsx (TRANS_HD (msg_tsx x)) (begin_tsx (msg_tsx x))\<rparr>"

lemma pushed_sel [simp]:
  "header_start (msg_queue (pushed v x)) = header_start (msg_queue x)" "queue_mask (pushed v x) = queue_mask x"
  "queue_msg (msg_queue (pushed v x)) = (queue_msg (msg_queue x))[ring_slot x (ring_fill x) := v]"
  "ring_slot (pushed v x) k = ring_slot x k" "ring_shape m (pushed v x) = ring_shape m x"
  by (simp_all add: pushed_def ring_slot_def ring_shape_def)

lemma push_slot_eq:
  assumes sh: "ring_shape m x"
  shows "push_slot v x = Some (pushed v x)" "ring_slot x k < length (queue_msg (msg_queue x))"
    "header_end (pushed v x) = header_end x + 1"
proof -
  have m: "m < 32" "queue_mask x = mask m" "length (queue_msg (msg_queue x)) = 2 ^ m"
    using sh by (simp_all add: ring_shape_def)
  have "unat (header_end x) = (unat (header_start (msg_queue x)) + ring_fill x) mod 2 ^ 32"
    by (subst header_end_eq) (simp add: unat_word_ariths unat_of_nat mod_simps)
  moreover have "(ucast (mask m :: u32) :: u64) = mask m" using m(1) by (simp add: ucast_mask_eq)
  ultimately have slot: "unat (TRANS_HD (msg_tsx x) AND ucast (queue_mask x)) = ring_slot x (ring_fill x)"
    unfolding ring_slot_eq [OF sh] m(2) using mod_mod_cancel [OF pow_less_u32(2) [OF m(1)]]
    by (simp add: unat_and_mask header_end_unat [symmetric])
  show in_range: "ring_slot x k < length (queue_msg (msg_queue x))" for k by (simp add: ring_slot_eq [OF sh] m(3))
  show "push_slot v x = Some (pushed v x)" using in_range by (simp add: push_slot_def Let_def slot pushed_def)
  have "unat (header_end (pushed v x)) = (unat (TRANS_HD (msg_tsx x)) + 1) mod 2 ^ 64 mod 2 ^ 32"
    unfolding header_end_unat by (simp add: pushed_def end_tsx_fields unsigned_take_bit_eq take_bit_eq_mod unat_word_ariths)
  also have "\<dots> = unat (header_end x + 1)" by (simp add: mod_mod_cancel unat_word_ariths header_end_unat)
  finally show "header_end (pushed v x) = header_end x + 1" by (simp add: word_unat_eq_iff)
qed

lemma push_slot_ok:
  assumes sh: "ring_shape m x" and fill: "ring_fill x < 2 ^ m"
  shows "ring_items (pushed v x) = ring_items x @ [v]" "ring_fill (pushed v x) = Suc (ring_fill x)"
proof -
  have m: "m < 32" using sh by (simp add: ring_shape_def)
  have small: "Suc (ring_fill x) < 2 ^ 32" using fill pow_less_u32(1) [OF m] by simp
  have "header_end (pushed v x) - header_start (msg_queue (pushed v x)) = (header_end x - header_start (msg_queue x)) + 1"
    by (simp add: push_slot_eq(3) [OF sh])
  moreover have "unat ((header_end x - header_start (msg_queue x)) + 1) = Suc (ring_fill x)"
    using small unfolding ring_fill_def unat_word_ariths(1) by simp
  ultimately show fill': "ring_fill (pushed v x) = Suc (ring_fill x)" by (simp only: ring_fill_def)
  have "ring_slot x (ring_fill x) \<noteq> ring_slot x k" if "k < ring_fill x" for k
    using mod_add_inj [of "unat (header_start (msg_queue x))" k "2 ^ m" "ring_fill x"] that fill
    by (auto simp: ring_slot_eq [OF sh])
  then show "ring_items (pushed v x) = ring_items x @ [v]"
    using push_slot_eq(2) [OF sh] by (auto simp: ring_items_def fill')
qed

subsection \<open>Getting\<close>

lemma pop_msg_ok:
  assumes sh: "ring_shape m x" and it: "ring_items x = v # vs" and fill: "ring_fill x \<le> 2 ^ m"
  shows "pop_msg x = Some (v, next_msg x)" "ring_shape m (next_msg x)" "ring_items (next_msg x) = vs"
    "ring_fill (next_msg x) = ring_fill x - 1"
proof -
  have pos: "0 < ring_fill x" using arg_cong [OF it, of length] by (simp add: ring_items_def)
  then have ne: "header_start (msg_queue x) \<noteq> header_end x" by (auto simp: ring_fill_def)
  have he: "header_end (next_msg x) = header_end x" by (simp add: header_end_def next_msg_def)
  have "current_slot x = ring_slot x 0"
    using sh by (simp add: current_slot_def ring_slot_def ring_shape_def mask_eq_exp_minus_1)
  moreover have hd: "queue_msg (msg_queue x) ! ring_slot x 0 = v" and tl: "map (\<lambda>k. queue_msg (msg_queue x) ! ring_slot x (Suc k)) [0..<ring_fill x - 1] = vs"
  proof -
    obtain n where n: "ring_fill x = Suc n" using pos by (cases "ring_fill x") auto
    show "queue_msg (msg_queue x) ! ring_slot x 0 = v"
      "map (\<lambda>k. queue_msg (msg_queue x) ! ring_slot x (Suc k)) [0..<ring_fill x - 1] = vs"
      using it unfolding ring_items_def n
      by (simp_all add: upt_conv_Cons comp_def map_Suc_upt [symmetric] del: upt_Suc)
  qed
  ultimately show "pop_msg x = Some (v, next_msg x)" using ne by (simp add: pop_msg_def)
  show "ring_shape m (next_msg x)" using sh by (simp add: ring_shape_def next_msg_def)
  have "header_end (next_msg x) - header_start (msg_queue (next_msg x))
      = (header_end x - header_start (msg_queue x)) - 1" unfolding he by (simp add: next_msg_def)
  moreover have "header_end x - header_start (msg_queue x) \<noteq> 0" using ne by simp
  ultimately show fill': "ring_fill (next_msg x) = ring_fill x - 1"
    unfolding ring_fill_def by (metis unat_minus_one)
  have "ring_slot (next_msg x) k = ring_slot x (Suc k)" for k
    by (simp add: ring_slot_def next_msg_def add.assoc)
  moreover have "queue_msg (msg_queue (next_msg x)) = queue_msg (msg_queue x)" by (simp add: next_msg_def)
  ultimately show "ring_items (next_msg x) = vs" unfolding ring_items_def fill' using tl by simp
qed

subsection \<open>The interface\<close>

interpretation ring: fifo ring_ok ring_items ring_cap ring_budget ring_put pop_msg
proof
  fix q
  show "ring_ok q \<Longrightarrow> length (ring_items q) \<le> ring_cap q" by (simp add: ring_ok_def ring_items_def)
next
  fix q v assume ok: "ring_ok q" and room: "length (ring_items q) < ring_cap q"
  obtain m where m: "ring_shape m q" using ok by (auto simp: ring_ok_def)
  have cap: "ring_cap q = 2 ^ m - 1" using m by (simp add: ring_shape_def ring_cap_def unat_mask_u32)
  have fill: "ring_fill q < ring_cap q" using room by (simp add: ring_items_def)
  have "\<not> queue_full q"
    using fill by (auto simp: queue_full_iff ring_fill_def ring_cap_def unat_sub_if')
  moreover have lt: "ring_fill q < 2 ^ m" using fill cap by simp
  ultimately have put: "ring_put v q = Some (pushed v q)"
    using push_slot_eq(1) [OF m, of v] by (simp add: ring_put_def try_push_def)
  have "ring_ok (pushed v q)" "ring_cap (pushed v q) = ring_cap q" "ring_budget (pushed v q) = ring_budget q"
    using fill m push_slot_ok(2) [OF m lt, of v] by (auto simp: ring_ok_def ring_cap_def ring_budget_def)
  then show "\<exists>q'. ring_put v q = Some q' \<and> ring_ok q' \<and> ring_items q' = ring_items q @ [v]
      \<and> ring_cap q' = ring_cap q \<and> ring_budget q \<le> ring_budget q'"
    using put push_slot_ok(1) [OF m lt, of v] by auto
next
  fix q v assume "ring_ok q" "0 < ring_budget q" "length (ring_items q) = ring_cap q"
  then show "ring_put v q = None" by (simp add: queue_full_fill ring_put_def try_push_def ring_items_def)
next
  fix q v vs assume ok: "ring_ok q" and it: "ring_items q = v # vs"
  show "\<exists>q'. pop_msg q = Some (v, q') \<and> ring_ok q' \<and> ring_items q' = vs \<and> ring_cap q' = ring_cap q
      \<and> ring_budget q \<le> Suc (ring_budget q')"
  proof -
    obtain m where m: "ring_shape m q" using ok by (auto simp: ring_ok_def)
    have "ring_cap q = 2 ^ m - 1" using m by (simp add: ring_shape_def ring_cap_def unat_mask_u32)
    then have "ring_fill q \<le> 2 ^ m" using ok unfolding ring_ok_def by linarith
    note pop = pop_msg_ok [OF m it this]
    have same: "queue_mask (next_msg q) = queue_mask q"
      "header_start (msg_queue (next_msg q)) = header_start (msg_queue q) + 1" by (simp_all add: next_msg_def)
    have "ring_ok (next_msg q)" "ring_cap (next_msg q) = ring_cap q"
      using ok pop(2,4) by (auto simp: ring_ok_def ring_cap_def same)
    moreover have "unat (header_start (msg_queue q) + 1) \<le> Suc (unat (header_start (msg_queue q)))"
      by (simp add: unat_word_ariths)
    ultimately show ?thesis using pop(1,3) by (auto simp: ring_budget_def same)
  qed
next
  fix q assume "ring_items q = []"
  then show "pop_msg q = None" by (auto simp: ring_items_def ring_fill_def pop_msg_def unat_eq_zero)
qed

subsection \<open>Properties\<close>

lemma unat_u64_u32: "unat (ucast (w :: u32) :: u64) = unat w"
  by (simp add: unsigned_ucast_eq take_bit_eq_mod less_trans [OF unsigned_less])

lemma odd_part: "0 < n \<Longrightarrow> \<exists>m q. (n :: nat) = 2 ^ m * q \<and> odd q"
proof (induction n rule: less_induct)
  case (less n)
  show ?case
  proof (cases "odd n")
    case True
    then show ?thesis by (metis mult_1 power_0)
  next
    case False
    then obtain k where k: "n = 2 * k" by blast
    then obtain m q where "k = 2 ^ m * q" "odd q" using less.IH [of k] less.prems by auto
    then have "n = 2 ^ Suc m * q" using k by simp
    then show ?thesis using \<open>odd q\<close> by blast
  qed
qed

lemma odd_and_pred: "odd q \<Longrightarrow> (q :: nat) AND (q - 1) = q - 1"
proof -
  assume "odd q"
  then obtain r where r: "q = Suc (2 * r)" by (auto elim: oddE)
  have "bit (q AND (q - 1)) n = bit (q - 1) n" for n
    unfolding bit_and_iff by (cases n) (simp_all add: r bit_0 bit_Suc)
  then show ?thesis by (simp add: bit_eq_iff)
qed

lemma power_2_mask:
  assumes "is_power_2 (ucast (n :: u32))" "n \<noteq> 0"
  shows "\<exists>m < 32. n = 2 ^ m \<and> n - 1 = mask m"
proof -
  define N where "N = unat n"
  have N: "0 < N" "N < 2 ^ 32" using assms(2) unsigned_less [of n, where 'a = nat] by (simp_all add: N_def unat_gt_0)
  have "ucast n \<noteq> (0 :: u64)" using N(1) unat_u64_u32 [of n] by (auto simp: N_def)
  then have "unat (ucast n - 1 :: u64) = N - 1" by (simp add: unat_minus_one unat_u64_u32 N_def)
  then have and0: "N AND (N - 1) = 0"
    using assms(1) unsigned_and_eq [of "ucast n :: u64" "ucast n - 1", where 'a = nat]
    by (simp add: is_power_2_def unat_u64_u32 N_def)
  obtain m q where q: "N = 2 ^ m * q" "odd q" using odd_part [OF N(1)] by blast
  define r :: nat where "r = 2 ^ m - 1"
  have "N - 1 = 2 ^ m * (q - 1) + r" using q unfolding r_def by (cases q) auto
  moreover have "r < 2 ^ m" by (simp add: r_def)
  ultimately have "(N - 1) div 2 ^ m = q - 1" by simp
  moreover have "N div 2 ^ m = q" using q(1) by simp
  ultimately have "drop_bit m (N AND (N - 1)) = q AND (q - 1)" unfolding drop_bit_and by (simp only: drop_bit_eq_div)
  then have "q AND (q - 1) = 0" unfolding and0 by simp
  then have "q - 1 = 0" unfolding odd_and_pred [OF q(2)] .
  then have "q = 1" using q(2) by (cases q) auto
  then have Nm: "N = 2 ^ m" using q by simp
  then have "m < 32" using N(2) by (simp add: power_strict_increasing_iff [symmetric, of 2 m 32] del: power_strict_increasing_iff)
  moreover have "n = of_nat N" by (simp add: N_def)
  then have "n = 2 ^ m" unfolding Nm by simp
  ultimately show ?thesis by (auto simp: mask_eq_exp_minus_1)
qed

text \<open>An initialised queue is empty and satisfies the invariant.\<close>

lemma msg_queue_init_ok:
  assumes init: "msg_queue_init x bytes mem = Some x'"
    and len: "length mem = unat (ucast ((bytes - SIZEOF_HEADER) div SIZEOF_MSG) :: u32)"
  shows "ring_ok x'" "ring_items x' = []" "ring_cap x' = length mem - 1" "ring_budget x' = 2 ^ 32 - (length mem - 1)"
    "0 < length mem"
proof -
  define n :: u32 where "n = ucast ((bytes - SIZEOF_HEADER) div SIZEOF_MSG)"
  have x': "is_power_2 (ucast n)" "n \<noteq> 0"
    "x' = x\<lparr>msg_queue := \<lparr>header_start = 0, header_len = n, queue_msg = mem\<rparr>, queue_mask := n - 1, msg_tsx := 0\<rparr>"
    using init by (simp_all add: msg_queue_init_def Let_def n_def)
  obtain m where m: "m < 32" "n = 2 ^ m" "n - 1 = mask m" using power_2_mask [OF x'(1,2)] by blast
  have n: "unat n = length mem" using len by (simp add: n_def)
  have he: "header_end x' = 0" by (simp add: header_end_def x'(3))
  have "unat (mask m :: u32) = unat n - 1" using m(3) x'(2) by (simp add: unat_minus_one flip: m(3))
  then have "unat n - 1 = 2 ^ m - 1" using unat_mask_u32 [OF m(1)] by simp
  moreover have "0 < unat n" "(0 :: nat) < 2 ^ m" using x'(2) by (simp_all add: unat_gt_0)
  ultimately have "length mem = 2 ^ m" using n by linarith
  then have "ring_shape m x'" using m by (simp add: ring_shape_def x'(3))
  moreover have "header_start (msg_queue x') = 0" by (simp add: x'(3))
  then have fill: "ring_fill x' = 0" by (simp add: ring_fill_def he)
  ultimately show "ring_ok x'" by (auto simp: ring_ok_def)
  show "ring_items x' = []" by (simp add: ring_items_def fill)
  have "unat (n - 1) = length mem - 1" using n x'(2) by (simp add: unat_minus_one)
  then show "ring_cap x' = length mem - 1" "ring_budget x' = 2 ^ 32 - (length mem - 1)"
    by (simp_all add: ring_cap_def ring_budget_def x'(3))
  show "0 < length mem" using n x'(2) unat_gt_0 [of n] by simp
qed

lemma ring_put_cap: "ring_put m x = Some x' \<Longrightarrow> ring_cap x' = ring_cap x"
  by (auto simp: ring_put_def try_push_def push_slot_def ring_cap_def Let_def split: option.splits if_splits)

lemma run_ops_cap: "run_ops ring_put pop_msg ops x = (a, d, x') \<Longrightarrow> ring_cap x' = ring_cap x"
proof (induction ops arbitrary: x a d)
  case (Cons op ops)
  have pop: "ring_cap (next_msg y) = ring_cap y" for y by (simp add: ring_cap_def next_msg_def)
  show ?case
  proof (cases op)
    case (Put m)
    show ?thesis
    proof (cases "ring_put m x")
      case None
      then show ?thesis using Cons.IH [of x a d] Cons.prems Put by simp
    next
      case (Some y)
      then obtain a' where "run_ops ring_put pop_msg ops y = (a', d, x')"
        using Cons.prems Put by (auto split: prod.splits)
      then show ?thesis using Cons.IH [of y a' d] ring_put_cap [OF Some] by simp
    qed
  next
    case Get
    show ?thesis
    proof (cases "pop_msg x")
      case None
      then show ?thesis using Cons.IH [of x a d] Cons.prems Get by simp
    next
      case (Some my)
      then obtain v where "pop_msg x = Some (v, next_msg x)" by (auto simp: pop_msg_def split: if_splits)
      then obtain d' where "run_ops ring_put pop_msg ops (next_msg x) = (a, d', x')"
        using Cons.prems Get by (auto split: prod.splits)
      then show ?thesis using Cons.IH [of "next_msg x" a d'] pop by simp
    qed
  qed
qed simp

text \<open>
  C5. The message queue is a first-in first-out queue. Start from the queue that
  \<open>msg_queue_init\<close> sets up in a memory block that holds \<open>length mem\<close> messages, and
  let the kernel push and the activation pop in any order, with at most
  \<open>2^32 - length mem\<close> pops. The messages that the activation receives, followed by
  those still in the queue, are exactly the messages that \<open>msg_push\<close> accepted, in
  the order in which it accepted them: no message is lost, duplicated, reordered
  or made up. The queue never holds more than \<open>length mem - 1\<close> messages.
\<close>

theorem msg_queue_fifo:
  assumes "msg_queue_init x bytes mem = Some x0"
    and "length mem = unat (ucast ((bytes - SIZEOF_HEADER) div SIZEOF_MSG) :: u32)"
    and "gets ops \<le> 2 ^ 32 - length mem"
    and "run_ops ring_put pop_msg ops x0 = (accepted, delivered, x1)"
  shows "accepted = delivered @ ring_items x1 \<and> length (ring_items x1) \<le> length mem - 1"
proof -
  note init = msg_queue_init_ok [OF assms(1,2)]
  have "length mem \<le> 2 ^ 32" using assms(2) unsigned_less [of "ucast ((bytes - SIZEOF_HEADER) div SIZEOF_MSG) :: u32", where 'a = nat] by simp
  then have "gets ops < ring_budget x0" using assms(3) init(4,5) by linarith
  from ring.run_fifo [OF init(1) this assms(4)] have f: "ring_ok x1" "accepted = delivered @ ring_items x1"
    using init(2) by auto
  then show ?thesis using ring.bounded [OF f(1)] run_ops_cap [OF assms(4)] init(3) by simp
qed

definition demo_msg :: "u64 \<Rightarrow> msg_t" where
  "demo_msg v = \<lparr>msg_c3 = CNull, msg_c4 = CNull, msg_c5 = CNull, msg_c6 = CNull, msg_c1 = CNull,
     msg_a0 = 0, msg_a1 = 0, msg_a2 = 0, msg_a3 = 0, msg_v0 = v\<rparr>"

theorem msg_queue_fifo_witness:
  "\<exists>x0 x1. msg_queue_init zero_act 288 [demo_msg 0, demo_msg 0] = Some x0
     \<and> run_ops ring_put pop_msg [Put (demo_msg 1), Get, Put (demo_msg 2)] x0 = ([demo_msg 1, demo_msg 2], [demo_msg 1], x1)
     \<and> ring_items x1 = [demo_msg 2]"
proof -
  let ?mem = "[demo_msg 0, demo_msg 0]" and ?ops = "[Put (demo_msg 1), Get, Put (demo_msg 2)]"
  obtain x0 where x0: "msg_queue_init zero_act 288 ?mem = Some x0"
    by (simp add: msg_queue_init_def SIZEOF_HEADER_def SIZEOF_MSG_def is_power_2_def Let_def)
  have "fst (run_ops ring_put pop_msg ?ops (the (msg_queue_init zero_act 288 ?mem))) = [demo_msg 1, demo_msg 2]"
    "fst (snd (run_ops ring_put pop_msg ?ops (the (msg_queue_init zero_act 288 ?mem)))) = [demo_msg 1]"
    by code_simp+
  then obtain x1 where r: "run_ops ring_put pop_msg ?ops x0 = ([demo_msg 1, demo_msg 2], [demo_msg 1], x1)"
    unfolding x0 option.sel by (metis prod.collapse)
  have "gets ?ops \<le> 2 ^ 32 - length ?mem"
    "length ?mem = unat (ucast ((288 - SIZEOF_HEADER) div SIZEOF_MSG :: u64) :: u32)"
    by (simp_all add: SIZEOF_HEADER_def SIZEOF_MSG_def)
  from msg_queue_fifo [OF x0 this(2,1) r] x0 r show ?thesis by auto
qed

text \<open>
  C38. Once the read index is within the queue length of \<open>2^32\<close>, the test for a full
  queue never succeeds, and a sender overruns the queue: two more messages are
  accepted by a queue that is full, and the second one overwrites the oldest
  message, which the activation then never receives.
\<close>

theorem msg_overrun:
  assumes "ring_shape m x" "0 < m" "ring_fill x = ring_cap x"
    and "2 ^ 32 \<le> unat (header_start (msg_queue x)) + unat (queue_mask x)"
  shows "\<exists>x1 x2. ring_put v1 x = Some x1 \<and> ring_put v2 x1 = Some x2 \<and> pop_msg x2 = Some (v2, next_msg x2)
     \<and> ring_items x \<noteq> []"
proof -
  note sh = assms(1)
  let ?y = "pushed v1 x" let ?z = "pushed v2 ?y"
  have m: "m < 32" "queue_mask x = mask m" using sh by (simp_all add: ring_shape_def)
  have cap: "ring_cap x = 2 ^ m - 1" using m by (simp add: ring_cap_def unat_mask_u32)
  have nofull: "\<not> queue_full y" if "header_start (msg_queue y) = header_start (msg_queue x)" "queue_mask y = queue_mask x" for y
    using assms(4) that unsigned_less [of "header_end y", where 'a = nat] by (auto simp: queue_full_iff)
  have sh': "ring_shape m ?y" using sh by simp
  have p1: "ring_put v1 x = Some ?y" using nofull [of x] push_slot_eq(1) [OF sh] by (simp add: ring_put_def try_push_def)
  have p2: "ring_put v2 ?y = Some ?z" using nofull [of ?y] push_slot_eq(1) [OF sh'] by (simp add: ring_put_def try_push_def)
  have "(1 :: nat) < 2 ^ m" using assms(2) by (rule one_less_power [rotated]) simp
  then have lt: "ring_fill x < 2 ^ m" "0 < ring_fill x" using assms(3) cap by simp_all
  have f1: "ring_fill ?y = 2 ^ m" using push_slot_ok(2) [OF sh lt(1), of v1] assms(3) cap by simp
  have "ring_slot x (2 ^ m) = ring_slot x 0" by (simp add: ring_slot_eq [OF sh])
  then have top: "queue_msg (msg_queue ?z) ! ring_slot x 0 = v2"
    using push_slot_eq(2) [OF sh, of 0] f1 by simp
  have "header_end ?z = header_start (msg_queue x) + of_nat (2 ^ m) + 1"
    using push_slot_eq(3) [OF sh'] header_end_eq [of ?y] f1 by simp
  moreover have "(of_nat (2 ^ m) + 1 :: u32) \<noteq> 0"
  proof -
    have "unat (of_nat k + 1 :: u32) = (k + 1) mod 2 ^ 32" for k
      by (simp add: unat_word_ariths unat_of_nat mod_simps)
    from this [of "2 ^ m"] have "unat (of_nat (2 ^ m) + 1 :: u32) = (2 ^ m + 1) mod 2 ^ 32" .
    moreover have "(2 :: nat) ^ m \<le> 2 ^ 31" using m(1) by (intro power_increasing) auto
    ultimately have "unat (of_nat (2 ^ m) + 1 :: u32) \<noteq> 0" by simp
    then show ?thesis by (metis unat_eq_zero)
  qed
  ultimately have ne: "header_start (msg_queue ?z) \<noteq> header_end ?z" by (simp add: add.assoc)
  have "current_slot ?z = ring_slot x 0"
    using sh by (simp add: current_slot_def ring_slot_def ring_shape_def mask_eq_exp_minus_1 pushed_def)
  then have "pop_msg ?z = Some (v2, next_msg ?z)" using ne top by (simp add: pop_msg_def)
  moreover have "ring_items x \<noteq> []" using lt(2) by (simp add: ring_items_def)
  ultimately show ?thesis using p1 p2 by blast
qed

theorem msg_overrun_witness:
  "\<exists>x x1 x2. ring_items x = [demo_msg 7] \<and> ring_put (demo_msg 8) x = Some x1 \<and> ring_put (demo_msg 9) x1 = Some x2
     \<and> pop_msg x2 = Some (demo_msg 9, next_msg x2)"
proof -
  define x where "x = zero_act\<lparr>queue_mask := 1, msg_tsx := 0,
    msg_queue := \<lparr>header_start = 0xFFFFFFFF, header_len = 2, queue_msg = [demo_msg 0, demo_msg 7]\<rparr>\<rparr>"
  have he: "header_end x = 0" by (simp add: x_def header_end_def)
  have "ring_shape 1 x" by (simp add: ring_shape_def x_def mask_eq_exp_minus_1)
  moreover have fill: "ring_fill x = 1" unfolding ring_fill_def he by (simp add: x_def)
  moreover have "ring_cap x = 1" by (simp add: ring_cap_def x_def)
  moreover have "2 ^ 32 \<le> unat (header_start (msg_queue x)) + unat (queue_mask x)" by (simp add: x_def)
  ultimately have "\<exists>x1 x2. ring_put (demo_msg 8) x = Some x1 \<and> ring_put (demo_msg 9) x1 = Some x2
      \<and> pop_msg x2 = Some (demo_msg 9, next_msg x2) \<and> ring_items x \<noteq> []"
    by (intro msg_overrun) auto
  moreover have "ring_items x = [demo_msg 7]" unfolding ring_items_def fill by (simp add: ring_slot_def x_def)
  ultimately show ?thesis by blast
qed

end
