(* ===== verification/Msg.thy ===== *)
theory Msg
  imports Msg_Ring Sched_Fair
begin

text \<open>
  Message passing between activations (\<open>cherios/kernel/src/msg.c\<close>): sending, the
  tokens that entitle the receiver of a synchronous call to one reply, and replying.

  The nanokernel's reservations, from which the kernel carves the indirection
  objects of the tokens, are code outside this component: they are the argument
  \<open>ops\<close>. The object types of the sealing capabilities are arguments too
  (\<open>sealer\<close> for \<open>sync_token_sealer\<close>, \<open>refs\<close> for \<open>ref_sealer\<close>). A call that gives up
  the processor ends with the context switch as its result; what the C function
  does when the caller runs again is described at the result type.
\<close>

definition MIN_OFFSET :: u64 where "MIN_OFFSET = - (push_bit 14 1 div 8)"
definition MAX_OFFSET :: u64 where "MAX_OFFSET = 3 * (push_bit 14 1 div 4)"
definition MAX_SEQ_NS :: u64 where "MAX_SEQ_NS = MAX_OFFSET - MIN_OFFSET"
definition SI_SIZE :: u64 where "SI_SIZE = 2 * 16"
definition RES_SUBFIELD_BITMAP_BITS :: u64 where "RES_SUBFIELD_BITMAP_BITS = 8 * 8"

record res_ops =
  rescap_length :: "nat \<Rightarrow> u64"
  rescap_split :: "nat \<Rightarrow> u64 \<Rightarrow> nat"
  rescap_splitsub :: "nat \<Rightarrow> u64 \<Rightarrow> nat"
  rescap_getsub :: "nat \<Rightarrow> nat \<Rightarrow> nat"
  rescap_take :: "nat \<Rightarrow> nat"

text \<open>The scale of the smallest size that \<open>rescap_splitsub\<close> supports and that is not below \<open>sz\<close>.\<close>

definition size_to_scale :: "u32 \<Rightarrow> u32" where
  "size_to_scale sz =
     (let sz = sz - 1
      in if sz \<le> 8 then sz
         else
           (let shifted = drop_bit 2 sz;
                b4 = (if shifted AND 0xFF00 \<noteq> 0 then 8 else 0 :: u32);
                shifted = drop_bit (unat b4) shifted;
                b3 = (if shifted AND 0xF0 \<noteq> 0 then 4 else 0);
                shifted = drop_bit (unat b3) shifted;
                b2 = (if shifted AND 0xC \<noteq> 0 then 2 else 0);
                shifted = drop_bit (unat b2) shifted;
                b1 = (if shifted AND 2 \<noteq> 0 then 1 else 0);
                lg = b4 OR b3 OR b2 OR b1;
                low_bits = drop_bit (unat lg) sz AND 3
            in low_bits OR push_bit 2 (lg + 1)))"

abbreviation upd_sync :: "nat \<Rightarrow> (sync_state_t \<Rightarrow> sync_state_t) \<Rightarrow> kstate \<Rightarrow> kstate" where
  "upd_sync a f \<equiv> upd_act a (\<lambda>x. x\<lparr>sync_state := f (sync_state x)\<rparr>)"

subsection \<open>Pushing a message\<close>

definition msg_push :: "msg_t \<Rightarrow> nat \<Rightarrow> kstate \<Rightarrow> (int \<times> kstate) option" where
  "msg_push m dest s = do {
     (r, x) \<leftarrow> try_push m (acts s dest);
     let s = upd_act dest (\<lambda>_. x) s;
     if r \<noteq> 0 then Some (r, s)
     else do {
       s \<leftarrow> sched_receive_event dest sched_waiting s;
       Some (0, s)
     }
   }"

subsection \<open>Reply tokens\<close>

definition next_indir_block :: "res_ops \<Rightarrow> nat \<Rightarrow> kstate \<Rightarrow> u64 \<times> kstate" where
  "next_indir_block ops ccaller s =
     (case next_block (sync_state (acts s ccaller)) of
        None \<Rightarrow> (0, s)
      | Some res \<Rightarrow>
          (let len = rescap_length ops res in
           if len < SI_SIZE then (0, s)
           else
             (let max_allos = len div SI_SIZE;
                  big = max_allos > RES_SUBFIELD_BITMAP_BITS;
                  in_block = (if big then RES_SUBFIELD_BITMAP_BITS else max_allos);
                  remain = (if big then Some (rescap_split ops res (RES_SUBFIELD_BITMAP_BITS * SI_SIZE)) else None);
                  res = rescap_splitsub ops res (ucast (size_to_scale (ucast SI_SIZE)))
              in (max_allos * MAX_SEQ_NS,
                  upd_sync ccaller (\<lambda>y. y\<lparr>alloc_block := Some res, allocs_taken := 0,
                    allocs_max := unat in_block, next_block := remain\<rparr>) s))))"

definition alloc_new_indir :: "res_ops \<Rightarrow> nat \<Rightarrow> kstate \<Rightarrow> (nat \<times> kstate) option" where
  "alloc_new_indir ops ccaller s = do {
     let y = sync_state (acts s ccaller);
     s \<leftarrow> (if alloc_block y = None \<or> allocs_taken y = allocs_max y then do {
            let (more, s) = next_indir_block ops ccaller s;
            kassert (more \<noteq> 0);
            Some s
          } else Some s);
     let y = sync_state (acts s ccaller);
     blk \<leftarrow> alloc_block y;
     kassert (allocs_taken y \<noteq> allocs_max y);
     let si = rescap_take ops (rescap_getsub ops blk (allocs_taken y));
     let s = upd_sync ccaller (\<lambda>y. y\<lparr>allocs_taken := allocs_taken y + 1, current_sync_indir := si\<rparr>) s;
     Some (si, s\<lparr>indirs := (indirs s)(si := \<lparr>si_act = ccaller, sync_add = sync_token y\<rparr>)\<rparr>)
   }"

definition get_and_set_sealed_sync_token :: "res_ops \<Rightarrow> u64 \<Rightarrow> nat \<Rightarrow> kstate \<Rightarrow> (capability \<times> kstate) option" where
  "get_and_set_sealed_sync_token ops sealer ccaller s = do {
     kassert (sync_condition (sync_state (acts s ccaller)) = 0);
     let sn = sync_token (sync_state (acts s ccaller));
     let si = current_sync_indir (sync_state (acts s ccaller));
     (si, s) \<leftarrow> (if sn - sync_add (indirs s si) = MAX_SEQ_NS then alloc_new_indir ops ccaller s else Some (si, s));
     let s = upd_sync ccaller (\<lambda>y. y\<lparr>sync_condition := 1\<rparr>) s;
     let sn = sn - sync_add (indirs s si);
     kassert (sn < MAX_SEQ_NS);
     tok \<leftarrow> cheri_seal (Cap si (sn + MIN_OFFSET) None) sealer;
     Some (tok, s)
   }"

definition token_expected :: "u64 \<Rightarrow> capability \<Rightarrow> kstate \<Rightarrow> (nat option \<times> kstate) option" where
  "token_expected sealer token s = do {
     token \<leftarrow> cheri_unseal token sealer;
     let si = indirs s (cap_base token);
     let got = cap_off token - MIN_OFFSET + sync_add si;
     let ccaller = si_act si;
     if sync_token (sync_state (acts s ccaller)) = got
     then Some (Some ccaller, upd_sync ccaller (\<lambda>y. y\<lparr>sync_token := got + 1\<rparr>) s)
     else Some (None, s)
   }"

definition kernel_syscall_provide_sync :: "res_ops \<Rightarrow> nat \<Rightarrow> nat \<Rightarrow> kstate \<Rightarrow> u64 \<times> kstate" where
  "kernel_syscall_provide_sync ops caller res s =
     next_indir_block ops caller (upd_sync caller (\<lambda>y. y\<lparr>next_block := Some (rescap_split ops res 0)\<rparr>) s)"

subsection \<open>Sending\<close>

datatype ccall_selector_t = SEND | SEND_SWITCH | SYNC_CALL

text \<open>
  How \<open>kernel_message_send_ret\<close> ends or gives up the processor: it returns
  \<open>source->ret\<close>; it blocks, and returns \<open>source->ret\<close> when it runs again; it gives
  way to the receiver and runs \<open>send_done\<close> when it runs again; or the queue is full,
  it gives way to the receiver and tries the same push with the same token again.
\<close>

datatype send_result = SendReturns | SendBlocks switch | SendYields switch | SendRetries switch capability

definition act_unseal_ref :: "u64 \<Rightarrow> capability \<Rightarrow> nat option" where
  "act_unseal_ref refs c = map_option cap_base (cheri_unseal c refs)"

definition send_done :: "nat \<Rightarrow> kstate \<Rightarrow> kstate" where
  "send_done source s = upd_act source (\<lambda>x. x\<lparr>ret := \<lparr>ret_c3 = CNull, ret_v0 = 0, ret_v1 = 0\<rparr>\<rparr>) s"

definition send_push :: "nat \<Rightarrow> u32 \<Rightarrow> msg_t \<Rightarrow> capability \<Rightarrow> nat \<Rightarrow> ccall_selector_t \<Rightarrow> nat \<Rightarrow> kstate
    \<Rightarrow> (send_result \<times> kstate) option" where
  "send_push cpu count m tok tgt selector source s = do {
     (res, s) \<leftarrow> msg_push (m\<lparr>msg_c1 := tok\<rparr>) tgt s;
     if res \<noteq> 0 then do {
       (sw, s) \<leftarrow> sched_reschedule cpu (Some tgt) False s;
       Some (SendRetries sw tok, s)
     } else (case selector of
         SYNC_CALL \<Rightarrow> do {
           (sw, s) \<leftarrow> sched_block_until_event cpu count (Some source) (Some tgt) sched_sync_block 0 False s;
           Some (SendBlocks sw, s)
         }
       | SEND_SWITCH \<Rightarrow>
           (if pool_id (acts s source) = pool_id (acts s tgt) then do {
              (sw, s) \<leftarrow> sched_reschedule cpu (Some tgt) False s;
              Some (SendYields sw, s)
            } else Some (SendReturns, send_done source s))
       | SEND \<Rightarrow> Some (SendReturns, send_done source s))
   }"

definition kernel_message_send_ret :: "nat \<Rightarrow> u32 \<Rightarrow> res_ops \<Rightarrow> u64 \<Rightarrow> u64 \<Rightarrow> msg_t \<Rightarrow> capability \<Rightarrow> ccall_selector_t
    \<Rightarrow> nat \<Rightarrow> kstate \<Rightarrow> (send_result \<times> kstate) option" where
  "kernel_message_send_ret cpu count ops sealer refs m tgt_ref selector source s = do {
     tgt \<leftarrow> act_unseal_ref refs tgt_ref;
     if status (acts s tgt) \<noteq> status_alive
     then Some (SendReturns, upd_act source (\<lambda>x. x\<lparr>ret := \<lparr>ret_c3 = CNull, ret_v0 = - 1, ret_v1 = - 1\<rparr>\<rparr>) s)
     else do {
       (tok, s) \<leftarrow> (if selector = SYNC_CALL then get_and_set_sealed_sync_token ops sealer source s
                   else Some (CNull, s));
       send_push cpu count m tok tgt selector source s
     }
   }"

subsection \<open>Replying\<close>

definition set_message_reply :: "u64 \<Rightarrow> capability \<Rightarrow> u64 \<Rightarrow> u64 \<Rightarrow> capability \<Rightarrow> kstate \<Rightarrow> (nat \<times> kstate) option" where
  "set_message_reply sealer c3 v0 v1 token s = do {
     kassert (token \<noteq> CNull);
     (returned_to, s) \<leftarrow> token_expected sealer token s;
     to \<leftarrow> returned_to;
     let s = upd_act to (\<lambda>x. x\<lparr>ret := \<lparr>ret_c3 = c3, ret_v0 = v0, ret_v1 = v1\<rparr>\<rparr>) s;
     s \<leftarrow> sched_receive_event to sched_sync_block s;
     Some (to, s)
   }"

definition kernel_message_reply :: "nat \<Rightarrow> u64 \<Rightarrow> capability \<Rightarrow> u64 \<Rightarrow> u64 \<Rightarrow> capability \<Rightarrow> bool \<Rightarrow> kstate
    \<Rightarrow> (switch \<times> kstate) option" where
  "kernel_message_reply cpu sealer c3 v0 v1 token hint_switch s = do {
     (to, s) \<leftarrow> set_message_reply sealer c3 v0 v1 token s;
     if hint_switch then sched_reschedule cpu (Some to) False s else Some (NoSwitch, s)
   }"

text \<open>When the caller runs again, \<open>fastpath_bailout\<close> returns \<open>v0 = 0\<close> and its \<open>ret.v1\<close>.\<close>

definition fastpath_bailout :: "nat \<Rightarrow> u32 \<Rightarrow> u64 \<Rightarrow> nat \<Rightarrow> capability \<Rightarrow> u64 \<Rightarrow> u64 \<Rightarrow> capability \<Rightarrow> u64 \<Rightarrow> bool \<Rightarrow> kstate
    \<Rightarrow> (switch \<times> kstate) option" where
  "fastpath_bailout cpu count sealer caller c3 v0 v1 reply_token timeout notify_is_timeout s = do {
     (returned_to, s) \<leftarrow> (if reply_token \<noteq> CNull then do {
          (to, s) \<leftarrow> set_message_reply sealer c3 v0 v1 reply_token s;
          Some (Some to, s)
        } else Some (None, s));
     let events = (if notify_is_timeout then sched_waiting OR sched_wait_notify else sched_waiting);
     sched_block_until_event cpu count (Some caller) returned_to events timeout False s
   }"

subsection \<open>What scheduling leaves alone\<close>

text \<open>\<open>ipc_view\<close>: the message queues, the reply state and the life status of all activations.\<close>

definition ipc_view :: "kstate \<Rightarrow> (nat \<Rightarrow> bool \<times> status_e \<times> queue_t \<times> u32 \<times> u64 \<times> sync_state_t) \<times> (nat \<Rightarrow> sync_indirection)" where
  "ipc_view s = (\<lambda>a. (is_idle (acts s a), status (acts s a), msg_queue (acts s a), queue_mask (acts s a), msg_tsx (acts s a),
     sync_state (acts s a)), indirs s)"

lemma ipc_viewD:
  assumes "ipc_view s' = ipc_view s"
  shows "is_idle (acts s' a) = is_idle (acts s a)"
    "status (acts s' a) = status (acts s a)" "msg_queue (acts s' a) = msg_queue (acts s a)"
    "queue_mask (acts s' a) = queue_mask (acts s a)" "msg_tsx (acts s' a) = msg_tsx (acts s a)"
    "sync_state (acts s' a) = sync_state (acts s a)" "indirs s' = indirs s"
  using assms by (auto simp: ipc_view_def fun_eq_iff)

lemma ipc_view_upd [simp]:
  "(\<And>x. is_idle (f x) = is_idle x \<and> status (f x) = status x \<and> msg_queue (f x) = msg_queue x \<and> queue_mask (f x) = queue_mask x
      \<and> msg_tsx (f x) = msg_tsx x \<and> sync_state (f x) = sync_state x) \<Longrightarrow> ipc_view (upd_act a f s) = ipc_view s"
  "ipc_view (upd_pool p g s) = ipc_view s" "ipc_view (upd_q p l h s) = ipc_view s"
  "ipc_view (unlock_act a s) = ipc_view s" "ipc_view (unlock_pool p s) = ipc_view s"
  "ipc_view (sched_deschedule a s) = ipc_view s"
  "ipc_view (s\<lparr>sleeps := sl\<rparr>) = ipc_view s"
  "ipc_view (kernel_timer_start_count cpu count a s) = ipc_view s"
  by (auto simp: ipc_view_def upd_act_def upd_pool_def upd_q_def unlock_act_def unlock_pool_def
      sched_deschedule_def kernel_timer_start_count_def fun_eq_iff)

lemma ipc_view_queue:
  "lock_act a s = Some s' \<Longrightarrow> ipc_view s' = ipc_view s"
  "lock_pool p s = Some s' \<Longrightarrow> ipc_view s' = ipc_view s"
  "add_act_to_queue p a st s = Some s' \<Longrightarrow> ipc_view s' = ipc_view s"
  "delete_act_from_queue p a st s = Some s' \<Longrightarrow> ipc_view s' = ipc_view s"
  "kernel_timer_unsubcsribe a s = Some s' \<Longrightarrow> ipc_view s' = ipc_view s"
  "sched_block a st s = Some s' \<Longrightarrow> ipc_view s' = ipc_view s"
  "kernel_timer_subscribe cpu count a t s = Some s' \<Longrightarrow> ipc_view s' = ipc_view s"
  by (auto simp: lock_act_def lock_pool_def add_act_to_queue_def delete_act_from_queue_def sched_block_def
      kernel_timer_unsubcsribe_def kernel_timer_subscribe_def Let_def bind_Some_conv split: if_splits option.splits)

lemma set_fast_res_ipc [simp]:
  "is_idle (set_fast_res c x) = is_idle x"
  "status (set_fast_res c x) = status x" "msg_queue (set_fast_res c x) = msg_queue x"
  "queue_mask (set_fast_res c x) = queue_mask x" "msg_tsx (set_fast_res c x) = msg_tsx x"
  "sync_state (set_fast_res c x) = sync_state x"
  by (simp_all add: set_fast_res_def)

lemma ipc_view_receive:
  assumes "sched_receive_event a ev s = Some s'" "ev AND sched_sync_block = 0"
  shows "ipc_view s' = ipc_view s"
proof -
  have "(ev AND NOT sched_waiting) AND sched_sync_block = (ev AND sched_sync_block) AND NOT sched_waiting"
    by (simp add: ac_simps)
  then have "(ev AND NOT sched_waiting) AND sched_sync_block = 0" using assms(2) by simp
  then show ?thesis using assms
    by (auto simp: sched_receive_event_def Let_def bind_Some_conv split: if_splits dest!: ipc_view_queue)
qed

lemma ipc_view_picknext:
  assumes "sched_picknext p s = Some (n, s')" shows "ipc_view s' = ipc_view s"
proof -
  obtain s1 where s1: "lock_pool p s = Some s1" using assms by (auto simp: sched_picknext_def bind_Some_conv)
  obtain l qs where pl: "picked_level (queues (sched_pools s1 p)) = (l, qs)" by force
  show ?thesis using assms ipc_view_queue(2) [OF s1]
    by (auto simp: sched_picknext_def s1 pl Let_def bind_Some_conv split: if_splits dest!: ipc_view_queue)
qed

lemma ipc_view_reschedule:
  "sched_reschedule cpu hint in_exc s = Some (sw, s') \<Longrightarrow> ipc_view s' = ipc_view s"
  by (auto simp: sched_reschedule_def sched_schedule_def Let_def bind_Some_conv
      split: if_splits option.splits dest!: ipc_view_queue ipc_view_picknext)

lemma ipc_view_block:
  "sched_block_until_event cpu count act hint ev t in_exc s = Some (sw, s') \<Longrightarrow> ipc_view s' = ipc_view s"
  by (auto simp: sched_block_until_event_def Let_def bind_Some_conv
      split: if_splits dest!: ipc_view_queue ipc_view_reschedule)

subsection \<open>Pushing wakes the receiver\<close>

lemma try_push_fields:
  assumes "try_push m y = Some (r, x)"
  obtains q w where "x = y\<lparr>msg_queue := q, msg_tsx := w\<rparr>"
proof (cases "queue_full y")
  case True
  then have "x = y\<lparr>msg_queue := msg_queue y, msg_tsx := msg_tsx y\<rparr>" using assms by (simp add: try_push_def)
  then show thesis by (rule that)
next
  case False
  then show thesis using assms that by (auto simp: try_push_def push_slot_def Let_def)
qed

lemma ring_put_try: "ring_put m x = Some x' \<longleftrightarrow> try_push m x = Some (0, x')"
  by (auto simp: ring_put_def split: option.splits if_splits)

lemma msg_push_ok:
  assumes inv: "kernel_inv A s" and t: "t \<in> A" "\<not> is_idle (acts s t)" and put: "ring_put m (acts s t) = Some x"
    and ne: "header_start (msg_queue x) \<noteq> header_end x"
  shows "\<exists>s'. msg_push m t s = Some (0, s') \<and> kernel_inv A s' \<and> ipc_view s' = ipc_view (upd_act t (\<lambda>_. x) s)
    \<and> sched_status (acts s' t) = (if sched_status (acts s t) AND sched_waiting \<noteq> 0 then sched_runnable
                                  else sched_status (acts s t))
    \<and> (\<forall>b. b \<noteq> t \<longrightarrow> sched_status (acts s' b) = sched_status (acts s b))
    \<and> (\<forall>p. current_act (sched_pools s' p) = current_act (sched_pools s p)
         \<and> idle_act (sched_pools s' p) = idle_act (sched_pools s p))"
proof -
  define s1 where "s1 = upd_act t (\<lambda>_. x) s"
  obtain q w where x: "x = (acts s t)\<lparr>msg_queue := q, msg_tsx := w\<rparr>"
    using try_push_fields put unfolding ring_put_try by blast
  have v: "same_view s s1" unfolding s1_def by (rule same_view_upd_act) (simp add: x act_view_def)
  have "unlocked s1" using kernel_invD(2) [OF inv] by (auto simp: s1_def unlocked_but_def x)
  then have inv1: "kernel_inv A s1" by (rule kernel_inv_view [OF inv v])
  have st1: "sched_status (acts s1 b) = sched_status (acts s b)" "sched_pools s1 = sched_pools s"
    "is_idle (acts s1 b) = is_idle (acts s b)" for b by (simp_all add: s1_def x)
  have low: "sched_waiting AND 0xF = 0" "sched_waiting AND sched_sync_block = 0" by (simp_all add: sched_status_defs)
  have "acts s1 t = x" by (simp add: s1_def)
  then have ev: "effective_events sched_waiting (acts s1 t) = sched_waiting"
    using ne by (simp add: effective_events_def header_end_def)
  have notidle: "\<not> is_idle (acts s1 t)" using t(2) st1 by simp
  have sync: "sched_waiting AND sched_sync_block \<noteq> 0 \<longrightarrow> sync_condition (sync_state (acts s1 t)) = 1" using low by simp
  obtain s' where s': "sched_receive_event t sched_waiting s1 = Some s'" "kernel_inv A s'"
    "sched_status (acts s1 t) AND sched_waiting \<noteq> 0 \<Longrightarrow> sched_status (acts s' t) = sched_runnable"
    "sched_status (acts s1 t) AND sched_waiting = 0 \<Longrightarrow> sched_status (acts s' t) = sched_status (acts s1 t)"
    "\<And>b. b \<noteq> t \<Longrightarrow> sched_status (acts s' b) = sched_status (acts s1 b)"
    "\<And>p. current_act (sched_pools s' p) = current_act (sched_pools s1 p)"
    "\<And>p. idle_act (sched_pools s' p) = idle_act (sched_pools s1 p)"
    by (rule receive_ok [OF inv1 t(1) notidle low(1) sync]) (use that in \<open>auto simp: ev\<close>)
  have "msg_push m t s = Some (0, s')" using put s'(1) by (simp add: ring_put_try msg_push_def s1_def)
  then show ?thesis
    using s'(2-7) [unfolded st1] ipc_view_receive [OF s'(1) low(2), unfolded s1_def] by simp
qed

lemma ring_put_nonempty:
  assumes "ring_ok x" "ring_put m x = Some x'" "length (ring_items x) < ring_cap x"
  shows "header_start (msg_queue x') \<noteq> header_end x'"
proof -
  have "ring_items x' = ring_items x @ [m]" using ring.put_room [OF assms(1,3), of m] assms(2) by auto
  then show ?thesis by (auto simp: ring_items_def ring_fill_def)
qed

lemma ring_cong:
  assumes "msg_queue x = msg_queue y" "queue_mask x = queue_mask y" "msg_tsx x = msg_tsx y"
  shows "ring_items x = ring_items y" "ring_ok x = ring_ok y" "ring_cap x = ring_cap y"
proof -
  have "header_end x = header_end y" using assms by (simp add: header_end_def)
  then show "ring_items x = ring_items y" "ring_ok x = ring_ok y" "ring_cap x = ring_cap y"
    using assms by (simp_all add: ring_items_def ring_ok_def ring_slot_def ring_fill_def ring_cap_def ring_shape_def)
qed

text \<open>
  C16. A message reaches its receiver: if the receiver's queue has room, \<open>msg_push\<close>
  returns 0, appends the message to the receiver's queue, changes no other queue,
  keeps the scheduler's invariant, and makes a receiver that was blocked waiting for
  a message runnable. No other activation changes its scheduling state.
\<close>

theorem msg_push_delivers:
  assumes "kernel_inv A s" "t \<in> A" "\<not> is_idle (acts s t)" "ring_ok (acts s t)"
    and "length (ring_items (acts s t)) < ring_cap (acts s t)"
  shows "\<exists>s'. msg_push m t s = Some (0, s') \<and> kernel_inv A s'
    \<and> ring_ok (acts s' t) \<and> ring_items (acts s' t) = ring_items (acts s t) @ [m]
    \<and> (\<forall>b. b \<noteq> t \<longrightarrow> msg_queue (acts s' b) = msg_queue (acts s b) \<and> msg_tsx (acts s' b) = msg_tsx (acts s b)
          \<and> sched_status (acts s' b) = sched_status (acts s b))
    \<and> (sched_status (acts s t) AND sched_waiting \<noteq> 0 \<longrightarrow> sched_status (acts s' t) = sched_runnable)"
proof -
  obtain x where x: "ring_put m (acts s t) = Some x" "ring_ok x" "ring_items x = ring_items (acts s t) @ [m]"
    using ring.put_room [OF assms(4,5), of m] by blast
  have ne: "header_start (msg_queue x) \<noteq> header_end x" by (rule ring_put_nonempty [OF assms(4) x(1) assms(5)])
  obtain s' where s': "msg_push m t s = Some (0, s')" "kernel_inv A s'" "ipc_view s' = ipc_view (upd_act t (\<lambda>_. x) s)"
    "sched_status (acts s' t) = (if sched_status (acts s t) AND sched_waiting \<noteq> 0 then sched_runnable
                                  else sched_status (acts s t))"
    "\<forall>b. b \<noteq> t \<longrightarrow> sched_status (acts s' b) = sched_status (acts s b)"
    using msg_push_ok [OF assms(1-3) x(1) ne] by blast
  note v = ipc_viewD [OF s'(3)]
  have same: "msg_queue (acts s' t) = msg_queue x" "queue_mask (acts s' t) = queue_mask x" "msg_tsx (acts s' t) = msg_tsx x"
    using v(3-5) [of t] by simp_all
  then have "ring_items (acts s' t) = ring_items x" "ring_ok (acts s' t) = ring_ok x" by (rule ring_cong)+
  then show ?thesis using s' x(2,3) v(3,5) by simp
qed

text \<open>
  For the witnesses: the booted kernel with a queue of two slots for activation 3 and
  the first indirection object of activation 2 at address 9.
\<close>

definition demo_ipc :: kstate where
  "demo_ipc = (upd_act 2 (\<lambda>x. x\<lparr>sync_state := (sync_state x)\<lparr>current_sync_indir := 9\<rparr>\<rparr>)
     (upd_act 3 (\<lambda>x. x\<lparr>msg_queue := \<lparr>header_start = 0, header_len = 2, queue_msg = [demo_msg 0, demo_msg 0]\<rparr>,
        queue_mask := 1, msg_tsx := 0\<rparr>) demo))\<lparr>indirs := (\<lambda>_. \<lparr>si_act = 2, sync_add = 0\<rparr>)\<rparr>"

lemma demo_ipc_inv: "kernel_inv {1, 2, 3} demo_ipc"
proof (rule kernel_inv_view [OF demo_inv])
  show "same_view demo demo_ipc" by (simp add: demo_ipc_def same_view_def act_view_def)
  show "unlocked demo_ipc" using kernel_invD(2) [OF demo_inv] by (auto simp: demo_ipc_def unlocked_but_def)
qed

lemma demo_ipc_sel:
  "acts demo_ipc 3 = (acts demo 3)\<lparr>msg_queue := \<lparr>header_start = 0, header_len = 2, queue_msg = [demo_msg 0, demo_msg 0]\<rparr>,
        queue_mask := 1, msg_tsx := 0\<rparr>"
  "acts demo_ipc 2 = (acts demo 2)\<lparr>sync_state := (sync_state (acts demo 2))\<lparr>current_sync_indir := 9\<rparr>\<rparr>"
  "sched_pools demo_ipc = sched_pools demo" "indirs demo_ipc = (\<lambda>_. \<lparr>si_act = 2, sync_add = 0\<rparr>)"
  by (simp_all add: demo_ipc_def)

lemma demo_ipc_ring:
  "ring_ok (acts demo_ipc 3)" "ring_items (acts demo_ipc 3) = []" "ring_cap (acts demo_ipc 3) = 1"
proof -
  define x where "x = acts demo_ipc 3"
  have x: "msg_queue x = \<lparr>header_start = 0, header_len = 2, queue_msg = [demo_msg 0, demo_msg 0]\<rparr>"
    "queue_mask x = 1" "msg_tsx x = 0" by (simp_all add: x_def demo_ipc_sel)
  then have fill: "ring_fill x = 0" by (simp add: ring_fill_def header_end_def)
  have "ring_shape 1 x" by (simp add: x ring_shape_def mask_eq_exp_minus_1)
  then have "ring_ok x" unfolding ring_ok_def fill by auto
  moreover have "ring_items x = []" "ring_cap x = 1" by (simp_all add: ring_items_def fill ring_cap_def x)
  ultimately show "ring_ok (acts demo_ipc 3)" "ring_items (acts demo_ipc 3) = []" "ring_cap (acts demo_ipc 3) = 1"
    by (simp_all only: x_def)
qed

theorem msg_push_delivers_witness:
  "\<exists>s'. msg_push (demo_msg 5) 3 demo_ipc = Some (0, s') \<and> ring_items (acts s' 3) = [demo_msg 5]"
proof -
  have "\<not> is_idle (acts demo_ipc 3)" by (simp add: demo_ipc_sel demo_defs)
  moreover have "length (ring_items (acts demo_ipc 3)) < ring_cap (acts demo_ipc 3)" by (simp add: demo_ipc_ring)
  ultimately show ?thesis
    using msg_push_delivers [OF demo_ipc_inv _ _ demo_ipc_ring(1), of "demo_msg 5"] demo_ipc_ring(2) by auto
qed

subsection \<open>Synchronous calls\<close>

text \<open>
  The state in which an activation may make a synchronous call: it expects no reply,
  its current indirection object is its own, and the sequence number fits in it.
\<close>

definition may_call :: "nat \<Rightarrow> kstate \<Rightarrow> bool" where
  "may_call a s \<longleftrightarrow> (let y = sync_state (acts s a); si = indirs s (current_sync_indir y) in
     sync_condition y = 0 \<and> si_act si = a \<and> sync_token y - sync_add si < MAX_SEQ_NS)"

definition call_token :: "u64 \<Rightarrow> nat \<Rightarrow> kstate \<Rightarrow> capability" where
  "call_token sealer a s = (let y = sync_state (acts s a) in
     Cap (current_sync_indir y) (sync_token y - sync_add (indirs s (current_sync_indir y)) + MIN_OFFSET) (Some sealer))"

lemma get_token_eq:
  assumes "may_call a s"
  shows "get_and_set_sealed_sync_token ops sealer a s
    = Some (call_token sealer a s, upd_sync a (\<lambda>y. y\<lparr>sync_condition := 1\<rparr>) s)"
  using assms
  by (auto simp: get_and_set_sealed_sync_token_def may_call_def call_token_def Let_def)

lemma token_expected_call:
  assumes "may_call a s" "sync_token (sync_state (acts s' a)) = sync_token (sync_state (acts s a))" "indirs s' = indirs s"
  shows "token_expected sealer (call_token sealer a s) s'
    = Some (Some a, upd_sync a (\<lambda>y. y\<lparr>sync_token := sync_token y + 1\<rparr>) s')"
  using assms by (simp add: token_expected_def call_token_def may_call_def Let_def upd_act_def)

lemma send_sync_ok:
  assumes inv: "kernel_inv A s" and cur: "current_act (sched_pools s cpu) = Some a" "\<not> is_idle (acts s a)"
    "idle_act (sched_pools s cpu) \<noteq> None"
    and t: "t \<in> A" "\<not> is_idle (acts s t)" "status (acts s t) = status_alive" "ring_ok (acts s t)"
    "length (ring_items (acts s t)) < ring_cap (acts s t)"
    and ref: "act_unseal_ref refs c = Some t" and call: "may_call a s"
  shows "\<exists>sw s1. kernel_message_send_ret cpu count ops sealer refs m c SYNC_CALL a s = Some (SendBlocks sw, s1)
    \<and> kernel_inv A s1 \<and> sched_status (acts s1 a) = sched_sync_block \<and> current_act (sched_pools s1 cpu) \<noteq> Some a
    \<and> ring_items (acts s1 t) = ring_items (acts s t) @ [m\<lparr>msg_c1 := call_token sealer a s\<rparr>]
    \<and> sync_state (acts s1 a) = (sync_state (acts s a))\<lparr>sync_condition := 1\<rparr> \<and> indirs s1 = indirs s"
proof -
  define m' where "m' = m\<lparr>msg_c1 := call_token sealer a s\<rparr>"
  define s0 where "s0 = upd_sync a (\<lambda>y. y\<lparr>sync_condition := 1\<rparr>) s"
  have v0: "same_view s s0" unfolding s0_def by (rule same_view_upd_act) (simp add: act_view_def)
  have "unlocked s0" using kernel_invD(2) [OF inv] by (auto simp: s0_def unlocked_but_def)
  then have inv0: "kernel_inv A s0" by (rule kernel_inv_view [OF inv v0])
  have f0: "msg_queue (acts s0 b) = msg_queue (acts s b)" "queue_mask (acts s0 b) = queue_mask (acts s b)"
    "msg_tsx (acts s0 b) = msg_tsx (acts s b)" "is_idle (acts s0 b) = is_idle (acts s b)"
    "sched_pools s0 = sched_pools s" "sched_status (acts s0 b) = sched_status (acts s b)" "indirs s0 = indirs s"
    "sync_state (acts s0 a) = (sync_state (acts s a))\<lparr>sync_condition := 1\<rparr>" for b by (simp_all add: s0_def)
  note ring0 = ring_cong [OF f0(1) [of t] f0(2) [of t] f0(3) [of t]]
  obtain x where x: "ring_put m' (acts s0 t) = Some x" "ring_items x = ring_items (acts s0 t) @ [m']"
    using ring.put_room [of "acts s0 t" m'] t(4,5) unfolding ring0 by auto
  have ne: "header_start (msg_queue x) \<noteq> header_end x"
    by (rule ring_put_nonempty [OF _ x(1)]) (use t(4,5) in \<open>simp_all add: ring0\<close>)
  obtain s1 where s1: "msg_push m' t s0 = Some (0, s1)" "kernel_inv A s1" "ipc_view s1 = ipc_view (upd_act t (\<lambda>_. x) s0)"
    "\<forall>p. current_act (sched_pools s1 p) = current_act (sched_pools s0 p)
         \<and> idle_act (sched_pools s1 p) = idle_act (sched_pools s0 p)"
    using msg_push_ok [OF inv0 t(1) _ x(1) ne] t(2) f0(4) by auto
  obtain q w where xf: "x = (acts s0 t)\<lparr>msg_queue := q, msg_tsx := w\<rparr>"
    using try_push_fields x(1) unfolding ring_put_try by blast
  have f1: "sync_state (acts s1 a) = (sync_state (acts s a))\<lparr>sync_condition := 1\<rparr>" "indirs s1 = indirs s"
    "is_idle (acts s1 a) = is_idle (acts s a)"
    using ipc_viewD(1,6) [OF s1(3), of a] ipc_viewD(7) [OF s1(3)] f0(4,7,8) by (auto simp: xf)
  have cur1: "current_act (sched_pools s1 cpu) = Some a" "idle_act (sched_pools s1 cpu) \<noteq> None" "\<not> is_idle (acts s1 a)"
    using s1(4) cur f0(5) f1(3) by simp_all
  have ev: "sched_sync_block AND 0xF = 0" "sched_sync_block AND sched_sem = 0" "sched_sync_block \<noteq> 0 \<or> (0 :: u64) < 0"
    "sched_sync_block AND sched_wait_timeout \<noteq> 0 \<longrightarrow> (0 :: u64) < 0" by (simp_all add: sched_status_defs)
  have fe: "full_events sched_sync_block 0 = sched_sync_block" by (simp add: full_events_def)
  have got: "got_event_of sched_sync_block (acts s1 a) = 0"
    using f1(1) by (simp add: got_event_of_def sched_status_defs)
  obtain sw s2 where s2: "sched_block_until_event cpu count (Some a) (Some t) sched_sync_block 0 False s1 = Some (sw, s2)"
    "kernel_inv A s2" "sched_status (acts s2 a) = sched_sync_block" "current_act (sched_pools s2 cpu) \<noteq> Some a"
    by (rule block_ok [where act = "Some a" and hint = "Some t" and events = sched_sync_block and timeout = 0
          and count = count and in_exc = False, OF s1(2) cur1(1,3) _ cur1(2) _ ev])
       (use t(1) got that in \<open>auto simp: fe\<close>)
  have v2: "ipc_view s2 = ipc_view (upd_act t (\<lambda>_. x) s0)" using ipc_view_block [OF s2(1)] s1(3) by simp
  have "ring_items (acts s2 t) = ring_items x"
    by (rule ring_cong(1)) (use ipc_viewD(3-5) [OF v2, of t] in simp_all)
  moreover have "sync_state (acts s2 a) = sync_state (acts s1 a)" "indirs s2 = indirs s1"
    using ipc_viewD(6,7) [OF ipc_view_block [OF s2(1)]] by simp_all
  moreover have "kernel_message_send_ret cpu count ops sealer refs m c SYNC_CALL a s = Some (SendBlocks sw, s2)"
    using ref t(3) s1(1) s2(1) get_token_eq [OF call, of ops sealer]
    by (simp add: kernel_message_send_ret_def send_push_def s0_def m'_def)
  ultimately show ?thesis using s2(2-4) f1 x(2) ring0(1) by (auto simp: m'_def)
qed

lemma reply_ok:
  assumes inv: "kernel_inv A s'" and a: "a \<in> A" "\<not> is_idle (acts s' a)" "sched_status (acts s' a) = sched_sync_block"
    and call: "may_call a s" and same: "indirs s' = indirs s"
    "sync_state (acts s' a) = (sync_state (acts s a))\<lparr>sync_condition := 1\<rparr>"
  shows "\<exists>s2. set_message_reply sealer c3 v0 v1 (call_token sealer a s) s' = Some (a, s2)
    \<and> kernel_inv A s2 \<and> sched_status (acts s2 a) = sched_runnable
    \<and> ret (acts s2 a) = \<lparr>ret_c3 = c3, ret_v0 = v0, ret_v1 = v1\<rparr>
    \<and> sync_condition (sync_state (acts s2 a)) = 0
    \<and> sync_token (sync_state (acts s2 a)) = sync_token (sync_state (acts s a)) + 1 \<and> indirs s2 = indirs s"
proof -
  define s1 where "s1 = upd_act a (\<lambda>x. x\<lparr>ret := \<lparr>ret_c3 = c3, ret_v0 = v0, ret_v1 = v1\<rparr>\<rparr>)
    (upd_sync a (\<lambda>y. y\<lparr>sync_token := sync_token y + 1\<rparr>) s')"
  have f1: "is_idle (acts s1 a) = is_idle (acts s' a)" "sched_status (acts s1 a) = sched_sync_block"
    "sync_state (acts s1 a) = (sync_state (acts s a))\<lparr>sync_condition := 1, sync_token := sync_token (sync_state (acts s a)) + 1\<rparr>"
    "ret (acts s1 a) = \<lparr>ret_c3 = c3, ret_v0 = v0, ret_v1 = v1\<rparr>" "indirs s1 = indirs s"
    using a(3) same by (simp_all add: s1_def)
  have v: "same_view s' s1" by (simp add: s1_def same_view_def act_view_def)
  have "unlocked s1" using kernel_invD(2) [OF inv] by (auto simp: s1_def unlocked_but_def)
  then have inv1: "kernel_inv A s1" by (rule kernel_inv_view [OF inv v])
  have tok: "token_expected sealer (call_token sealer a s) s'
      = Some (Some a, upd_sync a (\<lambda>y. y\<lparr>sync_token := sync_token y + 1\<rparr>) s')"
    by (rule token_expected_call [OF call]) (simp_all add: same)
  have low: "sched_sync_block AND 0xF = 0" "sched_sync_block AND sched_sync_block = sched_sync_block"
    "sched_sync_block AND sched_wait_timeout = 0" "sched_sync_block AND sched_waiting = 0"
    "sched_sync_block AND (sched_wait_notify OR sched_wait_timeout) = 0" "sched_sync_block \<noteq> 0"
    "sched_waiting AND sched_sync_block = 0"
    by (simp_all add: sched_status_defs)
  have ev: "effective_events sched_sync_block (acts s1 a) = sched_sync_block"
    by (simp add: effective_events_def low)
  have sync: "sched_sync_block AND sched_sync_block \<noteq> 0 \<longrightarrow> sync_condition (sync_state (acts s1 a)) = 1"
    using f1(3) by simp
  define s3 where "s3 = upd_act a (\<lambda>x. (set_fast_res sched_sync_block (pre_wake sched_sync_block x))\<lparr>woke_from := sched_sync_block\<rparr>) s1"
  have unf: "sched_receive_event a sched_sync_block s1 = do {
      s4 \<leftarrow> add_act_to_queue (a_pool s3 a) a sched_runnable s3; Some (unlock_act a s4) }"
    using receive_unfold(1) [OF kernel_invD(4) [OF inv1] sync] low f1(2) unfolding ev s3_def by (simp add: Let_def)
  obtain s2 where s2: "sched_receive_event a sched_sync_block s1 = Some s2" "kernel_inv A s2"
    "sched_status (acts s2 a) = sched_runnable"
    by (rule receive_ok [OF inv1 a(1) _ low(1) sync]) (use a(2) f1(1,2) low that in \<open>auto simp: ev\<close>)
  then obtain s4 where s4: "add_act_to_queue (a_pool s3 a) a sched_runnable s3 = Some s4" "s2 = unlock_act a s4"
    using unf by (auto simp: bind_Some_conv)
  have "ret (acts s4 a) = ret (acts s3 a)"
    using s4(1) by (auto simp: add_act_to_queue_def lock_pool_def unlock_pool_def upd_q_def Let_def split: if_splits)
  moreover have "ret (acts s3 a) = ret (acts s1 a)"
    by (simp add: s3_def set_fast_res_def low pre_wake_def)
  ultimately have "ret (acts s2 a) = \<lparr>ret_c3 = c3, ret_v0 = v0, ret_v1 = v1\<rparr>" using s4(2) f1(4) by (simp add: unlock_act_def)
  moreover have "sync_state (acts s2 a) = (sync_state (acts s a))\<lparr>sync_condition := 0, sync_token := sync_token (sync_state (acts s a)) + 1\<rparr>"
    "indirs s2 = indirs s"
    using ipc_viewD(6,7) [OF ipc_view_queue(3) [OF s4(1)]] f1(3,5) s4(2) by (auto simp: s3_def pre_wake_def low unlock_act_def)
  moreover have "set_message_reply sealer c3 v0 v1 (call_token sealer a s) s' = Some (a, s2)"
    using tok s2(1) by (simp add: set_message_reply_def s1_def) (simp add: call_token_def Let_def)
  ultimately show ?thesis using s2(2,3) by simp
qed

text \<open>
  C6. A synchronous call returns what the receiver replied. The caller is the
  running activation, the receiver is alive and its queue has room. The call appends
  the message with a reply token to the receiver's queue and blocks the caller. From
  then on, in every state in which the caller is still blocked in this call, a reply
  with that token is accepted, makes the caller runnable again and leaves the reply
  in the caller's return registers; the kernel invariant holds throughout.
\<close>

theorem sync_call_round_trip:
  assumes "kernel_inv A s" "current_act (sched_pools s cpu) = Some a" "\<not> is_idle (acts s a)"
    and "idle_act (sched_pools s cpu) \<noteq> None" "t \<in> A" "\<not> is_idle (acts s t)" "status (acts s t) = status_alive"
    and "ring_ok (acts s t)" "length (ring_items (acts s t)) < ring_cap (acts s t)"
    and "act_unseal_ref refs c = Some t" "may_call a s"
  shows "\<exists>sw s1. kernel_message_send_ret cpu count ops sealer refs m c SYNC_CALL a s = Some (SendBlocks sw, s1)
    \<and> kernel_inv A s1 \<and> sched_status (acts s1 a) = sched_sync_block \<and> current_act (sched_pools s1 cpu) \<noteq> Some a
    \<and> ring_items (acts s1 t) = ring_items (acts s t) @ [m\<lparr>msg_c1 := call_token sealer a s\<rparr>]
    \<and> (\<forall>s'. kernel_inv A s' \<and> sched_status (acts s' a) = sched_sync_block \<and> \<not> is_idle (acts s' a)
          \<and> sync_state (acts s' a) = sync_state (acts s1 a) \<and> indirs s' = indirs s1 \<longrightarrow>
        (\<exists>s2. set_message_reply sealer c3 v0 v1 (call_token sealer a s) s' = Some (a, s2) \<and> kernel_inv A s2
           \<and> sched_status (acts s2 a) = sched_runnable
           \<and> ret (acts s2 a) = \<lparr>ret_c3 = c3, ret_v0 = v0, ret_v1 = v1\<rparr>))"
proof -
  obtain sw s1 where s1: "kernel_message_send_ret cpu count ops sealer refs m c SYNC_CALL a s = Some (SendBlocks sw, s1)"
    "kernel_inv A s1" "sched_status (acts s1 a) = sched_sync_block" "current_act (sched_pools s1 cpu) \<noteq> Some a"
    "ring_items (acts s1 t) = ring_items (acts s t) @ [m\<lparr>msg_c1 := call_token sealer a s\<rparr>]"
    "sync_state (acts s1 a) = (sync_state (acts s a))\<lparr>sync_condition := 1\<rparr>" "indirs s1 = indirs s"
    using send_sync_ok [OF assms] by blast
  have "a \<in> A" using kernel_invD(7) [OF assms(1,2)] by simp
  then have "\<exists>s2. set_message_reply sealer c3 v0 v1 (call_token sealer a s) s' = Some (a, s2) \<and> kernel_inv A s2
           \<and> sched_status (acts s2 a) = sched_runnable
           \<and> ret (acts s2 a) = \<lparr>ret_c3 = c3, ret_v0 = v0, ret_v1 = v1\<rparr>"
    if "kernel_inv A s'" "sched_status (acts s' a) = sched_sync_block" "\<not> is_idle (acts s' a)"
      "sync_state (acts s' a) = sync_state (acts s1 a)" "indirs s' = indirs s1" for s'
    using reply_ok [OF that(1) _ that(3,2) assms(11), of sealer c3 v0 v1] that(4,5) s1(6,7) by auto
  with s1(1-5) show ?thesis by blast
qed

lemma demo_may_call: "may_call 2 demo_ipc"
  by (simp add: may_call_def demo_ipc_sel demo_defs MAX_SEQ_NS_def MAX_OFFSET_def MIN_OFFSET_def)

definition demo_ops :: res_ops where
  "demo_ops = \<lparr>rescap_length = (\<lambda>_. 0), rescap_split = (\<lambda>r _. r), rescap_splitsub = (\<lambda>r _. r),
     rescap_getsub = (\<lambda>r _. r), rescap_take = (\<lambda>r. r)\<rparr>"

theorem sync_call_round_trip_witness:
  "\<exists>sw s1. kernel_message_send_ret 0 0 demo_ops 77 78 (demo_msg 5) (Cap 3 0 (Some 78)) SYNC_CALL 2 demo_ipc = Some (SendBlocks sw, s1)
     \<and> ring_items (acts s1 3) = [(demo_msg 5)\<lparr>msg_c1 := Cap 9 MIN_OFFSET (Some 77)\<rparr>]"
proof -
  have d: "current_act (sched_pools demo_ipc 0) = Some 2" "\<not> is_idle (acts demo_ipc 2)"
    "idle_act (sched_pools demo_ipc 0) \<noteq> None" "\<not> is_idle (acts demo_ipc 3)" "status (acts demo_ipc 3) = status_alive"
    by (simp_all add: demo_ipc_sel demo_defs)
  have "call_token 77 2 demo_ipc = Cap 9 MIN_OFFSET (Some 77)"
    by (simp add: call_token_def demo_ipc_sel demo_defs)
  moreover have "act_unseal_ref 78 (Cap 3 0 (Some 78)) = Some 3" by (simp add: act_unseal_ref_def)
  moreover have "length (ring_items (acts demo_ipc 3)) < ring_cap (acts demo_ipc 3)" by (simp add: demo_ipc_ring)
  ultimately show ?thesis
    using sync_call_round_trip [OF demo_ipc_inv d(1-3) _ d(4,5) demo_ipc_ring(1) _ _ demo_may_call,
        of 78 "Cap 3 0 (Some 78)" 0 demo_ops 77 "demo_msg 5"] demo_ipc_ring(2)
    by (simp only: append_Nil) blast
qed

text \<open>
  An activation whose indirection object is used up and that has not provided
  memory for another one panics the kernel with its next synchronous call.
\<close>

theorem sync_exhausted_panics:
  assumes "sync_token (sync_state (acts s a)) - sync_add (indirs s (current_sync_indir (sync_state (acts s a)))) = MAX_SEQ_NS"
    and "next_block (sync_state (acts s a)) = None" "alloc_block (sync_state (acts s a)) = None"
    and "act_unseal_ref refs c = Some t" "status (acts s t) = status_alive"
  shows "kernel_message_send_ret cpu count ops sealer refs m c SYNC_CALL a s = None"
  using assms by (simp add: kernel_message_send_ret_def get_and_set_sealed_sync_token_def alloc_new_indir_def
      next_indir_block_def Let_def)

theorem sync_exhausted_panics_witness:
  "kernel_message_send_ret 0 0 demo_ops 77 78 (demo_msg 5) (Cap 3 0 (Some 78)) SYNC_CALL 2
     (upd_sync 2 (\<lambda>y. y\<lparr>sync_token := MAX_SEQ_NS\<rparr>) demo_ipc) = None"
  by (rule sync_exhausted_panics [where t = 3]) (simp_all add: act_unseal_ref_def demo_ipc_sel demo_defs)

end
