(* ===== verification/Msg_Tokens.thy ===== *)
theory Msg_Tokens
  imports Msg
begin

text \<open>
  The life of the reply tokens of \<open>cherios/kernel/src/msg.c\<close> over a history of sends,
  replies and the rest of the kernel: no token is issued twice, and none is accepted twice.

  The histories are runs of \<open>ipc_step\<close>, whose steps are whole calls of the message
  component. With the state a run carries the set of the indirection objects taken so
  far: the nanokernel's \<open>rescap_take\<close> turns a reservation into memory once, so an object
  that a call takes is not one of these (\<open>fresh_indir\<close>).
\<close>

abbreviation sync_of :: "nat \<Rightarrow> kstate \<Rightarrow> sync_state_t" where
  "sync_of a s \<equiv> sync_state (acts s a)"

abbreviation indir_of :: "nat \<Rightarrow> kstate \<Rightarrow> nat" where
  "indir_of a s \<equiv> current_sync_indir (sync_of a s)"

definition fresh_indir :: "nat set \<Rightarrow> nat \<Rightarrow> kstate \<Rightarrow> kstate \<Rightarrow> bool" where
  "fresh_indir U a s s' \<longleftrightarrow> ((indirs s', indir_of a s') \<noteq> (indirs s, indir_of a s) \<longrightarrow> indir_of a s' \<notin> U)"

text \<open>
  The steps for the activations of \<open>A\<close>: a send, a send that tries again after it found
  the queue full (or the rest of a send whose token has been made), the two ways of
  replying, memory provided for further objects, and any other activity of the kernel,
  which concerns neither the reply state of \<open>A\<close> nor the objects in use.
\<close>

inductive ipc_step :: "u64 \<Rightarrow> u64 \<Rightarrow> nat set \<Rightarrow> kstate \<times> nat set \<Rightarrow> kstate \<times> nat set \<Rightarrow> bool"
  for sealer refs A where
  send: "a \<in> A \<Longrightarrow> kernel_message_send_ret cpu count ops sealer refs m c sel a s = Some (r, s')
    \<Longrightarrow> fresh_indir U a s s' \<Longrightarrow> ipc_step sealer refs A (s, U) (s', insert (indir_of a s') U)"
| push: "send_push cpu count m tok t sel a s = Some (r, s') \<Longrightarrow> ipc_step sealer refs A (s, U) (s', U)"
| reply: "kernel_message_reply cpu sealer c3 v0 v1 tok hint s = Some (sw, s') \<Longrightarrow> ipc_step sealer refs A (s, U) (s', U)"
| bailout: "fastpath_bailout cpu count sealer a c3 v0 v1 tok t nt s = Some (sw, s') \<Longrightarrow> ipc_step sealer refs A (s, U) (s', U)"
| provide: "kernel_syscall_provide_sync ops a res s = (n, s') \<Longrightarrow> ipc_step sealer refs A (s, U) (s', U)"
| other: "\<forall>a\<in>A. sync_of a s' = sync_of a s \<Longrightarrow> \<forall>i\<in>U. indirs s' i = indirs s i \<Longrightarrow> ipc_step sealer refs A (s, U) (s', U)"

text \<open>Every activation's current object is in use and its own.\<close>

definition owns_indirs :: "nat set \<Rightarrow> kstate \<times> nat set \<Rightarrow> bool" where
  "owns_indirs A c \<longleftrightarrow> (case c of (s, U) \<Rightarrow> \<forall>a\<in>A. indir_of a s \<in> U \<and> si_act (indirs s (indir_of a s)) = a)"

text \<open>
  What a step may do to an activation's reply state: the sequence number stays and an
  expected reply stays expected, or the number grows by one.
\<close>

definition sync_le :: "sync_state_t \<Rightarrow> sync_state_t \<Rightarrow> bool" where
  "sync_le y y' \<longleftrightarrow> sync_token y' = sync_token y \<and> (sync_condition y = 1 \<longrightarrow> sync_condition y' = 1)
     \<or> sync_token y' = sync_token y + 1"

lemma sync_le_refl [simp]: "sync_le y y"
  by (simp add: sync_le_def)

subsection \<open>What the operations do to the reply state\<close>

lemma receive_sync:
  assumes "sched_receive_event a ev s = Some s'"
  shows "indirs s' = indirs s" "b \<noteq> a \<Longrightarrow> sync_of b s' = sync_of b s"
    "\<exists>n. sync_of a s' = (sync_of a s)\<lparr>sync_condition := n\<rparr>"
proof -
  obtain s1 where s1: "lock_act a s = Some s1" using assms by (auto simp: sched_receive_event_def bind_Some_conv)
  have "ipc_view s' = ipc_view s1 \<or> ipc_view s' = ipc_view (upd_sync a (\<lambda>y. y\<lparr>sync_condition := 0\<rparr>) s1)"
    using assms by (auto simp: sched_receive_event_def s1 Let_def bind_Some_conv split: if_splits dest!: ipc_view_queue)
  then obtain s2 where s2: "s2 = s1 \<or> s2 = upd_sync a (\<lambda>y. y\<lparr>sync_condition := 0\<rparr>) s1" "ipc_view s' = ipc_view s2" by blast
  note v = ipc_viewD(6,7) [OF s2(2)] ipc_viewD(6,7) [OF ipc_view_queue(1) [OF s1]]
  show "indirs s' = indirs s" "b \<noteq> a \<Longrightarrow> sync_of b s' = sync_of b s" using s2(1) v by auto
  show "\<exists>n. sync_of a s' = (sync_of a s)\<lparr>sync_condition := n\<rparr>"
    by (rule exI [of _ "sync_condition (sync_of a s')"]) (use s2(1) v in auto)
qed

lemma reply_sync:
  assumes "set_message_reply sealer c3 v0 v1 tok s = Some (a, s')"
  obtains n t where "indirs s' = indirs s" "\<forall>b. b \<noteq> a \<longrightarrow> sync_of b s' = sync_of b s"
    "sync_of a s' = (sync_of a s)\<lparr>sync_token := sync_token (sync_of a s) + 1, sync_condition := n\<rparr>"
    "cheri_unseal tok sealer = Some t" "a = si_act (indirs s (cap_base t))"
    "sync_token (sync_of a s) = cap_off t - MIN_OFFSET + sync_add (indirs s (cap_base t))"
proof -
  obtain t where t: "cheri_unseal tok sealer = Some t" "a = si_act (indirs s (cap_base t))"
    "sync_token (sync_of a s) = cap_off t - MIN_OFFSET + sync_add (indirs s (cap_base t))"
    and r: "sched_receive_event a sched_sync_block (upd_act a (\<lambda>x. x\<lparr>ret := \<lparr>ret_c3 = c3, ret_v0 = v0, ret_v1 = v1\<rparr>\<rparr>)
        (upd_sync a (\<lambda>y. y\<lparr>sync_token := sync_token (sync_of a s) + 1\<rparr>) s)) = Some s'"
    using assms by (auto simp: set_message_reply_def token_expected_def Let_def bind_Some_conv split: if_splits)
  show thesis using receive_sync [OF r] t that by auto
qed

lemma push_sync:
  assumes "send_push cpu count m tok t sel a s = Some (r, s')"
  shows "indirs s' = indirs s" "sync_of b s' = sync_of b s" "is_idle (acts s' b) = is_idle (acts s b)"
proof -
  obtain n s1 where s1: "msg_push (m\<lparr>msg_c1 := tok\<rparr>) t s = Some (n, s1)" using assms by (auto simp: send_push_def bind_Some_conv)
  obtain k x where x: "try_push (m\<lparr>msg_c1 := tok\<rparr>) (acts s t) = Some (k, x)" using s1 by (auto simp: msg_push_def bind_Some_conv)
  obtain q w where xf: "x = (acts s t)\<lparr>msg_queue := q, msg_tsx := w\<rparr>" by (rule try_push_fields [OF x])
  have "sched_waiting AND sched_sync_block = 0" by (simp add: sched_status_defs)
  then have v1: "ipc_view s1 = ipc_view (upd_act t (\<lambda>_. x) s)"
    using s1 by (auto simp: msg_push_def x Let_def bind_Some_conv split: if_splits dest!: ipc_view_receive)
  have "ipc_view s' = ipc_view s1"
    using assms by (auto simp: send_push_def s1 send_done_def bind_Some_conv split: if_splits ccall_selector_t.splits
        dest!: ipc_view_reschedule ipc_view_block)
  then show "indirs s' = indirs s" "sync_of b s' = sync_of b s" "is_idle (acts s' b) = is_idle (acts s b)"
    using ipc_viewD(1) [of s' s1 b] ipc_viewD(1) [OF v1, of b] ipc_viewD(6) [of s' s1 b] ipc_viewD(7) [of s' s1] ipc_viewD(6) [OF v1, of b] ipc_viewD(7) [OF v1] by (auto simp: xf)
qed

lemma provide_sync:
  assumes "kernel_syscall_provide_sync ops a res s = (n, s')"
  shows "indirs s' = indirs s" "sync_token (sync_of b s') = sync_token (sync_of b s)"
    "sync_condition (sync_of b s') = sync_condition (sync_of b s)" "indir_of b s' = indir_of b s"
  using assms by (auto simp: kernel_syscall_provide_sync_def next_indir_block_def Let_def upd_act_def split: if_splits option.splits)

lemma alloc_sync:
  assumes "alloc_new_indir ops a s = Some (si, s')"
  shows "indir_of a s' = si" "indirs s' = (indirs s)(si := \<lparr>si_act = a, sync_add = sync_token (sync_of a s)\<rparr>)"
    "sync_token (sync_of b s') = sync_token (sync_of b s)" "sync_condition (sync_of b s') = sync_condition (sync_of b s)"
    "b \<noteq> a \<Longrightarrow> sync_of b s' = sync_of b s"
  using assms by (auto simp: alloc_new_indir_def next_indir_block_def Let_def bind_Some_conv upd_act_def split: if_splits option.splits)

text \<open>
  A new token: its object is the caller's current one afterwards, and either nothing was
  taken or the new object starts at the caller's sequence number.
\<close>

lemma get_token_sync:
  assumes "get_and_set_sealed_sync_token ops sealer a s = Some (tok, s')"
  shows "\<exists>sn. tok = Cap (indir_of a s') (sn + MIN_OFFSET) (Some sealer) \<and> sn < MAX_SEQ_NS
      \<and> sn = sync_token (sync_of a s) - sync_add (indirs s' (indir_of a s'))"
    "sync_condition (sync_of a s) = 0" "sync_condition (sync_of a s') = 1"
    "sync_token (sync_of b s') = sync_token (sync_of b s)" "b \<noteq> a \<Longrightarrow> sync_of b s' = sync_of b s"
    "(indirs s', indir_of a s') = (indirs s, indir_of a s)
      \<or> (indirs s', indir_of a s') \<noteq> (indirs s, indir_of a s)
        \<and> indirs s' = (indirs s)(indir_of a s' := \<lparr>si_act = a, sync_add = sync_token (sync_of a s)\<rparr>)"
proof -
  let ?y = "sync_of a s"
  have c: "sync_condition ?y = 0" using assms by (auto simp: get_and_set_sealed_sync_token_def bind_Some_conv)
  obtain si s1 where s1: "(if sync_token ?y - sync_add (indirs s (current_sync_indir ?y)) = MAX_SEQ_NS
      then alloc_new_indir ops a s else Some (current_sync_indir ?y, s)) = Some (si, s1)"
    and s': "s' = upd_sync a (\<lambda>y. y\<lparr>sync_condition := 1\<rparr>) s1" "sync_token ?y - sync_add (indirs s1 si) < MAX_SEQ_NS"
      "tok = Cap si (sync_token ?y - sync_add (indirs s1 si) + MIN_OFFSET) (Some sealer)"
    using assms c by (auto simp: get_and_set_sealed_sync_token_def Let_def bind_Some_conv)
  show "\<exists>sn. tok = Cap (indir_of a s') (sn + MIN_OFFSET) (Some sealer) \<and> sn < MAX_SEQ_NS
      \<and> sn = sync_token (sync_of a s) - sync_add (indirs s' (indir_of a s'))"
    using s' s1 alloc_sync(1) by (auto split: if_splits)
  show "sync_condition (sync_of a s) = 0" "sync_condition (sync_of a s') = 1" using c s' by simp_all
  show "sync_token (sync_of b s') = sync_token (sync_of b s)" "b \<noteq> a \<Longrightarrow> sync_of b s' = sync_of b s"
    using s' s1 alloc_sync(3,5) by (auto simp: upd_act_def split: if_splits)
  have "MAX_SEQ_NS \<noteq> 0" by (simp add: MAX_SEQ_NS_def MAX_OFFSET_def MIN_OFFSET_def)
  then show "(indirs s', indir_of a s') = (indirs s, indir_of a s)
      \<or> (indirs s', indir_of a s') \<noteq> (indirs s, indir_of a s)
        \<and> indirs s' = (indirs s)(indir_of a s' := \<lparr>si_act = a, sync_add = sync_token (sync_of a s)\<rparr>)"
    using s' s1 alloc_sync(1,2) by (auto simp: fun_eq_iff split: if_splits)
qed

lemma send_sync:
  assumes "kernel_message_send_ret cpu count ops sealer refs m c sel a s = Some (r, s')"
  shows "sync_le (sync_of b s) (sync_of b s')" "b \<noteq> a \<Longrightarrow> indir_of b s' = indir_of b s"
    "(indirs s', indir_of a s') = (indirs s, indir_of a s)
      \<or> (indirs s', indir_of a s') \<noteq> (indirs s, indir_of a s)
        \<and> indirs s' = (indirs s)(indir_of a s' := \<lparr>si_act = a, sync_add = sync_token (sync_of a s)\<rparr>)"
proof -
  obtain t where t: "act_unseal_ref refs c = Some t" using assms by (auto simp: kernel_message_send_ret_def bind_Some_conv)
  consider "status (acts s t) \<noteq> status_alive" | "status (acts s t) = status_alive" "sel \<noteq> SYNC_CALL"
    | "status (acts s t) = status_alive" "sel = SYNC_CALL" by blast
  then have "sync_le (sync_of b s) (sync_of b s') \<and> (b \<noteq> a \<longrightarrow> indir_of b s' = indir_of b s)
    \<and> ((indirs s', indir_of a s') = (indirs s, indir_of a s)
      \<or> (indirs s', indir_of a s') \<noteq> (indirs s, indir_of a s)
        \<and> indirs s' = (indirs s)(indir_of a s' := \<lparr>si_act = a, sync_add = sync_token (sync_of a s)\<rparr>))"
  proof cases
    case 1
    then show ?thesis using assms t by (auto simp: kernel_message_send_ret_def upd_act_def)
  next
    case 2
    then have p: "send_push cpu count m CNull t sel a s = Some (r, s')" using assms t by (simp add: kernel_message_send_ret_def)
    show ?thesis using push_sync [OF p] by simp
  next
    case 3
    then obtain tok s1 where gp: "get_and_set_sealed_sync_token ops sealer a s = Some (tok, s1)"
      "send_push cpu count m tok t sel a s1 = Some (r, s')"
      using assms t by (auto simp: kernel_message_send_ret_def bind_Some_conv)
    note g = get_token_sync [OF gp(1)] and p = push_sync [OF gp(2)]
    have "sync_le (sync_of b s) (sync_of b s1)" using g(2-5) by (cases "b = a") (auto simp: sync_le_def)
    then show ?thesis using g(5,6) p by simp
  qed
  then show "sync_le (sync_of b s) (sync_of b s')" "b \<noteq> a \<Longrightarrow> indir_of b s' = indir_of b s"
    "(indirs s', indir_of a s') = (indirs s, indir_of a s)
      \<or> (indirs s', indir_of a s') \<noteq> (indirs s, indir_of a s)
        \<and> indirs s' = (indirs s)(indir_of a s' := \<lparr>si_act = a, sync_add = sync_token (sync_of a s)\<rparr>)" by simp_all
qed

lemma replies_sync:
  assumes "set_message_reply sealer c3 v0 v1 tok s = Some (a, s')"
  shows "indirs s' = indirs s" "sync_le (sync_of b s) (sync_of b s')" "indir_of b s' = indir_of b s"
proof -
  obtain n where n: "indirs s' = indirs s" "\<forall>b. b \<noteq> a \<longrightarrow> sync_of b s' = sync_of b s"
    "sync_of a s' = (sync_of a s)\<lparr>sync_token := sync_token (sync_of a s) + 1, sync_condition := n\<rparr>"
    by (rule reply_sync [OF assms])
  show "indirs s' = indirs s" by (rule n)
  show "sync_le (sync_of b s) (sync_of b s')" "indir_of b s' = indir_of b s"
    using n(2,3) by (cases "b = a"; simp add: sync_le_def)+
qed

subsection \<open>Histories\<close>

lemma taken_frame:
  assumes "\<And>b. b \<noteq> a \<Longrightarrow> indir_of b s' = indir_of b s"
    and "(indirs s', indir_of a s') = (indirs s, indir_of a s)
      \<or> (indirs s', indir_of a s') \<noteq> (indirs s, indir_of a s)
        \<and> indirs s' = (indirs s)(indir_of a s' := \<lparr>si_act = a, sync_add = sync_token (sync_of a s)\<rparr>)"
    and "fresh_indir U a s s'"
  shows "\<forall>i\<in>U. indirs s' i = indirs s i"
    "owns_indirs A (s, U) \<Longrightarrow> owns_indirs A (s', insert (indir_of a s') U)"
proof -
  show i: "\<forall>i\<in>U. indirs s' i = indirs s i" using assms(2,3) by (auto simp: fresh_indir_def)
  assume o: "owns_indirs A (s, U)"
  show "owns_indirs A (s', insert (indir_of a s') U)"
    unfolding owns_indirs_def prod.case
  proof
    fix b assume "b \<in> A"
    then have b: "indir_of b s \<in> U" "si_act (indirs s (indir_of b s)) = b" using o by (simp_all add: owns_indirs_def)
    show "indir_of b s' \<in> insert (indir_of a s') U \<and> si_act (indirs s' (indir_of b s')) = b"
    proof (cases "b = a")
      case True
      then show ?thesis using assms(2) b by auto
    next
      case False
      then show ?thesis using assms(1) i b by simp
    qed
  qed
qed

lemma ipc_step_frame:
  assumes "ipc_step sealer refs A (s, U) (s', U')"
  shows "U \<subseteq> U' \<and> (\<forall>i\<in>U. indirs s' i = indirs s i) \<and> (\<forall>a\<in>A. sync_le (sync_of a s) (sync_of a s'))
    \<and> (owns_indirs A (s, U) \<longrightarrow> owns_indirs A (s', U'))"
  using assms
proof cases
  case (send a cpu count ops m c sel r)
  note e = send_sync [OF send(3)]
  show ?thesis using taken_frame [OF e(2,3) send(4)] e(1) send(1) by auto
next
  case (push cpu count m tok t sel a r)
  show ?thesis using push_sync [OF push(2)] push(1) by (simp add: owns_indirs_def)
next
  case (reply cpu c3 v0 v1 tok hint sw)
  then obtain a s1 where s1: "set_message_reply sealer c3 v0 v1 tok s = Some (a, s1)" and v: "ipc_view s' = ipc_view s1"
    by (auto simp: kernel_message_reply_def bind_Some_conv split: if_splits dest: ipc_view_reschedule)
  show ?thesis using replies_sync [OF s1] ipc_viewD(6,7) [OF v] reply(1) by (simp add: owns_indirs_def)
next
  case (bailout cpu count a c3 v0 v1 tok t nt sw)
  then obtain s1 where s1: "s1 = s \<or> (\<exists>b. set_message_reply sealer c3 v0 v1 tok s = Some (b, s1))" and v: "ipc_view s' = ipc_view s1"
    by (auto simp: fastpath_bailout_def Let_def bind_Some_conv split: if_splits dest: ipc_view_block)
  show ?thesis using s1 replies_sync ipc_viewD(6,7) [OF v] bailout(1) by (auto simp: owns_indirs_def)
next
  case (provide ops a res n)
  show ?thesis using provide_sync [OF provide(2)] provide(1) by (simp add: owns_indirs_def sync_le_def)
next
  case other
  then show ?thesis by (auto simp: owns_indirs_def)
qed

text \<open>Over \<open>n\<close> steps a sequence number grows by at most \<open>n\<close>, and by at least one if an expected reply has come.\<close>

lemma ipc_run_frame:
  assumes "(ipc_step sealer refs A ^^ n) (s, U) (s', U')"
  shows "U \<subseteq> U' \<and> (\<forall>i\<in>U. indirs s' i = indirs s i)
    \<and> (\<forall>a\<in>A. \<exists>k\<le>n. sync_token (sync_of a s') = sync_token (sync_of a s) + of_nat k
         \<and> (sync_condition (sync_of a s) = 1 \<and> sync_condition (sync_of a s') \<noteq> 1 \<longrightarrow> 0 < k))
    \<and> (owns_indirs A (s, U) \<longrightarrow> owns_indirs A (s', U'))"
  using assms
proof (induction n arbitrary: s' U')
  case 0
  then show ?case by simp
next
  case (Suc n)
  then obtain s1 U1 where run: "(ipc_step sealer refs A ^^ n) (s, U) (s1, U1)" and st: "ipc_step sealer refs A (s1, U1) (s', U')"
    by auto
  note i = Suc.IH [OF run] and f = ipc_step_frame [OF st]
  have "\<exists>k\<le>Suc n. sync_token (sync_of a s') = sync_token (sync_of a s) + of_nat k
         \<and> (sync_condition (sync_of a s) = 1 \<and> sync_condition (sync_of a s') \<noteq> 1 \<longrightarrow> 0 < k)" if a: "a \<in> A" for a
  proof -
    obtain k where k: "k \<le> n" "sync_token (sync_of a s1) = sync_token (sync_of a s) + of_nat k"
      "sync_condition (sync_of a s) = 1 \<and> sync_condition (sync_of a s1) \<noteq> 1 \<longrightarrow> 0 < k"
      using i [THEN conjunct2, THEN conjunct2, THEN conjunct1, THEN bspec, OF a] by blast
    consider "sync_token (sync_of a s') = sync_token (sync_of a s1)" "sync_condition (sync_of a s1) = 1 \<longrightarrow> sync_condition (sync_of a s') = 1"
      | "sync_token (sync_of a s') = sync_token (sync_of a s1) + 1" using f a unfolding sync_le_def by blast
    then show ?thesis
    proof cases
      case 1
      then show ?thesis using k by (intro exI [of _ k]) auto
    next
      case 2
      then show ?thesis using k by (intro exI [of _ "Suc k"]) auto
    qed
  qed
  moreover have "U \<subseteq> U'" "\<forall>i\<in>U. indirs s' i = indirs s i" "owns_indirs A (s, U) \<longrightarrow> owns_indirs A (s', U')"
    using i f by auto
  ultimately show ?case by blast
qed

lemmas ipc_run = ipc_run_frame [THEN conjunct1] ipc_run_frame [THEN conjunct2, THEN conjunct1]
  ipc_run_frame [THEN conjunct2, THEN conjunct2, THEN conjunct1, THEN bspec]
  ipc_run_frame [THEN conjunct2, THEN conjunct2, THEN conjunct2, THEN mp]

text \<open>
  C18. A reply token is good for one reply: after a reply with it has been accepted, over
  any history of sends, replies and other activity of the kernel (of fewer than \<open>2^64 - 1\<close>
  steps), the token is not the expected one: \<open>token_expected\<close> turns it down and changes
  nothing, and the kernel freezes a replier that presents it.
\<close>

theorem reply_once:
  assumes "set_message_reply sealer c3 v0 v1 tok s = Some (a, s1)" "a \<in> A" "cap_base tok \<in> U"
    and "(ipc_step sealer refs A ^^ n) (s1, U) (s2, U2)" "n + 1 < 2 ^ 64"
  shows "token_expected sealer tok s2 = Some (None, s2)
    \<and> set_message_reply sealer c3' v0' v1' tok s2 = None
    \<and> kernel_message_reply cpu sealer c3' v0' v1' tok hint s2 = None"
proof -
  obtain m t where t: "indirs s1 = indirs s"
    "sync_of a s1 = (sync_of a s)\<lparr>sync_token := sync_token (sync_of a s) + 1, sync_condition := m\<rparr>"
    "cheri_unseal tok sealer = Some t" "a = si_act (indirs s (cap_base t))"
    "sync_token (sync_of a s) = cap_off t - MIN_OFFSET + sync_add (indirs s (cap_base t))"
    by (rule reply_sync [OF assms(1)])
  obtain k where k: "k \<le> n" "sync_token (sync_of a s2) = sync_token (sync_of a s1) + of_nat k"
    using ipc_run(3) [OF assms(4,2)] by blast
  note i = ipc_run(2) [OF assms(4)]
  have "cap_base t = cap_base tok" using t(3) by (cases "(tok, sealer)" rule: cheri_unseal.cases) (auto split: if_splits)
  then have same: "indirs s2 (cap_base t) = indirs s (cap_base t)" using i t(1) assms(3) by simp
  have "(of_nat (Suc k) :: u64) \<noteq> 0" by (rule of_nat_neq_0) (use assms(5) k(1) in simp_all)
  moreover have "sync_token (sync_of a s2) = sync_token (sync_of a s) + of_nat (Suc k)"
    unfolding k(2) t(2) by (simp add: ac_simps)
  ultimately have "sync_token (sync_of a s2) \<noteq> sync_token (sync_of a s)" by (simp only: add_cancel_left_right simp_thms)
  then have "token_expected sealer tok s2 = Some (None, s2)"
    unfolding token_expected_def t(3) by (simp add: same flip: t(4,5))
  then show ?thesis by (simp add: set_message_reply_def kernel_message_reply_def)
qed

lemma token_range:
  assumes "sn < MAX_SEQ_NS"
  shows "sint MIN_OFFSET \<le> sint (sn + MIN_OFFSET) \<and> sint (sn + MIN_OFFSET) < sint MAX_OFFSET"
proof -
  define k where "k = unat sn"
  have "k < 14336" using assms by (simp add: k_def word_less_nat_alt MAX_SEQ_NS_def MAX_OFFSET_def MIN_OFFSET_def)
  have "sn + MIN_OFFSET = word_of_int (int k - 2048)" by (simp add: k_def MIN_OFFSET_def)
  moreover have "sint (word_of_int (int k - 2048) :: u64) = int k - 2048"
    using \<open>k < 14336\<close> unfolding sint_sbintrunc' by (intro signed_take_bit_int_eq_self) simp_all
  moreover have "sint MIN_OFFSET = - 2048" "sint MAX_OFFSET = 12288" by (simp_all add: MIN_OFFSET_def MAX_OFFSET_def)
  ultimately show ?thesis using \<open>k < 14336\<close> by simp
qed

text \<open>
  C28. No reply token is issued twice: a token made for a call of \<open>a\<close> differs from every
  token made for any activation later in the history (of fewer than \<open>2^64\<close> steps), whether
  or not further indirection objects are taken on the way. The token is sealed, and its
  offset lies between \<open>MIN_OFFSET\<close> and \<open>MAX_OFFSET\<close>, the range that is representable.
\<close>

theorem call_token_unique:
  assumes "owns_indirs A (s, U)" "a \<in> A" "b \<in> A"
    and "get_and_set_sealed_sync_token ops sealer a s = Some (tok, s1)" "fresh_indir U a s s1"
    and "(ipc_step sealer refs A ^^ n) (s1, insert (indir_of a s1) U) (s2, U2)" "n < 2 ^ 64"
    and "get_and_set_sealed_sync_token ops' sealer b s2 = Some (tok', s3)" "fresh_indir U2 b s2 s3"
  shows "tok' \<noteq> tok \<and> cap_otype tok = Some sealer
    \<and> sint MIN_OFFSET \<le> sint (cap_off tok) \<and> sint (cap_off tok) < sint MAX_OFFSET"
proof -
  note g = get_token_sync [OF assms(4)] and g' = get_token_sync [OF assms(8)]
  have ind: "b \<noteq> a \<Longrightarrow> indir_of b s1 = indir_of b s" for b using g(5) by simp
  have o1: "owns_indirs A (s1, insert (indir_of a s1) U)" by (rule taken_frame(2) [OF ind g(6) assms(5,1)])
  obtain k where k: "k \<le> n" "sync_token (sync_of a s2) = sync_token (sync_of a s1) + of_nat k"
    "sync_condition (sync_of a s1) = 1 \<and> sync_condition (sync_of a s2) \<noteq> 1 \<longrightarrow> 0 < k"
    using ipc_run(3) [OF assms(6,2)] by blast
  have f: "indir_of a s1 \<in> U2" "indirs s2 (indir_of a s1) = indirs s1 (indir_of a s1)" "owns_indirs A (s2, U2)"
    using ipc_run(1,2) [OF assms(6)] ipc_run(4) [OF assms(6) o1] by auto
  have "tok' \<noteq> tok"
  proof
    assume "tok' = tok"
    then have i: "indir_of b s3 = indir_of a s1"
      and e: "sync_token (sync_of b s2) - sync_add (indirs s3 (indir_of b s3)) = sync_token (sync_of a s) - sync_add (indirs s1 (indir_of a s1))"
      using g(1) g'(1) by auto
    then have same: "indirs s3 = indirs s2" "indir_of b s3 = indir_of b s2" using assms(9) f(1) by (auto simp: fresh_indir_def)
    have "si_act (indirs s1 (indir_of a s1)) = a" "si_act (indirs s2 (indir_of b s2)) = b"
      using o1 f(3) assms(2,3) by (simp_all add: owns_indirs_def)
    then have "b = a" using f(2) i same(2) by simp
    then have "sync_token (sync_of a s2) = sync_token (sync_of a s1)" "0 < k"
      using e i same f(2) g(3,4) g'(2) k(3) by auto
    then have "(of_nat k :: u64) = 0" using k(2) by simp
    moreover have "(of_nat k :: u64) \<noteq> 0" by (rule of_nat_neq_0) (use \<open>0 < k\<close> k(1) assms(7) in simp_all)
    ultimately show False by simp
  qed
  moreover obtain sn where "tok = Cap (indir_of a s1) (sn + MIN_OFFSET) (Some sealer)" "sn < MAX_SEQ_NS" using g(1) by blast
  ultimately show ?thesis using token_range [of sn] by simp
qed

text \<open>
  For the witnesses: activation 2 calls activation 3 and gets its reply.
\<close>

lemma demo_call:
  defines "tok \<equiv> Cap 9 MIN_OFFSET (Some 77)"
  shows "get_and_set_sealed_sync_token demo_ops 77 2 demo_ipc = Some (tok, upd_sync 2 (\<lambda>y. y\<lparr>sync_condition := 1\<rparr>) demo_ipc)"
    "\<exists>sw s1 s2. send_push 0 0 (demo_msg 5) tok 3 SYNC_CALL 2 (upd_sync 2 (\<lambda>y. y\<lparr>sync_condition := 1\<rparr>) demo_ipc) = Some (SendBlocks sw, s1)
       \<and> kernel_message_send_ret 0 0 demo_ops 77 78 (demo_msg 5) (Cap 3 0 (Some 78)) SYNC_CALL 2 demo_ipc = Some (SendBlocks sw, s1)
       \<and> set_message_reply 77 CNull 7 0 tok s1 = Some (2, s2) \<and> may_call 2 s2 \<and> indirs s2 = indirs demo_ipc \<and> indir_of 2 s2 = 9"
proof -
  let ?s = "upd_sync 2 (\<lambda>y. y\<lparr>sync_condition := 1\<rparr>) demo_ipc"
  have d: "current_act (sched_pools demo_ipc 0) = Some 2" "\<not> is_idle (acts demo_ipc 2)"
    "idle_act (sched_pools demo_ipc 0) \<noteq> None" "\<not> is_idle (acts demo_ipc 3)" "status (acts demo_ipc 3) = status_alive"
    by (simp_all add: demo_ipc_sel demo_defs)
  have tok: "call_token 77 2 demo_ipc = tok" by (simp add: call_token_def demo_ipc_sel demo_defs tok_def)
  have ref: "act_unseal_ref 78 (Cap 3 0 (Some 78)) = Some 3" by (simp add: act_unseal_ref_def)
  show get: "get_and_set_sealed_sync_token demo_ops 77 2 demo_ipc = Some (tok, ?s)" using get_token_eq [OF demo_may_call] tok by simp
  obtain sw s1 where s1: "kernel_message_send_ret 0 0 demo_ops 77 78 (demo_msg 5) (Cap 3 0 (Some 78)) SYNC_CALL 2 demo_ipc = Some (SendBlocks sw, s1)"
    "kernel_inv {1, 2, 3} s1" "sched_status (acts s1 2) = sched_sync_block"
    "sync_of 2 s1 = (sync_of 2 demo_ipc)\<lparr>sync_condition := 1\<rparr>" "indirs s1 = indirs demo_ipc"
    using send_sync_ok [OF demo_ipc_inv d(1-3) _ d(4,5) demo_ipc_ring(1) _ ref demo_may_call, of 0 demo_ops 77 "demo_msg 5"]
    by (auto simp: demo_ipc_ring)
  have p: "send_push 0 0 (demo_msg 5) tok 3 SYNC_CALL 2 ?s = Some (SendBlocks sw, s1)"
    using s1(1) by (simp add: kernel_message_send_ret_def ref d(5) get)
  have "\<not> is_idle (acts s1 2)" using push_sync(3) [OF p, of 2] d(2) by simp
  then obtain s2 where s2: "set_message_reply 77 CNull 7 0 tok s1 = Some (2, s2)" "sync_condition (sync_of 2 s2) = 0"
    "sync_token (sync_of 2 s2) = sync_token (sync_of 2 demo_ipc) + 1" "indirs s2 = indirs demo_ipc"
    using reply_ok [OF s1(2) _ _ s1(3) demo_may_call s1(5,4), of 77 CNull 7 0] tok by auto
  have "indir_of 2 s2 = 9" using replies_sync(3) [OF s2(1), of 2] s1(4) by (simp add: demo_ipc_sel)
  moreover from this have "may_call 2 s2" using s2(2-4)
    by (simp add: may_call_def demo_ipc_sel demo_defs MAX_SEQ_NS_def MAX_OFFSET_def MIN_OFFSET_def)
  ultimately show "\<exists>sw s1 s2. send_push 0 0 (demo_msg 5) tok 3 SYNC_CALL 2 ?s = Some (SendBlocks sw, s1)
       \<and> kernel_message_send_ret 0 0 demo_ops 77 78 (demo_msg 5) (Cap 3 0 (Some 78)) SYNC_CALL 2 demo_ipc = Some (SendBlocks sw, s1)
       \<and> set_message_reply 77 CNull 7 0 tok s1 = Some (2, s2) \<and> may_call 2 s2 \<and> indirs s2 = indirs demo_ipc \<and> indir_of 2 s2 = 9"
    using p s1(1) s2(1,4) by blast
qed

theorem reply_once_witness:
  "\<exists>sw s1 s2 s3. kernel_message_send_ret 0 0 demo_ops 77 78 (demo_msg 5) (Cap 3 0 (Some 78)) SYNC_CALL 2 demo_ipc = Some (SendBlocks sw, s1)
     \<and> set_message_reply 77 CNull 7 0 (Cap 9 MIN_OFFSET (Some 77)) s1 = Some (2, s2)
     \<and> kernel_syscall_provide_sync demo_ops 2 40 s2 = (0, s3) \<and> next_block (sync_of 2 s3) = Some 40
     \<and> token_expected 77 (Cap 9 MIN_OFFSET (Some 77)) s3 = Some (None, s3)"
proof -
  obtain sw s1 s2 where s: "kernel_message_send_ret 0 0 demo_ops 77 78 (demo_msg 5) (Cap 3 0 (Some 78)) SYNC_CALL 2 demo_ipc = Some (SendBlocks sw, s1)"
    "set_message_reply 77 CNull 7 0 (Cap 9 MIN_OFFSET (Some 77)) s1 = Some (2, s2)" using demo_call(2) by blast
  obtain s3 where s3: "kernel_syscall_provide_sync demo_ops 2 40 s2 = (0, s3)" "next_block (sync_of 2 s3) = Some 40"
    by (simp add: kernel_syscall_provide_sync_def next_indir_block_def demo_ops_def SI_SIZE_def)
  have "(ipc_step 77 78 {2} ^^ Suc 0) (s2, {9}) (s3, {9})"
    by (rule relpowp_Suc_I, rule relpowp_0_I, rule ipc_step.provide [OF s3(1)])
  from reply_once [OF s(2) _ _ this] s s3 show ?thesis by auto
qed

theorem call_token_unique_witness:
  "\<exists>sw s1 s2 tok' s3. send_push 0 0 (demo_msg 5) (Cap 9 MIN_OFFSET (Some 77)) 3 SYNC_CALL 2
       (upd_sync 2 (\<lambda>y. y\<lparr>sync_condition := 1\<rparr>) demo_ipc) = Some (SendBlocks sw, s1)
     \<and> set_message_reply 77 CNull 7 0 (Cap 9 MIN_OFFSET (Some 77)) s1 = Some (2, s2)
     \<and> get_and_set_sealed_sync_token demo_ops 77 2 s2 = Some (tok', s3)
     \<and> tok' \<noteq> Cap 9 MIN_OFFSET (Some 77) \<and> sint MIN_OFFSET < sint MAX_OFFSET"
proof -
  let ?t = "Cap 9 MIN_OFFSET (Some 77)" and ?s = "upd_sync 2 (\<lambda>y. y\<lparr>sync_condition := 1\<rparr>) demo_ipc"
  obtain sw s1 s2 where s: "send_push 0 0 (demo_msg 5) ?t 3 SYNC_CALL 2 ?s = Some (SendBlocks sw, s1)"
    "set_message_reply 77 CNull 7 0 ?t s1 = Some (2, s2)" and m: "may_call 2 s2" using demo_call(2) by blast
  have rep: "kernel_message_reply 0 77 CNull 7 0 ?t False s1 = Some (NoSwitch, s2)" using s(2) by (simp add: kernel_message_reply_def)
  have run: "(ipc_step 77 78 {2} ^^ Suc (Suc 0)) (?s, insert (indir_of 2 ?s) {9}) (s2, insert (indir_of 2 ?s) {9})"
    by (rule relpowp_Suc_I, rule relpowp_Suc_I, rule relpowp_0_I, rule ipc_step.push [OF s(1)], rule ipc_step.reply [OF rep])
  have own: "owns_indirs {2} (demo_ipc, {9})" by (simp add: owns_indirs_def demo_ipc_sel)
  have fr: "fresh_indir {9} 2 demo_ipc ?s" "fresh_indir U 2 s2 (upd_sync 2 (\<lambda>y. y\<lparr>sync_condition := 1\<rparr>) s2)" for U
    by (simp_all add: fresh_indir_def)
  from call_token_unique [OF own _ _ demo_call(1) fr(1) run _ get_token_eq [OF m] fr(2)] s get_token_eq [OF m] show ?thesis by auto
qed

end
