(* ===== verification/Mutex.thy ===== *)
theory Mutex
  imports Msg
begin

text \<open>
  Semaphores and re-entrant mutexes (\<open>cherios/kernel/src/mutex.c\<close>). Entering a critical
  section changes nothing that another core sees; the spin lock of a semaphore is a
  flag whose acquisition is \<open>None\<close> when it is held. \<open>cpu\<close> is the core that runs the code.
\<close>

record semaphore_t =
  first_waiter :: "nat option"
  last_waiter :: "nat option"
  level :: int
  sem_lock :: bool

record mutex_t =
  owner :: "nat option"
  sem :: semaphore_t
  recursions :: u64

definition semaphore_init :: "semaphore_t \<Rightarrow> semaphore_t" where
  "semaphore_init m = m\<lparr>sem_lock := False, first_waiter := None, last_waiter := None, level := 0\<rparr>"

definition CRITICAL_LOCKED_BEGIN :: "semaphore_t \<Rightarrow> semaphore_t option" where
  "CRITICAL_LOCKED_BEGIN m = (if sem_lock m then None else Some (m\<lparr>sem_lock := True\<rparr>))"

definition CRITICAL_LOCKED_END :: "semaphore_t \<Rightarrow> semaphore_t" where
  "CRITICAL_LOCKED_END m = m\<lparr>sem_lock := False\<rparr>"

definition semaphore_signal :: "semaphore_t \<Rightarrow> kstate \<Rightarrow> (semaphore_t \<times> kstate) option" where
  "semaphore_signal m s = do {
     m \<leftarrow> CRITICAL_LOCKED_BEGIN m;
     (case first_waiter m of
        Some waiter \<Rightarrow> do {
          let next_waiter = semaphore_next_waiter (acts s waiter);
          let m = m\<lparr>first_waiter := next_waiter\<rparr>;
          let m = (if next_waiter = None then m\<lparr>last_waiter := None\<rparr> else m);
          let m = CRITICAL_LOCKED_END m;
          s \<leftarrow> sched_receive_event waiter sched_sem s;
          Some (m, s)
        }
      | None \<Rightarrow> Some (CRITICAL_LOCKED_END (m\<lparr>level := level m + 1\<rparr>), s))
   }"

definition semaphore_wait :: "nat \<Rightarrow> semaphore_t \<Rightarrow> nat \<Rightarrow> kstate \<Rightarrow> (switch \<times> semaphore_t \<times> kstate) option" where
  "semaphore_wait cpu m waiter s = do {
     m \<leftarrow> CRITICAL_LOCKED_BEGIN m;
     if level m < 0 then do {
       let last = last_waiter m;
       let m = m\<lparr>last_waiter := Some waiter\<rparr>;
       let s = upd_act waiter (\<lambda>x. x\<lparr>semaphore_next_waiter := None\<rparr>) s;
       let (m, s) = (case last of
            None \<Rightarrow> (m\<lparr>last_waiter := Some waiter\<rparr>, s)
          | Some l \<Rightarrow> (m, upd_act l (\<lambda>x. x\<lparr>semaphore_next_waiter := Some waiter\<rparr>) s));
       s \<leftarrow> sched_receive_event waiter sched_sem s;
       let m = CRITICAL_LOCKED_END m;
       (sw, s) \<leftarrow> sched_reschedule cpu None False s;
       Some (sw, m, s)
     } else Some (NoSwitch, CRITICAL_LOCKED_END (m\<lparr>level := level m - 1\<rparr>), s)
   }"

definition semaphore_try_wait :: "semaphore_t \<Rightarrow> (bool \<times> semaphore_t) option" where
  "semaphore_try_wait m = do {
     m \<leftarrow> CRITICAL_LOCKED_BEGIN m;
     let (result, m) = (if level m < 0 then (False, m) else (True, m\<lparr>level := level m - 1\<rparr>));
     Some (result, CRITICAL_LOCKED_END m)
   }"

definition mutex_init :: "mutex_t \<Rightarrow> mutex_t" where
  "mutex_init mu = mu\<lparr>sem := semaphore_init (sem mu), owner := None, recursions := 0\<rparr>"

definition mutex_release :: "mutex_t \<Rightarrow> nat \<Rightarrow> kstate \<Rightarrow> (mutex_t \<times> kstate) option" where
  "mutex_release mu act s =
     (if owner mu \<noteq> Some act then Some (mu, s)
      else if recursions mu > 0 then Some (mu\<lparr>recursions := recursions mu - 1\<rparr>, s)
      else do {
        let mu = mu\<lparr>owner := None\<rparr>;
        (m, s) \<leftarrow> semaphore_signal (sem mu) s;
        Some (mu\<lparr>sem := m\<rparr>, s)
      })"

text \<open>
  \<open>mutex_acquire\<close> takes the mutex, by \<open>mutex_acquire_done\<close>, when \<open>semaphore_wait\<close> has
  returned. If that gave up the processor, the result is the context switch, and the
  caller runs \<open>mutex_acquire_done\<close> on the mutex when it runs again.
\<close>

definition mutex_acquire_done :: "nat \<Rightarrow> mutex_t \<Rightarrow> mutex_t" where
  "mutex_acquire_done act mu = mu\<lparr>owner := Some act\<rparr>"

definition mutex_acquire :: "nat \<Rightarrow> mutex_t \<Rightarrow> nat \<Rightarrow> kstate \<Rightarrow> (switch \<times> mutex_t \<times> kstate) option" where
  "mutex_acquire cpu mu act s =
     (if owner mu = Some act then Some (NoSwitch, mu\<lparr>recursions := recursions mu + 1\<rparr>, s)
      else do {
        (sw, m, s) \<leftarrow> semaphore_wait cpu (sem mu) act s;
        let mu = mu\<lparr>sem := m\<rparr>;
        Some (sw, if sw = NoSwitch then mutex_acquire_done act mu else mu, s)
      })"

definition mutex_try_acquire :: "mutex_t \<Rightarrow> nat \<Rightarrow> (bool \<times> mutex_t) option" where
  "mutex_try_acquire mu act =
     (if owner mu = Some act then Some (True, mu\<lparr>recursions := recursions mu + 1\<rparr>)
      else do {
        (res, m) \<leftarrow> semaphore_try_wait (sem mu);
        let mu = mu\<lparr>sem := m\<rparr>;
        Some (res, if res then mu\<lparr>owner := Some act\<rparr> else mu)
      })"

subsection \<open>Trying is exclusive\<close>

text \<open>
  The contract of a re-entrant lock: its state is \<open>None\<close> when it is free, or the holder
  with the number of nested acquisitions; \<open>try_take\<close> by anybody but the holder of a
  held lock fails, and a release by anybody but the holder is ignored.
\<close>

fun spec_try :: "nat \<Rightarrow> (nat \<times> nat) option \<Rightarrow> bool \<times> (nat \<times> nat) option" where
  "spec_try a None = (True, Some (a, 0))"
| "spec_try a (Some (b, n)) = (if a = b then (True, Some (b, Suc n)) else (False, Some (b, n)))"

fun spec_release :: "nat \<Rightarrow> (nat \<times> nat) option \<Rightarrow> (nat \<times> nat) option" where
  "spec_release a None = None"
| "spec_release a (Some (b, n)) = (if a \<noteq> b then Some (b, n) else case n of 0 \<Rightarrow> None | Suc k \<Rightarrow> Some (b, k))"

definition mutex_abs :: "mutex_t \<Rightarrow> (nat \<times> nat) option" where
  "mutex_abs mu = map_option (\<lambda>a. (a, unat (recursions mu))) (owner mu)"

definition mutex_ok :: "mutex_t \<Rightarrow> bool" where
  "mutex_ok mu \<longleftrightarrow> \<not> sem_lock (sem mu) \<and> first_waiter (sem mu) = None
     \<and> level (sem mu) = (if owner mu = None then 0 else -1) \<and> (owner mu = None \<longrightarrow> recursions mu = 0)"

datatype lock_op = Try nat | Release nat

fun spec_run :: "lock_op list \<Rightarrow> (nat \<times> nat) option \<Rightarrow> bool list \<times> (nat \<times> nat) option" where
  "spec_run [] l = ([], l)"
| "spec_run (Try a # ops) l = (let (r, l) = spec_try a l; (rs, l) = spec_run ops l in (r # rs, l))"
| "spec_run (Release a # ops) l = spec_run ops (spec_release a l)"

fun mutex_run :: "lock_op list \<Rightarrow> mutex_t \<Rightarrow> kstate \<Rightarrow> (bool list \<times> mutex_t \<times> kstate) option" where
  "mutex_run [] mu s = Some ([], mu, s)"
| "mutex_run (Try a # ops) mu s = do {
     (r, mu) \<leftarrow> mutex_try_acquire mu a;
     (rs, mu, s) \<leftarrow> mutex_run ops mu s;
     Some (r # rs, mu, s) }"
| "mutex_run (Release a # ops) mu s = do {
     (mu, s) \<leftarrow> mutex_release mu a s;
     mutex_run ops mu s }"

lemmas lock_defs = CRITICAL_LOCKED_BEGIN_def CRITICAL_LOCKED_END_def semaphore_try_wait_def semaphore_signal_def Let_def

lemma try_refines:
  assumes "mutex_ok mu" "owner mu = Some a \<Longrightarrow> unat (recursions mu) + 1 < 2 ^ 64"
  shows "\<exists>mu'. mutex_try_acquire mu a = Some (fst (spec_try a (mutex_abs mu)), mu') \<and> mutex_ok mu'
    \<and> mutex_abs mu' = snd (spec_try a (mutex_abs mu))"
proof (cases "owner mu")
  case None
  then show ?thesis using assms(1)
    by (simp add: mutex_try_acquire_def lock_defs mutex_ok_def mutex_abs_def)
next
  case (Some b)
  have "unat (recursions mu + 1) = Suc (unat (recursions mu))" if "b = a"
    using assms(2) that Some by (simp add: unat_plus_if')
  then show ?thesis using assms(1) Some
    by (simp add: mutex_try_acquire_def lock_defs mutex_ok_def mutex_abs_def)
qed

lemma release_refines:
  assumes "mutex_ok mu"
  shows "\<exists>mu'. mutex_release mu a s = Some (mu', s) \<and> mutex_ok mu' \<and> mutex_abs mu' = spec_release a (mutex_abs mu)"
proof -
  have "unat (r - 1) = n" if "unat r = Suc n" for r :: u64 and n
    using that unat_minus_one [of r] by force
  then show ?thesis using assms
    by (cases "owner mu"; cases "unat (recursions mu)")
       (auto simp: mutex_release_def lock_defs mutex_ok_def mutex_abs_def unat_eq_0 simp flip: word_neq_0_conv)
qed

definition tries :: "lock_op list \<Rightarrow> nat" where
  "tries ops = length (filter (\<lambda>op. case op of Try _ \<Rightarrow> True | Release _ \<Rightarrow> False) ops)"

definition depth :: "(nat \<times> nat) option \<Rightarrow> nat" where
  "depth l = (case l of None \<Rightarrow> 0 | Some (_, n) \<Rightarrow> n)"

lemma depth_abs: "mutex_ok mu \<Longrightarrow> depth (mutex_abs mu) = unat (recursions mu)"
  by (auto simp: depth_def mutex_abs_def mutex_ok_def split: option.splits)

lemma depth_spec:
  "depth (snd (spec_try a l)) \<le> Suc (depth l)" "depth (spec_release a l) \<le> depth l"
  by (cases l; auto simp: depth_def split: if_splits nat.splits)+

lemma mutex_run_refines:
  assumes "mutex_ok mu" "depth (mutex_abs mu) + tries ops < 2 ^ 64"
  shows "\<exists>mu'. mutex_run ops mu s = Some (fst (spec_run ops (mutex_abs mu)), mu', s)
    \<and> mutex_ok mu' \<and> mutex_abs mu' = snd (spec_run ops (mutex_abs mu))"
  using assms
proof (induction ops arbitrary: mu)
  case (Cons op ops)
  show ?case
  proof (cases op)
    case (Try a)
    have "unat (recursions mu) + 1 < 2 ^ 64" using Cons.prems Try by (simp add: tries_def depth_abs)
    then obtain mu1 where mu1: "mutex_try_acquire mu a = Some (fst (spec_try a (mutex_abs mu)), mu1)" "mutex_ok mu1"
      "mutex_abs mu1 = snd (spec_try a (mutex_abs mu))"
      using try_refines [OF Cons.prems(1)] by blast
    have "depth (mutex_abs mu1) + tries ops < 2 ^ 64"
      using depth_spec(1) [of a "mutex_abs mu"] Cons.prems(2) Try by (simp add: mu1(3) tries_def)
    from Cons.IH [OF mu1(2) this] show ?thesis using mu1 Try by (auto simp: Let_def split: prod.splits)
  next
    case (Release a)
    obtain mu1 where mu1: "mutex_release mu a s = Some (mu1, s)" "mutex_ok mu1"
      "mutex_abs mu1 = spec_release a (mutex_abs mu)"
      using release_refines [OF Cons.prems(1)] by blast
    have "depth (mutex_abs mu1) + tries ops < 2 ^ 64"
      using depth_spec(2) [of a "mutex_abs mu"] Cons.prems(2) Release by (simp add: mu1(3) tries_def)
    from Cons.IH [OF mu1(2) this] show ?thesis using mu1 Release by auto
  qed
qed simp

text \<open>
  C27. Used with \<open>mutex_try_acquire\<close> only, a mutex is a re-entrant lock: any sequence of
  attempts and releases by any activations on an initialised mutex answers as the
  contract answers, so nobody but the holder gets a held mutex, and it is free again
  after as many releases by the holder as there were acquisitions. The bound keeps
  the counter of nested acquisitions below its width.
\<close>

theorem mutex_try_refines:
  assumes "tries ops < 2 ^ 64"
  shows "\<exists>mu'. mutex_run ops (mutex_init mu) s = Some (fst (spec_run ops None), mu', s)
    \<and> mutex_abs mu' = snd (spec_run ops None)"
proof -
  have "mutex_ok (mutex_init mu)" "mutex_abs (mutex_init mu) = None"
    by (simp_all add: mutex_ok_def mutex_init_def semaphore_init_def mutex_abs_def)
  then show ?thesis using mutex_run_refines [of "mutex_init mu" ops s] assms by (auto simp: depth_def)
qed

definition demo_mutex :: mutex_t where
  "demo_mutex = mutex_init \<lparr>owner = None, sem = \<lparr>first_waiter = None, last_waiter = None, level = 0, sem_lock = False\<rparr>, recursions = 0\<rparr>"

theorem mutex_try_refines_witness:
  "\<exists>mu'. mutex_run [Try 1, Try 2, Try 1, Release 2, Release 1, Try 2, Release 1, Try 2] demo_mutex demo
       = Some ([True, False, True, False, True], mu', demo) \<and> mutex_abs mu' = Some (2, 0)"
  using mutex_try_refines [of "[Try 1, Try 2, Try 1, Release 2, Release 1, Try 2, Release 1, Try 2]" _ demo]
  by (simp add: demo_mutex_def tries_def)

subsection \<open>Waiting is not\<close>

text \<open>Waiting for a held semaphore leaves the running caller runnable.\<close>

lemma wait_runs_on:
  assumes "kernel_inv A s" "current_act (sched_pools s cpu) = Some a" "\<not> is_idle (acts s a)"
    and "idle_act (sched_pools s cpu) \<noteq> None" "level m < 0" "\<not> sem_lock m" "last_waiter m = None"
  shows "\<exists>sw s'. semaphore_wait cpu m a s = Some (sw, m\<lparr>last_waiter := Some a\<rparr>, s') \<and> kernel_inv A s'
    \<and> sched_status (acts s' a) \<le> sched_running"
proof -
  have a: "a \<in> A" using kernel_invD(7) [OF assms(1) assms(2)] ..
  define s1 where "s1 = upd_act a (\<lambda>x. x\<lparr>semaphore_next_waiter := None\<rparr>) s"
  have v: "same_view s s1" unfolding s1_def by (rule same_view_upd_act) (simp add: act_view_def)
  have "unlocked s1" using kernel_invD(2) [OF assms(1)] by (auto simp: s1_def unlocked_but_def)
  then have inv1: "kernel_inv A s1" by (rule kernel_inv_view [OF assms(1) v])
  have same: "sched_pools s1 = sched_pools s" "is_idle (acts s1 a) = is_idle (acts s a)" by (simp_all add: s1_def)
  have run: "sched_status (acts s1 a) = sched_running" using kernel_invD(6) [OF inv1] assms(2) by (simp add: same)
  have low: "sched_sem AND 0xF = 0" "sched_sem AND sched_sync_block = 0" by (simp_all add: sched_status_defs)
  obtain s2 where s2: "sched_receive_event a sched_sem s1 = Some s2" "kernel_inv A s2"
    "sched_status (acts s2 a) \<le> sched_running"
    "\<And>p. current_act (sched_pools s2 p) = current_act (sched_pools s1 p)"
    "\<And>p. idle_act (sched_pools s2 p) = idle_act (sched_pools s1 p)"
  proof (rule receive_ok [OF inv1 a _ low(1)])
    show "\<not> is_idle (acts s1 a)" using assms(3) by (simp add: same)
    show "sched_sem AND sched_sync_block \<noteq> 0 \<longrightarrow> sync_condition (sync_state (acts s1 a)) = 1" using low by simp
  next
    fix s2
    let ?cause = "sched_status (acts s1 a) AND effective_events sched_sem (acts s1 a)"
    assume r: "sched_receive_event a sched_sem s1 = Some s2" "kernel_inv A s2"
      "?cause \<noteq> 0 \<Longrightarrow> sched_status (acts s2 a) = sched_runnable \<and> woke_from (acts s2 a) = ?cause"
      "?cause = 0 \<Longrightarrow> sched_status (acts s2 a) = sched_status (acts s1 a)
        \<and> early_notify (acts s2 a) = (effective_events sched_sem (acts s1 a) AND sched_wait_notify \<noteq> 0 \<or> early_notify (acts s1 a))
        \<and> commit_early_notify (acts s2 a) = (effective_events sched_sem (acts s1 a) AND sched_wait_commit \<noteq> 0 \<or> commit_early_notify (acts s1 a))"
      "\<And>p. current_act (sched_pools s2 p) = current_act (sched_pools s1 p)"
      "\<And>p. idle_act (sched_pools s2 p) = idle_act (sched_pools s1 p)"
    have "sched_status (acts s2 a) \<le> sched_running"
      using r(3,4) run by (cases "?cause = 0") (simp_all add: sched_status_defs)
    then show thesis by (rule that [OF r(1,2) _ r(5,6)])
  qed
  have cur2: "current_act (sched_pools s2 cpu) = Some a" "idle_act (sched_pools s2 cpu) \<noteq> None"
    using s2(4,5) assms(2,4) by (simp_all add: same)
  have run2: "sched_status (acts s2 a) = sched_running" by (rule kernel_invD(6) [OF s2(2) cur2(1)])
  obtain s3 where s3: "sched_reschedule cpu None False s2 = Some (switch_of False a (chosen cpu None s2) s2, s3)" "kernel_inv A s3"
    "sched_status (acts s3 a) \<le> sched_running"
  proof (rule reschedule_kernel_inv [where hint = None and in_exc = False, OF kernel_invD(1,2) [OF s2(2)] cur2(2) _ cur2(1)])
    fix s3
    let ?n = "chosen cpu None s2"
    assume r: "sched_reschedule cpu None False s2 = Some (switch_of False a ?n s2, s3)" "kernel_inv A s3"
      "current_act (sched_pools s3 cpu) = Some ?n"
      "?n \<noteq> a \<Longrightarrow> sched_status (acts s3 a) = (if sched_status (acts s2 a) = sched_running then sched_runnable else sched_status (acts s2 a))"
    have "sched_status (acts s3 a) \<le> sched_running"
    proof (cases "?n = a")
      case True
      then show ?thesis using kernel_invD(6) [OF r(2,3)] by simp
    next
      case False
      then show ?thesis using r(4) run2 by (simp add: sched_status_defs)
    qed
    then show thesis by (rule that [OF r(1,2)])
  qed (use run2 kernel_invD(6) [OF s2(2)] in \<open>auto simp: sched_status_defs\<close>)
  have "semaphore_wait cpu m a s = Some (switch_of False a (chosen cpu None s2) s2, m\<lparr>last_waiter := Some a\<rparr>, s3)"
    using assms(5-7) s2(1) s3(1) unfolding s1_def by (simp add: semaphore_wait_def lock_defs)
  then show ?thesis using s3(2,3) by blast
qed

text \<open>
  C40. \<open>mutex_acquire\<close> does not exclude: called by the running activation on a mutex that
  another activation holds, it neither blocks the caller nor enters it into the queue
  that \<open>semaphore_signal\<close> serves, and makes the caller the owner, at once or, if it gave
  way to another activation, as soon as it runs again; nothing waits for the holder to
  release the mutex, so both activations hold it.
\<close>

theorem mutex_acquire_steals:
  assumes "kernel_inv A s" "current_act (sched_pools s cpu) = Some a" "\<not> is_idle (acts s a)"
    and "idle_act (sched_pools s cpu) \<noteq> None"
    and "mutex_ok mu" "owner mu = Some b" "b \<noteq> a" "last_waiter (sem mu) = None"
  shows "\<exists>sw mu' s'. mutex_acquire cpu mu a s = Some (sw, mu', s') \<and> kernel_inv A s'
    \<and> (if sw = NoSwitch then owner mu' = Some a else owner mu' = Some b \<and> owner (mutex_acquire_done a mu') = Some a)
    \<and> first_waiter (sem mu') = None \<and> sched_status (acts s' a) \<le> sched_running"
proof -
  have "level (sem mu) < 0" "\<not> sem_lock (sem mu)" "first_waiter (sem mu) = None" using assms(5,6) by (simp_all add: mutex_ok_def)
  with wait_runs_on [OF assms(1-4) _ _ assms(8)] show ?thesis
    using assms(6,7) by (fastforce simp: mutex_acquire_def mutex_acquire_done_def Let_def)
qed

theorem mutex_acquire_steals_witness:
  "\<exists>sw mu' s'. mutex_acquire 0 (demo_mutex\<lparr>owner := Some 3, sem := (sem demo_mutex)\<lparr>level := -1\<rparr>\<rparr>) 2 demo = Some (sw, mu', s')
     \<and> owner (if sw = NoSwitch then mu' else mutex_acquire_done 2 mu') = Some 2"
proof -
  let ?m = "demo_mutex\<lparr>owner := Some 3, sem := (sem demo_mutex)\<lparr>level := -1\<rparr>\<rparr>"
  have "mutex_ok ?m" by (simp add: demo_mutex_def mutex_ok_def mutex_init_def semaphore_init_def)
  moreover have "current_act (sched_pools demo 0) = Some 2" "\<not> is_idle (acts demo 2)" "idle_act (sched_pools demo 0) \<noteq> None"
    by (simp_all add: demo_defs)
  moreover have "last_waiter (sem ?m) = None" by (simp add: demo_mutex_def mutex_init_def semaphore_init_def)
  ultimately show ?thesis using mutex_acquire_steals [OF demo_inv, of 0 2 ?m 3] by (auto split: if_splits)
qed

end
