(* ===== verification/Timer.thy ===== *)
theory Timer
  imports Sched_Props
begin

text \<open>
  The timer interrupt (\<open>cherios/kernel/src/timer.c\<close>): start of the timer of a
  core, the tick that advances the clock, wakes the sleepers whose timeout has
  passed, reschedules and re-arms the compare register. The flag \<open>qemu\<close> is the
  build option \<open>HARDWARE_qemu\<close>. A read of the cycle counter is a parameter:
  \<open>count\<close> for the clock, and the sequence \<open>reads\<close> for the reads of the re-arming
  loop, which the code may repeat. The re-arming loop can run for ever, so it is
  a partial function: \<open>None\<close> is the loop that does not end.
\<close>

definition TIMER_INTERVAL :: "bool \<Rightarrow> u32" where
  "TIMER_INTERVAL qemu = (if qemu then 400000 else 4000000)"

definition TIMER_INTERVAL_MIN :: "bool \<Rightarrow> int" where
  "TIMER_INTERVAL_MIN qemu = (if qemu then 200000 else 2000000)"

definition kernel_timer_init :: "bool \<Rightarrow> nat \<Rightarrow> u32 \<Rightarrow> kstate \<Rightarrow> kstate option" where
  "kernel_timer_init qemu cpu_id count s = do {
     let val = init_sanity s cpu_id;
     let s = s\<lparr>init_sanity := (init_sanity s)(cpu_id := val + 1)\<rparr>;
     kassert (val = 0);
     let s = s\<lparr>high_resolution_timers := (high_resolution_timers s)(cpu_id := ucast count)\<rparr>;
     let s = s\<lparr>kernel_last_timer := (kernel_last_timer s)(cpu_id := count + TIMER_INTERVAL qemu)\<rparr>;
     Some (s\<lparr>cpu_compare := (cpu_compare s)(cpu_id := kernel_last_timer s cpu_id)\<rparr>)
   }"

definition check_sleeper :: "bool \<Rightarrow> u64 \<Rightarrow> nat \<Rightarrow> kstate \<Rightarrow> kstate option" where
  "check_sleeper qemu now i s =
     (case sleeps s ! i of
        None \<Rightarrow> Some s
      | Some a \<Rightarrow>
          (let waited = now - timeout_start (acts s a)
           in if qemu \<and> sint waited < 0 then Some s
              else if waited > timeout_length (acts s a) then sched_receive_event a sched_wait_timeout s
              else Some s))"

definition kernel_timer_check_sleepers :: "bool \<Rightarrow> u64 \<Rightarrow> kstate \<Rightarrow> kstate option" where
  "kernel_timer_check_sleepers qemu now = for_each (check_sleeper qemu now) [0..<MAX_WAITERS]"

partial_function (option) next_timer_from :: "bool \<Rightarrow> u32 \<Rightarrow> u32 \<Rightarrow> u32 option" where
  "next_timer_from qemu cur next_timer =
     (if int (unat next_timer) - int (unat cur) < TIMER_INTERVAL_MIN qemu
      then next_timer_from qemu cur (next_timer + TIMER_INTERVAL qemu)
      else Some next_timer)"

partial_function (option) rearm :: "bool \<Rightarrow> u32 \<Rightarrow> (nat \<Rightarrow> u32) \<Rightarrow> nat \<Rightarrow> u32 option" where
  "rearm qemu last_timer reads i = do {
     let cur = reads i;
     next_timer \<leftarrow> next_timer_from qemu cur (last_timer + TIMER_INTERVAL qemu);
     let sanity = reads (i + 1);
     let diff = (ucast (next_timer - sanity) :: u64);
     if qemu \<and> sint diff < 0 then rearm qemu last_timer reads (i + 2) else Some next_timer
   }"

definition kernel_timer :: "bool \<Rightarrow> nat \<Rightarrow> u32 \<Rightarrow> (nat \<Rightarrow> u32) \<Rightarrow> kstate \<Rightarrow> kstate option" where
  "kernel_timer qemu cpu_id count reads s = do {
     let old = high_resolution_timers s cpu_id;
     let new = get_high_res_time cpu_id count s;
     kassert (new > old);
     let s = s\<lparr>high_resolution_timers := (high_resolution_timers s)(cpu_id := new)\<rparr>;
     s \<leftarrow> kernel_timer_check_sleepers qemu new s;
     (sw, s) \<leftarrow> sched_reschedule cpu_id None True s;
     next_timer \<leftarrow> rearm qemu (kernel_last_timer s cpu_id) reads 0;
     let s = s\<lparr>cpu_compare := (cpu_compare s)(cpu_id := next_timer)\<rparr>;
     Some (s\<lparr>kernel_last_timer := (kernel_last_timer s)(cpu_id := next_timer)\<rparr>)
   }"

subsection \<open>Re-arming\<close>

lemma ucast_u32_nonneg: "0 \<le> sint (ucast (w :: u32) :: u64)"
proof -
  have "\<not> bit (ucast w :: u64) 63" by (auto simp: bit_simps dest: bit_imp_le_length)
  then show ?thesis using bit_last_iff [of "ucast w :: u64"] by simp
qed

lemma rearm_eq: "rearm qemu l reads i = next_timer_from qemu (reads i) (l + TIMER_INTERVAL qemu)"
proof -
  have "\<not> sint (ucast (w :: u32) :: u64) < 0" for w using ucast_u32_nonneg [of w] by simp
  then show ?thesis by (subst rearm.simps) (simp add: Let_def)
qed

lemma next_timer_from_result:
  "next_timer_from qemu cur n = Some y \<Longrightarrow> TIMER_INTERVAL_MIN qemu \<le> int (unat y) - int (unat cur)"
  by (rule next_timer_from.raw_induct
        [where P = "\<lambda>qemu cur n y. TIMER_INTERVAL_MIN qemu \<le> int (unat y) - int (unat cur)"])
     (auto split: if_splits)

lemma next_timer_from_diverges:
  assumes "2 ^ 32 \<le> int (unat cur) + TIMER_INTERVAL_MIN qemu"
  shows "next_timer_from qemu cur n = None"
proof (rule ccontr)
  assume "next_timer_from qemu cur n \<noteq> None"
  then obtain y where "next_timer_from qemu cur n = Some y" by blast
  then have "2 ^ 32 \<le> int (unat y)" using next_timer_from_result assms by fastforce
  moreover have "int (unat y) < 2 ^ 32" using unsigned_less [of y, where 'a = int] by simp
  ultimately show False by simp
qed

lemma next_timer_from_returns:
  assumes "int (unat cur) + TIMER_INTERVAL_MIN qemu + int (unat (TIMER_INTERVAL qemu)) \<le> 2 ^ 32"
  shows "\<exists>y. next_timer_from qemu cur n = Some y \<and> TIMER_INTERVAL_MIN qemu \<le> int (unat y) - int (unat cur)
    \<and> (y = n \<or> int (unat y) - int (unat cur) < TIMER_INTERVAL_MIN qemu + int (unat (TIMER_INTERVAL qemu)))"
proof (induction "2 ^ 32 - unat n" arbitrary: n rule: less_induct)
  case less
  let ?n' = "n + TIMER_INTERVAL qemu"
  show ?case
  proof (cases "int (unat n) - int (unat cur) < TIMER_INTERVAL_MIN qemu")
    case True
    have "(2 :: int) ^ 32 = 4294967296" by simp
    then have "int (unat n) + int (unat (TIMER_INTERVAL qemu)) < 4294967296" using True assms by linarith
    then have "unat n + unat (TIMER_INTERVAL qemu) < 4294967296" by linarith
    then have n': "unat ?n' = unat n + unat (TIMER_INTERVAL qemu)" by (simp add: unat_word_ariths)
    moreover have "0 < unat (TIMER_INTERVAL qemu)" by (simp add: TIMER_INTERVAL_def)
    moreover have "unat n < 2 ^ 32" using unsigned_less [of n, where 'a = nat] by simp
    ultimately have "2 ^ 32 - unat ?n' < 2 ^ 32 - unat n" by linarith
    from less [OF this] obtain y where y: "next_timer_from qemu cur ?n' = Some y"
      "TIMER_INTERVAL_MIN qemu \<le> int (unat y) - int (unat cur)"
      "y = ?n' \<or> int (unat y) - int (unat cur) < TIMER_INTERVAL_MIN qemu + int (unat (TIMER_INTERVAL qemu))" by blast
    moreover have "next_timer_from qemu cur n = Some y" using True y(1) by (subst next_timer_from.simps) simp
    moreover have "int (unat ?n') - int (unat cur) < TIMER_INTERVAL_MIN qemu + int (unat (TIMER_INTERVAL qemu))"
      using True n' by linarith
    ultimately show ?thesis by blast
  next
    case False
    then show ?thesis by (subst next_timer_from.simps) auto
  qed
qed

subsection \<open>Waking the sleepers\<close>

text \<open>\<open>expired qemu now x\<close>: the test of \<open>kernel_timer_check_sleepers\<close> on a sleeper.\<close>

definition expired :: "bool \<Rightarrow> u64 \<Rightarrow> act_t \<Rightarrow> bool" where
  "expired qemu now x \<longleftrightarrow> timeout_length x < now - timeout_start x \<and> \<not> (qemu \<and> sint (now - timeout_start x) < 0)"

lemma sleeper_not_idle:
  assumes "kernel_inv A s" "a \<in> A"
    and "sched_status (acts s a) AND sched_wait_timeout \<noteq> 0 \<or> sched_status (acts s a) = sched_terminated"
  shows "\<not> is_idle (acts s a)"
proof -
  have "sched_status (acts s a) \<le> sched_running \<Longrightarrow>
      sched_status (acts s a) AND sched_wait_timeout = 0 \<and> sched_status (acts s a) \<noteq> sched_terminated"
    unfolding le_running_iff by (auto simp: sched_status_defs)
  then show ?thesis using assms kernel_invD(1) [OF assms(1)] by (auto simp: sched_inv_def idle_inv_def)
qed

text \<open>What a wake-up and a reschedule leave alone: the clocks and the recorded timeouts.\<close>

definition clock_view :: "kstate \<Rightarrow> (nat \<Rightarrow> u64) \<times> (nat \<Rightarrow> u32) \<times> (nat \<Rightarrow> u32) \<times> (nat \<Rightarrow> u64 \<times> u64)" where
  "clock_view s = (high_resolution_timers s, kernel_last_timer s, cpu_compare s,
     \<lambda>a. (timeout_start (acts s a), timeout_length (acts s a)))"

lemma clock_viewD:
  assumes "clock_view s' = clock_view s"
  shows "timeout_start (acts s' b) = timeout_start (acts s b)" "timeout_length (acts s' b) = timeout_length (acts s b)"
    "high_resolution_timers s' = high_resolution_timers s" "kernel_last_timer s' = kernel_last_timer s"
  using assms by (auto simp: clock_view_def fun_eq_iff)

lemma clock_view_upd [simp]:
  "(\<And>x. timeout_start (f x) = timeout_start x) \<Longrightarrow> (\<And>x. timeout_length (f x) = timeout_length x) \<Longrightarrow>
     clock_view (upd_act a f s) = clock_view s"
  "clock_view (upd_pool p g s) = clock_view s" "clock_view (upd_q p l h s) = clock_view s"
  "clock_view (unlock_act a s) = clock_view s" "clock_view (unlock_pool p s) = clock_view s"
  "clock_view (sched_deschedule a s) = clock_view s"
  "clock_view (s\<lparr>sleeps := sl\<rparr>) = clock_view s"
  by (auto simp: clock_view_def upd_act_def upd_pool_def upd_q_def unlock_act_def unlock_pool_def
      sched_deschedule_def fun_eq_iff)

lemma clock_view_queue:
  "lock_act a s = Some s' \<Longrightarrow> clock_view s' = clock_view s"
  "lock_pool p s = Some s' \<Longrightarrow> clock_view s' = clock_view s"
  "add_act_to_queue p a st s = Some s' \<Longrightarrow> clock_view s' = clock_view s"
  "delete_act_from_queue p a st s = Some s' \<Longrightarrow> clock_view s' = clock_view s"
  "kernel_timer_unsubcsribe a s = Some s' \<Longrightarrow> clock_view s' = clock_view s"
  by (auto simp: lock_act_def lock_pool_def add_act_to_queue_def delete_act_from_queue_def
      kernel_timer_unsubcsribe_def Let_def bind_Some_conv split: if_splits)

lemma clock_view_receive:
  assumes "sched_receive_event a ev s = Some s'" shows "clock_view s' = clock_view s"
proof -
  have *: "timeout_start (set_fast_res c x) = timeout_start x" "timeout_length (set_fast_res c x) = timeout_length x" for c x
    by (simp_all add: set_fast_res_def)
  show ?thesis using assms
    by (auto simp: sched_receive_event_def Let_def bind_Some_conv * split: if_splits dest!: clock_view_queue)
qed

lemma clock_view_picknext:
  assumes "sched_picknext p s = Some (n, s')" shows "clock_view s' = clock_view s"
proof -
  obtain s1 where s1: "lock_pool p s = Some s1" using assms by (auto simp: sched_picknext_def bind_Some_conv)
  obtain l qs where pl: "picked_level (queues (sched_pools s1 p)) = (l, qs)" by force
  show ?thesis using assms clock_view_queue(2) [OF s1]
    by (auto simp: sched_picknext_def s1 pl Let_def bind_Some_conv split: if_splits dest!: clock_view_queue)
qed

lemma clock_view_reschedule:
  "sched_reschedule cpu hint in_exc s = Some (sw, s') \<Longrightarrow> clock_view s' = clock_view s"
  by (auto simp: sched_reschedule_def sched_schedule_def Let_def bind_Some_conv
      split: if_splits option.splits dest!: clock_view_queue clock_view_picknext)

lemma receive_slots:
  assumes "sched_receive_event a ev s = Some s'" "j \<noteq> timeout_indx (acts s a)"
  shows "sleeps s' ! j = sleeps s ! j"
proof -
  have q: "sleeps s2 = sleeps s1" if "add_act_to_queue p b st s1 = Some s2" for p b st s1 s2
    using that by (auto simp: add_act_to_queue_def lock_pool_def unlock_pool_def upd_q_def Let_def split: if_splits)
  have "timeout_indx (set_fast_res c x) = timeout_indx x" for c x by (simp add: set_fast_res_def)
  then show ?thesis using assms
    by (auto simp: sched_receive_event_def Let_def bind_Some_conv lock_act_def unlock_act_def
        kernel_timer_unsubcsribe_def split: if_splits dest!: q)
qed

text \<open>One slot: its sleeper is woken exactly when its time has passed.\<close>

lemma check_sleeper_ok:
  assumes inv: "kernel_inv A s" and i: "i < MAX_WAITERS"
  shows "\<exists>s'. check_sleeper qemu now i s = Some s' \<and> kernel_inv A s' \<and> clock_view s' = clock_view s
    \<and> (\<forall>j. j \<noteq> i \<longrightarrow> sleeps s' ! j = sleeps s ! j)
    \<and> (\<forall>b. sched_status (acts s' b) = (if sleeps s ! i = Some b \<and> expired qemu now (acts s b)
        \<and> sched_status (acts s b) \<noteq> sched_terminated then sched_runnable else sched_status (acts s b)))
    \<and> (\<forall>p. current_act (sched_pools s' p) = current_act (sched_pools s p)
         \<and> idle_act (sched_pools s' p) = idle_act (sched_pools s p))"
proof (cases "sleeps s ! i")
  case None
  then show ?thesis using inv by (simp add: check_sleeper_def)
next
  case (Some a)
  show ?thesis
  proof (cases "expired qemu now (acts s a)")
    case False
    then show ?thesis using inv Some by (auto simp: check_sleeper_def expired_def Let_def)
  next
    case True
    then have eq: "check_sleeper qemu now i s = sched_receive_event a sched_wait_timeout s"
      using Some by (auto simp: check_sleeper_def expired_def Let_def)
    have a: "a \<in> A" "timeout_indx (acts s a) = i" and st: "sched_status (acts s a) AND sched_wait_timeout \<noteq> 0 \<or> sched_status (acts s a) = sched_terminated"
      using kernel_invD(1) [OF inv] i Some unfolding sched_inv_def timer_inv_def by auto
    have low: "sched_wait_timeout AND 0xF = 0" "sched_wait_timeout AND sched_sync_block = 0"
      "sched_waiting AND sched_wait_timeout = 0" "sched_terminated AND sched_wait_timeout = 0"
      by (simp_all add: sched_status_defs)
    have ev: "effective_events sched_wait_timeout (acts s a) = sched_wait_timeout"
      by (simp add: effective_events_def low)
    have sync: "sched_wait_timeout AND sched_sync_block \<noteq> 0 \<longrightarrow> sync_condition (sync_state (acts s a)) = 1"
      by (simp add: low)
    obtain s' where s': "sched_receive_event a sched_wait_timeout s = Some s'" "kernel_inv A s'"
      "sched_status (acts s a) AND sched_wait_timeout \<noteq> 0 \<Longrightarrow> sched_status (acts s' a) = sched_runnable"
      "sched_status (acts s a) AND sched_wait_timeout = 0 \<Longrightarrow> sched_status (acts s' a) = sched_status (acts s a)"
      "\<And>b. b \<noteq> a \<Longrightarrow> sched_status (acts s' b) = sched_status (acts s b)"
      "\<And>p. current_act (sched_pools s' p) = current_act (sched_pools s p)"
      "\<And>p. idle_act (sched_pools s' p) = idle_act (sched_pools s p)"
      by (rule receive_ok [OF inv a(1) sleeper_not_idle [OF inv a(1) st] low(1) sync]) (use that in \<open>auto simp: ev\<close>)
    have "sched_status (acts s' b) = (if sleeps s ! i = Some b \<and> expired qemu now (acts s b)
        \<and> sched_status (acts s b) \<noteq> sched_terminated then sched_runnable else sched_status (acts s b))" for b
    proof (cases "b = a")
      case True
      then show ?thesis
        using s'(3,4) st low(4) \<open>expired qemu now (acts s a)\<close> Some by auto
    qed (use s'(5) Some in auto)
    then show ?thesis using s'(1,2,6,7) clock_view_receive [OF s'(1)] receive_slots [OF s'(1)] a(2) by (simp add: eq)
  qed
qed

text \<open>All slots.\<close>

definition woken :: "bool \<Rightarrow> u64 \<Rightarrow> nat \<Rightarrow> kstate \<Rightarrow> bool" where
  "woken qemu now b s \<longleftrightarrow> sched_status (acts s b) AND sched_wait_timeout \<noteq> 0 \<and> expired qemu now (acts s b)"

lemma check_sleepers_ok:
  assumes inv: "kernel_inv A s"
  shows "\<exists>s'. kernel_timer_check_sleepers qemu now s = Some s' \<and> kernel_inv A s' \<and> clock_view s' = clock_view s
    \<and> (\<forall>b \<in> A. sched_status (acts s' b) = (if woken qemu now b s then sched_runnable else sched_status (acts s b)))
    \<and> (\<forall>p. current_act (sched_pools s' p) = current_act (sched_pools s p)
         \<and> idle_act (sched_pools s' p) = idle_act (sched_pools s p))"
proof -
  let ?wake = "\<lambda>b. expired qemu now (acts s b) \<and> sched_status (acts s b) \<noteq> sched_terminated"
  define P where "P xs s' \<longleftrightarrow> kernel_inv A s' \<and> clock_view s' = clock_view s
    \<and> (\<forall>j. j \<notin> set xs \<longrightarrow> sleeps s' ! j = sleeps s ! j)
    \<and> (\<forall>b. sched_status (acts s' b) = (if (\<exists>i \<in> set xs. sleeps s ! i = Some b) \<and> ?wake b
              then sched_runnable else sched_status (acts s b)))
    \<and> (\<forall>p. current_act (sched_pools s' p) = current_act (sched_pools s p)
         \<and> idle_act (sched_pools s' p) = idle_act (sched_pools s p))" for xs s'
  have ne: "sched_runnable \<noteq> sched_terminated" by (simp add: sched_status_defs)
  have slots: "timer_inv A s" using kernel_invD(1) [OF inv] by (simp add: sched_inv_def)
  have "\<exists>s'. for_each (check_sleeper qemu now) [0..<MAX_WAITERS] s = Some s' \<and> P [0..<MAX_WAITERS] s'"
  proof (rule for_each_inv)
    show "P [] s" using inv by (simp add: P_def)
    fix xs i ys s1 assume split: "[0..<MAX_WAITERS] = xs @ i # ys" and p: "P xs s1"
    have i: "i < MAX_WAITERS" "i \<notin> set xs"
      using arg_cong [OF split, of set] arg_cong [OF split, of distinct] by auto
    have e: "expired qemu now (acts s1 b) = expired qemu now (acts s b)" for b
      using p clock_viewD(1,2) [of s1 s b] by (simp add: P_def expired_def)
    obtain s2 where s2: "check_sleeper qemu now i s1 = Some s2" "kernel_inv A s2" "clock_view s2 = clock_view s1"
      "\<forall>j. j \<noteq> i \<longrightarrow> sleeps s2 ! j = sleeps s1 ! j"
      "\<forall>b. sched_status (acts s2 b) = (if sleeps s1 ! i = Some b \<and> expired qemu now (acts s1 b)
        \<and> sched_status (acts s1 b) \<noteq> sched_terminated then sched_runnable else sched_status (acts s1 b))"
      "\<forall>p. current_act (sched_pools s2 p) = current_act (sched_pools s1 p)
         \<and> idle_act (sched_pools s2 p) = idle_act (sched_pools s1 p)"
      using check_sleeper_ok [of A s1 i qemu now] p i(1) unfolding P_def by blast
    have sl: "sleeps s1 ! i = sleeps s ! i" using p i(2) by (simp add: P_def)
    have st1: "sched_status (acts s1 b) = (if (\<exists>i \<in> set xs. sleeps s ! i = Some b) \<and> ?wake b
        then sched_runnable else sched_status (acts s b))" for b using p by (simp add: P_def)
    have "sched_status (acts s2 b) = (if (\<exists>i \<in> set (xs @ [i]). sleeps s ! i = Some b) \<and> ?wake b
        then sched_runnable else sched_status (acts s b))" for b
      unfolding spec [OF s2(5), of b] e sl st1 using ne by (auto split: if_split)
    then have "P (xs @ [i]) s2"
      using p s2(2,3,4,6) by (simp add: P_def)
    then show "\<exists>s'. check_sleeper qemu now i s1 = Some s' \<and> P (xs @ [i]) s'" using s2(1) by blast
  qed
  then obtain s' where s': "kernel_timer_check_sleepers qemu now s = Some s'" "P [0..<MAX_WAITERS] s'"
    by (auto simp: kernel_timer_check_sleepers_def)
  have "sched_status (acts s' b) = (if woken qemu now b s then sched_runnable else sched_status (acts s b))" if "b \<in> A" for b
  proof -
    have "(\<exists>i \<in> set [0..<MAX_WAITERS]. sleeps s ! i = Some b) \<and> ?wake b \<longleftrightarrow> woken qemu now b s"
    proof
      assume l: "(\<exists>i \<in> set [0..<MAX_WAITERS]. sleeps s ! i = Some b) \<and> ?wake b"
      then obtain i where "i < MAX_WAITERS" "sleeps s ! i = Some b" by auto
      then have "sched_status (acts s b) AND sched_wait_timeout \<noteq> 0 \<or> sched_status (acts s b) = sched_terminated"
        using slots unfolding timer_inv_def by blast
      then show "woken qemu now b s" using l by (simp add: woken_def)
    next
      assume r: "woken qemu now b s"
      then have "timeout_indx (acts s b) < MAX_WAITERS \<and> sleeps s ! timeout_indx (acts s b) = Some b"
        using slots that unfolding timer_inv_def woken_def by blast
      moreover have "sched_status (acts s b) \<noteq> sched_terminated" using r by (auto simp: woken_def sched_status_defs)
      ultimately show "(\<exists>i \<in> set [0..<MAX_WAITERS]. sleeps s ! i = Some b) \<and> ?wake b"
        using r by (auto simp: woken_def)
    qed
    then show ?thesis using s'(2) by (simp add: P_def)
  qed
  then show ?thesis using s' by (simp add: P_def)
qed

subsection \<open>The tick\<close>

lemma kernel_inv_frame:
  assumes "acts s' = acts s" "sched_pools s' = sched_pools s" "sleeps s' = sleeps s"
  shows "kernel_inv A s' = kernel_inv A s"
proof -
  have "same_view s s'" using assms by (simp add: same_view_def q_eq_def)
  then show ?thesis using same_view_inv [of s s'] assms by (simp add: kernel_inv_def unlocked_but_def)
qed

lemma clock_fields_inv [simp]:
  "kernel_inv A (s\<lparr>high_resolution_timers := h\<rparr>) = kernel_inv A s"
  "kernel_inv A (s\<lparr>cpu_compare := c\<rparr>) = kernel_inv A s"
  "kernel_inv A (s\<lparr>kernel_last_timer := k\<rparr>) = kernel_inv A s"
  by (rule kernel_inv_frame; simp)+

lemma tick_ok:
  assumes "kernel_inv A s" "current_act (sched_pools s cpu) = Some c" "idle_act (sched_pools s cpu) \<noteq> None"
    and "high_resolution_timers s cpu < get_high_res_time cpu count s"
    and "int (unat (reads 0)) + TIMER_INTERVAL_MIN qemu + int (unat (TIMER_INTERVAL qemu)) \<le> 2 ^ 32"
  shows "\<exists>s'. kernel_timer qemu cpu count reads s = Some s' \<and> kernel_inv A s'
    \<and> high_resolution_timers s' cpu = get_high_res_time cpu count s
    \<and> (\<forall>b \<in> A. sched_status (acts s b) AND sched_wait_timeout \<noteq> 0
          \<and> expired qemu (get_high_res_time cpu count s) (acts s b) \<longrightarrow> sched_status (acts s' b) \<le> sched_running)
    \<and> (\<forall>b \<in> A. \<not> sched_status (acts s b) \<le> sched_running
          \<and> \<not> (sched_status (acts s b) AND sched_wait_timeout \<noteq> 0
                 \<and> expired qemu (get_high_res_time cpu count s) (acts s b)) \<longrightarrow>
          sched_status (acts s' b) = sched_status (acts s b))
    \<and> TIMER_INTERVAL_MIN qemu \<le> int (unat (cpu_compare s' cpu)) - int (unat (reads 0))
    \<and> (cpu_compare s' cpu = kernel_last_timer s cpu + TIMER_INTERVAL qemu \<or>
         int (unat (cpu_compare s' cpu)) - int (unat (reads 0)) < TIMER_INTERVAL_MIN qemu + int (unat (TIMER_INTERVAL qemu)))"
proof -
  define now where "now = get_high_res_time cpu count s"
  define s0 where "s0 = s\<lparr>high_resolution_timers := (high_resolution_timers s)(cpu := now)\<rparr>"
  have inv0: "kernel_inv A s0" using assms(1) by (simp add: s0_def)
  obtain s1 where s1: "kernel_timer_check_sleepers qemu now s0 = Some s1" "kernel_inv A s1" "clock_view s1 = clock_view s0"
    "\<forall>b \<in> A. sched_status (acts s1 b) = (if woken qemu now b s0 then sched_runnable else sched_status (acts s0 b))"
    "\<forall>p. current_act (sched_pools s1 p) = current_act (sched_pools s0 p)
         \<and> idle_act (sched_pools s1 p) = idle_act (sched_pools s0 p)"
    using check_sleepers_ok [OF inv0, of qemu now] by blast
  have cur: "current_act (sched_pools s1 cpu) = Some c" "idle_act (sched_pools s1 cpu) \<noteq> None"
    using s1(5) assms(2,3) by (simp_all add: s0_def)
  define n where "n = chosen cpu None s1"
  obtain sw s2 where s2: "sched_reschedule cpu None True s1 = Some (sw, s2)" "kernel_inv A s2"
    "current_act (sched_pools s2 cpu) = Some n" "sched_status (acts s1 n) \<le> sched_running"
    "\<And>b. b \<noteq> c \<Longrightarrow> b \<noteq> n \<Longrightarrow> sched_status (acts s2 b) = sched_status (acts s1 b)"
    "n \<noteq> c \<Longrightarrow> sched_status (acts s2 c) =
        (if sched_status (acts s1 c) = sched_running then sched_runnable else sched_status (acts s1 c))"
    unfolding n_def
    by (rule reschedule_kernel_inv [where hint = None and in_exc = True, OF kernel_invD(1,2) [OF s1(2)] cur(2) _ cur(1)])
       (use kernel_invD(6) [OF s1(2)] cur that in auto)
  have c: "sched_status (acts s1 c) = sched_running" using kernel_invD(6) [OF s1(2) cur(1)] .
  have n: "sched_status (acts s2 n) = sched_running" using kernel_invD(6) [OF s2(2,3)] .
  have st: "sched_status (acts s1 b) \<le> sched_running \<longleftrightarrow> sched_status (acts s2 b) \<le> sched_running"
    "\<not> sched_status (acts s1 b) \<le> sched_running \<Longrightarrow> sched_status (acts s2 b) = sched_status (acts s1 b)" for b
    using s2(4) s2(5) [of b] s2(6) c n by (cases "b = n"; cases "b = c"; auto simp: le_running_iff)+
  have kl: "kernel_last_timer s2 = kernel_last_timer s" "high_resolution_timers s2 cpu = now"
    using clock_viewD(3,4) [OF clock_view_reschedule [OF s2(1)]] clock_viewD(3,4) [OF s1(3)] by (simp_all add: s0_def)
  obtain y where y: "rearm qemu (kernel_last_timer s cpu) reads 0 = Some y"
    "TIMER_INTERVAL_MIN qemu \<le> int (unat y) - int (unat (reads 0))"
    "y = kernel_last_timer s cpu + TIMER_INTERVAL qemu \<or>
       int (unat y) - int (unat (reads 0)) < TIMER_INTERVAL_MIN qemu + int (unat (TIMER_INTERVAL qemu))"
    unfolding rearm_eq using next_timer_from_returns [OF assms(5)] by blast
  define s' where "s' = s2\<lparr>cpu_compare := (cpu_compare s2)(cpu := y), kernel_last_timer := (kernel_last_timer s2)(cpu := y)\<rparr>"
  have run: "kernel_timer qemu cpu count reads s = Some s'"
    using assms(4) s1(1) s2(1) y(1) kl by (simp add: kernel_timer_def Let_def s0_def now_def s'_def)
  have w: "woken qemu now b s0 = (sched_status (acts s b) AND sched_wait_timeout \<noteq> 0 \<and> expired qemu now (acts s b))" for b
    by (simp add: woken_def s0_def)
  have up: "sched_status (acts s' b) \<le> sched_running" if "b \<in> A" "woken qemu now b s0" for b
  proof -
    have "sched_status (acts s1 b) \<le> sched_running" using s1(4) that by (simp add: sched_status_defs)
    then show ?thesis using st(1) [of b] by (simp add: s'_def)
  qed
  have same: "sched_status (acts s' b) = sched_status (acts s b)"
    if "b \<in> A" "\<not> sched_status (acts s b) \<le> sched_running" "\<not> woken qemu now b s0" for b
  proof -
    have "sched_status (acts s1 b) = sched_status (acts s b)" using s1(4) that by (simp add: s0_def)
    then show ?thesis using st(2) [of b] that(2) by (simp add: s'_def)
  qed
  have fin: "kernel_inv A s'" "high_resolution_timers s' cpu = now" "cpu_compare s' cpu = y"
    using s2(2) kl by (simp_all add: s'_def)
  show ?thesis
    unfolding now_def [symmetric] w [symmetric]
    by (rule exI [of _ s'], intro conjI ballI impI) (use run fin y(2,3) up same in \<open>simp_all only: fin(3) simp_thms\<close>)
qed

text \<open>
  C4. A timer interrupt, taken on a core that runs an activation while the clock
  has moved on and the cycle counter is not about to wrap, does not panic and
  returns. It keeps the scheduler's invariant; it records the new time; every
  sleeper whose timeout has passed is runnable or running afterwards, and every
  other blocked activation stays blocked on the same events; the compare register
  is set between \<open>TIMER_INTERVAL_MIN\<close> ticks and, unless that is the regular next
  tick, less than an interval more into the future.
\<close>

theorem timer_tick:
  assumes "kernel_inv A s" "current_act (sched_pools s cpu) = Some c" "idle_act (sched_pools s cpu) \<noteq> None"
    and "high_resolution_timers s cpu < get_high_res_time cpu count s"
    and "int (unat (reads 0)) + TIMER_INTERVAL_MIN qemu + int (unat (TIMER_INTERVAL qemu)) \<le> 2 ^ 32"
  shows "\<exists>s'. kernel_timer qemu cpu count reads s = Some s' \<and> kernel_inv A s'
    \<and> high_resolution_timers s' cpu = get_high_res_time cpu count s
    \<and> (\<forall>b \<in> A. sched_status (acts s b) AND sched_wait_timeout \<noteq> 0
          \<and> expired qemu (get_high_res_time cpu count s) (acts s b) \<longrightarrow> sched_status (acts s' b) \<le> sched_running)
    \<and> (\<forall>b \<in> A. \<not> sched_status (acts s b) \<le> sched_running
          \<and> \<not> (sched_status (acts s b) AND sched_wait_timeout \<noteq> 0
                 \<and> expired qemu (get_high_res_time cpu count s) (acts s b)) \<longrightarrow>
          sched_status (acts s' b) = sched_status (acts s b))
    \<and> TIMER_INTERVAL_MIN qemu \<le> int (unat (cpu_compare s' cpu)) - int (unat (reads 0))
    \<and> (cpu_compare s' cpu = kernel_last_timer s cpu + TIMER_INTERVAL qemu \<or>
         int (unat (cpu_compare s' cpu)) - int (unat (reads 0)) < TIMER_INTERVAL_MIN qemu + int (unat (TIMER_INTERVAL qemu)))"
  using assms by (rule tick_ok)

theorem timer_tick_witness:
  "\<exists>s'. kernel_timer True 0 1000 (\<lambda>_. 1000) demo = Some s' \<and> high_resolution_timers s' 0 = 1000"
proof -
  have d: "current_act (sched_pools demo 0) = Some 2" "idle_act (sched_pools demo 0) \<noteq> None"
    "get_high_res_time 0 1000 demo = 1000" "high_resolution_timers demo 0 < get_high_res_time 0 1000 demo"
    by (simp_all add: demo_defs get_high_res_time_def)
  have "int (unat ((\<lambda>_ :: nat. 1000 :: u32) 0)) + TIMER_INTERVAL_MIN True + int (unat (TIMER_INTERVAL True)) \<le> 2 ^ 32"
    by (simp add: TIMER_INTERVAL_def TIMER_INTERVAL_MIN_def)
  from timer_tick [OF demo_inv d(1,2,4) this] show ?thesis
    unfolding d(3) by (elim exE conjE) (intro exI conjI)
qed

text \<open>
  C36. Close to a wrap of the cycle counter the re-arming loop never ends: when the
  counter is within \<open>TIMER_INTERVAL_MIN\<close> ticks of \<open>2^32\<close>, no 32-bit value is far
  enough ahead of it, and the core hangs inside the timer interrupt.
\<close>

theorem timer_hangs_near_wrap:
  assumes "2 ^ 32 \<le> int (unat (reads 0)) + TIMER_INTERVAL_MIN qemu"
  shows "kernel_timer qemu cpu count reads s = None"
proof (rule ccontr)
  assume "kernel_timer qemu cpu count reads s \<noteq> None"
  then obtain s' where "kernel_timer qemu cpu count reads s = Some s'" by blast
  then have "\<exists>l y. rearm qemu l reads 0 = Some y"
    by (auto simp: kernel_timer_def Let_def bind_Some_conv split: if_splits)
  then show False using next_timer_from_diverges [OF assms] by (simp add: rearm_eq)
qed

theorem timer_hangs_near_wrap_witness:
  "kernel_timer True 0 0xFFFF0000 (\<lambda>_. 0xFFFF0000) (demo\<lparr>kernel_last_timer := (\<lambda>_. 0xFFFEFFFF)\<rparr>) = None"
  by (rule timer_hangs_near_wrap) (simp add: TIMER_INTERVAL_MIN_def)

lemma clock_view_sleepers:
  assumes "kernel_timer_check_sleepers qemu t s = Some s'"
  shows "clock_view s' = clock_view s"
proof -
  have one: "clock_view s2 = clock_view s1" if "check_sleeper qemu t i s1 = Some s2" for i s1 s2
    using that by (auto simp: check_sleeper_def Let_def split: if_splits option.splits dest!: clock_view_receive)
  have "clock_view s2 = clock_view s1" if "for_each (check_sleeper qemu t) xs s1 = Some s2" for xs s1 s2
    using that by (induction xs arbitrary: s1) (auto simp: bind_Some_conv dest!: one)
  then show ?thesis using assms by (simp add: kernel_timer_check_sleepers_def)
qed

text \<open>
  C26. The clock is exact. If the recorded time is not ahead of the true time \<open>T0\<close>
  and at most \<open>2^31\<close> ticks old when a timer interrupt is taken at \<open>T0\<close>, with the
  counter register holding the low half of the time, then at any later time \<open>T\<close>
  up to \<open>2^31\<close> ticks after the interrupt, \<open>get_high_res_time\<close> returns \<open>T\<close>: no
  wrap of the 32-bit counter is missed and none is counted twice.
\<close>

theorem clock_exact:
  assumes "kernel_timer qemu cpu count reads s = Some s'"
    and "unat (high_resolution_timers s cpu) \<le> T0" "T0 \<le> unat (high_resolution_timers s cpu) + 2 ^ 31"
    and "unat count = T0 mod 2 ^ 32" "T0 \<le> T" "T \<le> T0 + 2 ^ 31" "T < 2 ^ 64" "unat count' = T mod 2 ^ 32"
  shows "unat (get_high_res_time cpu count' s') = T"
proof -
  have "T0 < 2 ^ 64" using assms(5,7) by (rule le_less_trans)
  then have now: "unat (get_high_res_time cpu count s) = T0"
    by (rule get_high_res_time_exact_aux [OF assms(2,3) _ assms(4)])
  define s0 where "s0 = s\<lparr>high_resolution_timers := (high_resolution_timers s)(cpu := get_high_res_time cpu count s)\<rparr>"
  have "\<exists>s1 sw s2. kernel_timer_check_sleepers qemu (get_high_res_time cpu count s) s0 = Some s1
      \<and> sched_reschedule cpu None True s1 = Some (sw, s2) \<and> high_resolution_timers s' = high_resolution_timers s2"
    using assms(1) by (auto simp: kernel_timer_def Let_def bind_Some_conv s0_def split: if_splits)
  then obtain s1 sw s2 where s12: "kernel_timer_check_sleepers qemu (get_high_res_time cpu count s) s0 = Some s1"
    "sched_reschedule cpu None True s1 = Some (sw, s2)" "high_resolution_timers s' = high_resolution_timers s2" by blast
  have "high_resolution_timers s' cpu = get_high_res_time cpu count s"
    using clock_viewD(3) [OF clock_view_reschedule [OF s12(2)]] clock_viewD(3) [OF clock_view_sleepers [OF s12(1)]] s12(3)
    by (simp add: s0_def)
  then show ?thesis
    using get_high_res_time_exact_aux [of s' cpu T count'] now assms(5-8) by simp
qed

theorem clock_exact_witness:
  "\<exists>s'. kernel_timer True 0 0x1000 (\<lambda>_. 0x1000) demo = Some s' \<and> unat (get_high_res_time 0 0x5000 s') = 0x5000"
proof -
  have d: "current_act (sched_pools demo 0) = Some 2" "idle_act (sched_pools demo 0) \<noteq> None"
    "high_resolution_timers demo 0 = 0" "high_resolution_timers demo 0 < get_high_res_time 0 0x1000 demo"
    by (simp_all add: demo_defs get_high_res_time_def)
  have "int (unat ((\<lambda>_ :: nat. 0x1000 :: u32) 0)) + TIMER_INTERVAL_MIN True + int (unat (TIMER_INTERVAL True)) \<le> 2 ^ 32"
    by (simp add: TIMER_INTERVAL_def TIMER_INTERVAL_MIN_def)
  from tick_ok [OF demo_inv d(1,2,4) this] obtain s' where s': "kernel_timer True 0 0x1000 (\<lambda>_. 0x1000) demo = Some s'"
    by (elim exE conjE) (rule that)
  from clock_exact [OF s', where ?T0.0 = 4096 and T = 20480 and count' = 20480] d(3) s' show ?thesis by simp
qed

end
