(* ===== verification/Interrupts.thy ===== *)
theory Interrupts
  imports Timer Msg
begin

text \<open>
  Interrupts (\<open>cherios/kernel/src/interrupts.c\<close>, built for QEMU): activations register
  for an interrupt and enable it; a pending interrupt is masked and turned into a
  message to the registered activation. The nanokernel's interrupt controller is the
  word \<open>int_hw\<close> per core, whose bit \<open>n\<close> says that interrupt \<open>n\<close> is let through (on QEMU
  the interrupt mask of the status register of the core that runs the code, shifted
  to bit 0); the word of pending interrupts and the cause register are arguments.
\<close>

definition INTERRUPTS_N :: nat where "INTERRUPTS_N = 5"

definition interrupts_mask :: "nat \<Rightarrow> nat \<Rightarrow> bool \<Rightarrow> kstate \<Rightarrow> kstate" where
  "interrupts_mask cpu n enable s = (if n < INTERRUPTS_N then s\<lparr>int_hw := (int_hw s)(cpu :=
     (if enable then int_hw s cpu OR push_bit n 1 else int_hw s cpu AND NOT (push_bit n 1)))\<rparr> else s)"

text \<open>The interrupt bits of the core's status register: the global enable and the timer line.\<close>

record cpu_status =
  cpu_ie :: bool
  cpu_timer_ie :: bool

definition kernel_interrupts_init :: "bool \<Rightarrow> nat \<Rightarrow> u32 \<Rightarrow> cpu_status \<Rightarrow> kstate \<Rightarrow> (cpu_status \<times> kstate) option" where
  "kernel_interrupts_init enable_timer cpu_id count st s = do {
     kassert (\<not> cpu_ie st);
     let st = st\<lparr>cpu_ie := True\<rparr>;
     if enable_timer then do {
       s \<leftarrow> kernel_timer_init True cpu_id count s;
       Some (st\<lparr>cpu_timer_ie := True\<rparr>, s)
     } else Some (st, s)
   }"

definition int_msg :: "interrupt_register_t \<Rightarrow> nat \<Rightarrow> msg_t" where
  "int_msg r i = \<lparr>msg_c3 = int_carg r, msg_c4 = CNull, msg_c5 = CNull, msg_c6 = CNull, msg_c1 = CNull,
     msg_a0 = int_arg r, msg_a1 = of_nat i, msg_a2 = 0, msg_a3 = 0, msg_v0 = int_v0 r\<rparr>"

definition interrupt_other :: "u64 \<Rightarrow> nat \<Rightarrow> nat \<Rightarrow> kstate \<Rightarrow> kstate option" where
  "interrupt_other pending cpu_id i s =
     (if pending AND push_bit i 1 \<noteq> 0 then
        (case target (int_child s cpu_id i) of
           None \<Rightarrow> Some s
         | Some t \<Rightarrow> do {
             let s = interrupts_mask cpu_id i False s;
             let s = s\<lparr>masks := (masks s)(cpu_id := masks s cpu_id AND NOT (push_bit i 1))\<rparr>;
             (r, s) \<leftarrow> msg_push (int_msg (int_child s cpu_id i) i) t s;
             (sw, s) \<leftarrow> sched_got_int cpu_id t s;
             Some s
           })
      else Some s)"

definition kernel_interrupt_others :: "u64 \<Rightarrow> nat \<Rightarrow> kstate \<Rightarrow> kstate option" where
  "kernel_interrupt_others pending cpu_id = for_each (interrupt_other pending cpu_id) [0..<INTERRUPTS_N]"

definition restore_mask :: "nat \<Rightarrow> u64 \<Rightarrow> nat \<Rightarrow> kstate \<Rightarrow> kstate" where
  "restore_mask cpu_id msk i s = interrupts_mask cpu_id i (msk AND push_bit i 1 \<noteq> 0) s"

definition kernel_interrupt :: "u64 \<Rightarrow> bool \<Rightarrow> nat \<Rightarrow> u32 \<Rightarrow> (nat \<Rightarrow> u32) \<Rightarrow> kstate \<Rightarrow> kstate option" where
  "kernel_interrupt ipending handle_time cpu_id count reads s = do {
     let msk = masks s cpu_id;
     let toprocess = ipending AND msk;
     let s = (if \<not> (handle_time \<or> toprocess \<noteq> 0)
              then fold (restore_mask cpu_id msk) [0..<INTERRUPTS_N] s else s);
     s \<leftarrow> (if handle_time then kernel_timer True cpu_id count reads s else Some s);
     if toprocess \<noteq> 0 then kernel_interrupt_others toprocess cpu_id s else Some s
   }"

definition validate_number :: "int \<Rightarrow> int" where
  "validate_number number = (if number < 0 \<or> number \<ge> int INTERRUPTS_N then -1 else number)"

text \<open>The loop of \<open>kernel_interrupts_off\<close> and \<open>kernel_interrupts_on\<close> over the bits of the mask.\<close>

function mask_bits :: "bool \<Rightarrow> nat \<Rightarrow> u64 \<Rightarrow> nat \<Rightarrow> kstate \<Rightarrow> kstate" where
  "mask_bits enable cpu_id msk n s =
     (if msk = 0 then s
      else mask_bits enable cpu_id (drop_bit 1 msk) (n + 1)
             (if msk AND 1 \<noteq> 0 then interrupts_mask cpu_id n enable s else s))"
  by auto
termination
proof (relation "measure (\<lambda>(_, _, msk, _, _). unat msk)")
  fix enable :: bool and cpu_id n :: nat and msk :: u64 and s :: kstate
  assume "msk \<noteq> 0"
  then have "unat msk div 2 < unat msk" by (simp add: unat_gt_0)
  then show "((enable, cpu_id, drop_bit 1 msk, n + 1,
      if msk AND 1 \<noteq> 0 then interrupts_mask cpu_id n enable s else s), enable, cpu_id, msk, n, s)
    \<in> measure (\<lambda>(_, _, msk, _, _). unat msk)"
    by (simp add: unat_drop_bit_eq drop_bit_eq_div [where 'a = nat] del: drop_bit_eq_div)
qed simp

declare mask_bits.simps [simp del]

definition kernel_interrupts_off :: "nat \<Rightarrow> cpu_status \<times> kstate \<Rightarrow> int \<times> cpu_status \<times> kstate" where
  "kernel_interrupts_off cpu_id c = (case c of (st, s) \<Rightarrow>
     let st = st\<lparr>cpu_ie := False\<rparr>;
         s = s\<lparr>disabled := (disabled s)(cpu_id := True)\<rparr>;
         st = st\<lparr>cpu_timer_ie := False\<rparr>;
         s = mask_bits False cpu_id (masks s cpu_id) 0 s;
         st = st\<lparr>cpu_ie := True\<rparr>
     in (0, st, s))"

definition kernel_interrupts_on :: "nat \<Rightarrow> cpu_status \<times> kstate \<Rightarrow> int \<times> cpu_status \<times> kstate" where
  "kernel_interrupts_on cpu_id c = (case c of (st, s) \<Rightarrow>
     let st = st\<lparr>cpu_ie := False\<rparr>;
         s = s\<lparr>disabled := (disabled s)(cpu_id := False)\<rparr>;
         st = st\<lparr>cpu_timer_ie := True\<rparr>;
         s = mask_bits True cpu_id (masks s cpu_id) 0 s;
         st = st\<lparr>cpu_ie := True\<rparr>
     in (0, st, s))"

definition kernel_interrupt_enable :: "nat \<Rightarrow> int \<Rightarrow> nat \<Rightarrow> kstate \<Rightarrow> int \<times> kstate" where
  "kernel_interrupt_enable cpu_id number ctrl s =
     (let number = validate_number number in
      if number < 0 then (-1, s)
      else if target (int_child s cpu_id (nat number)) \<noteq> Some ctrl then (-1, s)
      else (let s = s\<lparr>masks := (masks s)(cpu_id := masks s cpu_id OR push_bit (nat number) 1)\<rparr>
            in (0, if disabled s cpu_id then s else interrupts_mask cpu_id (nat number) True s)))"

text \<open>
  Registering reads every slot of the caller's queue first, so that an interrupt does
  not fault on it; a queue shorter than its mask traps there.
\<close>

definition touch_slots :: "act_t \<Rightarrow> unit option" where
  "touch_slots x = kassert (unat (queue_mask x) < length (queue_msg (msg_queue x)))"

definition kernel_interrupt_register ::
  "nat \<Rightarrow> int \<Rightarrow> nat \<Rightarrow> u64 \<Rightarrow> u64 \<Rightarrow> capability \<Rightarrow> kstate \<Rightarrow> (int \<times> kstate) option" where
  "kernel_interrupt_register cpu_id number ctrl v0 arg carg s =
     (let number = validate_number number in
      if number < 0 then Some (-1, s)
      else if target (int_child s cpu_id (nat number)) \<noteq> None
              \<and> target (int_child s cpu_id (nat number)) \<noteq> Some ctrl then Some (-1, s)
      else do {
        touch_slots (acts s ctrl);
        Some (0, s\<lparr>int_child := (int_child s)(cpu_id := (int_child s cpu_id)(nat number :=
             \<lparr>target = Some ctrl, int_v0 = v0, int_carg = carg, int_arg = arg\<rparr>))\<rparr>)
      })"

subsection \<open>The controller follows the masks\<close>

definition hw_ok :: "kstate \<Rightarrow> bool" where
  "hw_ok s \<longleftrightarrow> (\<forall>cpu. int_hw s cpu = (if disabled s cpu then 0 else masks s cpu))"

lemma interrupts_mask_sel [simp]:
  "masks (interrupts_mask cpu n e s) = masks s" "disabled (interrupts_mask cpu n e s) = disabled s"
  "int_child (interrupts_mask cpu n e s) = int_child s"
  "acts (interrupts_mask cpu n e s) = acts s" "sched_pools (interrupts_mask cpu n e s) = sched_pools s"
  "sleeps (interrupts_mask cpu n e s) = sleeps s"
  by (simp_all add: interrupts_mask_def)

lemma push_bit_low:
  fixes m :: u64
  shows "push_bit n m = (if m AND 1 \<noteq> 0 then push_bit n 1 else 0) OR push_bit (n + 1) (drop_bit 1 m)"
proof (rule bit_word_eqI)
  fix k
  assume k: "k < LENGTH(64)"
  have low: "m AND 1 \<noteq> 0 \<longleftrightarrow> bit m 0"
    by (simp add: and_one_eq bit_0 odd_iff_mod_2_eq_one)
  consider "k < n" | "k = n" | "n < k" by linarith
  then show "bit (push_bit n m) k \<longleftrightarrow>
      bit ((if m AND 1 \<noteq> 0 then push_bit n 1 else 0) OR push_bit (n + 1) (drop_bit 1 m)) k"
    unfolding low using k by cases (auto simp: bit_simps Suc_diff_Suc simp del: push_bit_Suc)
qed

lemma push_bit_low_lines:
  fixes m :: u64
  shows "take_bit INTERRUPTS_N (push_bit n m) =
    (if m AND 1 \<noteq> 0 \<and> n < INTERRUPTS_N then push_bit n 1 else 0) OR take_bit INTERRUPTS_N (push_bit (n + 1) (drop_bit 1 m))"
proof -
  have "take_bit INTERRUPTS_N (push_bit n (1 :: u64)) = (if n < INTERRUPTS_N then push_bit n 1 else 0)"
    by (rule bit_word_eqI) (auto simp: bit_simps)
  then show ?thesis by (subst push_bit_low) (simp add: take_bit_or)
qed

lemma mask_bits_eq:
  "mask_bits e cpu m n s = s\<lparr>int_hw := (int_hw s)(cpu := (if e then int_hw s cpu OR take_bit INTERRUPTS_N (push_bit n m)
     else int_hw s cpu AND NOT (take_bit INTERRUPTS_N (push_bit n m))))\<rparr>"
proof (induction e cpu m n s rule: mask_bits.induct)
  case (1 e cpu m n s)
  show ?case
  proof (cases "m = 0")
    case True
    then show ?thesis by (subst mask_bits.simps) simp
  next
    case False
    show ?thesis
      by (subst mask_bits.simps, subst push_bit_low_lines [of n m], subst push_bit_low_lines [of n m],
          simp only: False if_False 1 [OF False])
        (simp add: interrupts_mask_def or.assoc and.assoc)
  qed
qed

text \<open>\<open>irq_view\<close>: what the scheduler and the message queues do not touch of the interrupt state.\<close>

definition irq_view :: "kstate \<Rightarrow> (nat \<Rightarrow> u64) \<times> (nat \<Rightarrow> bool) \<times> (nat \<Rightarrow> u64) \<times> (nat \<Rightarrow> nat \<Rightarrow> interrupt_register_t) \<times> (nat \<Rightarrow> nat option)" where
  "irq_view s = (masks s, disabled s, int_hw s, int_child s, \<lambda>p. idle_act (sched_pools s p))"

lemma irq_viewD:
  assumes "irq_view s' = irq_view s"
  shows "masks s' = masks s" "disabled s' = disabled s" "int_hw s' = int_hw s" "int_child s' = int_child s"
    "idle_act (sched_pools s' p) = idle_act (sched_pools s p)"
  using assms by (auto simp: irq_view_def fun_eq_iff)

lemma irq_view_upd [simp]:
  "irq_view (upd_act a f s) = irq_view s"
  "(\<And>x. idle_act (g x) = idle_act x) \<Longrightarrow> irq_view (upd_pool p g s) = irq_view s"
  "irq_view (upd_q p l h s) = irq_view s"
  "irq_view (unlock_act a s) = irq_view s" "irq_view (unlock_pool p s) = irq_view s"
  "irq_view (sched_deschedule a s) = irq_view s" "irq_view (s\<lparr>sleeps := sl\<rparr>) = irq_view s"
  "irq_view (kernel_timer_start_count cpu count a s) = irq_view s"
  by (auto simp: irq_view_def upd_act_def upd_pool_def upd_q_def unlock_act_def unlock_pool_def
      sched_deschedule_def kernel_timer_start_count_def fun_eq_iff)

lemma irq_view_queue:
  "lock_act a s = Some s' \<Longrightarrow> irq_view s' = irq_view s"
  "lock_pool p s = Some s' \<Longrightarrow> irq_view s' = irq_view s"
  "add_act_to_queue p a st s = Some s' \<Longrightarrow> irq_view s' = irq_view s"
  "delete_act_from_queue p a st s = Some s' \<Longrightarrow> irq_view s' = irq_view s"
  "kernel_timer_unsubcsribe a s = Some s' \<Longrightarrow> irq_view s' = irq_view s"
  by (auto simp: lock_act_def lock_pool_def add_act_to_queue_def delete_act_from_queue_def
      kernel_timer_unsubcsribe_def Let_def bind_Some_conv split: if_splits option.splits)

lemma irq_view_receive:
  "sched_receive_event a ev s = Some s' \<Longrightarrow> irq_view s' = irq_view s"
  by (auto simp: sched_receive_event_def Let_def bind_Some_conv split: if_splits dest!: irq_view_queue)

lemma irq_view_picknext:
  assumes "sched_picknext p s = Some (n, s')" shows "irq_view s' = irq_view s"
proof -
  obtain s1 where s1: "lock_pool p s = Some s1" using assms by (auto simp: sched_picknext_def bind_Some_conv)
  obtain l qs where pl: "picked_level (queues (sched_pools s1 p)) = (l, qs)" by force
  show ?thesis using assms irq_view_queue(2) [OF s1]
    by (auto simp: sched_picknext_def s1 pl Let_def bind_Some_conv split: if_splits dest!: irq_view_queue)
qed

lemma irq_view_reschedule:
  "sched_reschedule cpu hint in_exc s = Some (sw, s') \<Longrightarrow> irq_view s' = irq_view s"
  by (auto simp: sched_reschedule_def sched_schedule_def Let_def bind_Some_conv
      split: if_splits option.splits dest!: irq_view_queue irq_view_picknext)

lemma irq_view_push: "msg_push m t s = Some (r, s') \<Longrightarrow> irq_view s' = irq_view s"
  by (auto simp: msg_push_def Let_def bind_Some_conv split: if_splits dest!: irq_view_receive)

lemma irq_view_got_int: "sched_got_int cpu a s = Some (sw, s') \<Longrightarrow> irq_view s' = irq_view s"
  by (auto simp: sched_got_int_def Let_def bind_Some_conv split: if_splits
      dest!: irq_view_queue irq_view_reschedule)

lemma ipc_view_got_int: "sched_got_int cpu a s = Some (sw, s') \<Longrightarrow> ipc_view s' = ipc_view s"
  by (auto simp: sched_got_int_def Let_def bind_Some_conv split: if_splits
      dest!: ipc_view_queue ipc_view_reschedule)

lemma core_ready_push:
  "msg_push m t s = Some (r, s') \<Longrightarrow> (\<forall>p. current_act (sched_pools s' p) = current_act (sched_pools s p)) \<Longrightarrow>
   core_ready cpu s' = core_ready cpu s"
  by (simp add: core_ready_def irq_viewD(5) [OF irq_view_push])

subsection \<open>Pending interrupts become messages\<close>

text \<open>
  \<open>irq_inv A s\<close>: the kernel's invariant, every registered target can be sent to, and
  the controller follows the masks, which only use the existing lines.
\<close>

definition irq_inv :: "nat set \<Rightarrow> kstate \<Rightarrow> bool" where
  "irq_inv A s \<longleftrightarrow> kernel_inv A s \<and> hw_ok s \<and> (\<forall>cpu. take_bit INTERRUPTS_N (masks s cpu) = masks s cpu)
     \<and> (\<forall>cpu i t. target (int_child s cpu i) = Some t \<longrightarrow>
          t \<in> A \<and> \<not> is_idle (acts s t) \<and> ring_ok (acts s t) \<and> 0 < ring_budget (acts s t))"

lemma ring_budget_cong:
  "msg_queue x = msg_queue y \<Longrightarrow> queue_mask x = queue_mask y \<Longrightarrow> ring_budget x = ring_budget y"
  by (simp add: ring_budget_def)

text \<open>Sending to a queue with or without room: the message is appended, or refused and dropped.\<close>

lemma push_take:
  assumes inv: "kernel_inv A s" and t: "t \<in> A" "\<not> is_idle (acts s t)"
    and ring: "ring_ok (acts s t)" "0 < ring_budget (acts s t)"
  shows "\<exists>r s' x. msg_push m t s = Some (r, s') \<and> kernel_inv A s' \<and> ipc_view s' = ipc_view (upd_act t (\<lambda>_. x) s)
    \<and> is_idle x = is_idle (acts s t) \<and> status x = status (acts s t) \<and> ring_ok x \<and> 0 < ring_budget x \<and> ring_cap x = ring_cap (acts s t)
    \<and> ring_items x = take (ring_cap (acts s t)) (ring_items (acts s t) @ [m])
    \<and> (\<forall>p. current_act (sched_pools s' p) = current_act (sched_pools s p))"
proof (cases "length (ring_items (acts s t)) < ring_cap (acts s t)")
  case True
  obtain x where x: "ring_put m (acts s t) = Some x" "ring_ok x" "ring_items x = ring_items (acts s t) @ [m]"
    "ring_cap x = ring_cap (acts s t)" "ring_budget (acts s t) \<le> ring_budget x"
    using ring.put_room [OF ring(1) True, of m] by blast
  obtain q w where "x = (acts s t)\<lparr>msg_queue := q, msg_tsx := w\<rparr>"
    using try_push_fields x(1) unfolding ring_put_try by blast
  then have "is_idle x = is_idle (acts s t)" "status x = status (acts s t)" by simp_all
  moreover have ne: "header_start (msg_queue x) \<noteq> header_end x" by (rule ring_put_nonempty [OF ring(1) x(1) True])
  moreover obtain s' where "msg_push m t s = Some (0, s')" "kernel_inv A s'" "ipc_view s' = ipc_view (upd_act t (\<lambda>_. x) s)"
    "\<forall>p. current_act (sched_pools s' p) = current_act (sched_pools s p)"
    using msg_push_ok [OF inv t x(1) ne] by blast
  ultimately show ?thesis using x True ring(2)
    by (intro exI [of _ 0] exI [of _ s'] exI [of _ x]) simp
next
  case False
  then have full: "length (ring_items (acts s t)) = ring_cap (acts s t)" using ring.bounded [OF ring(1)] by linarith
  then have "queue_full (acts s t)" using queue_full_fill [OF ring(2)] by (simp add: ring_items_def)
  moreover have same: "upd_act t (\<lambda>_. acts s t) s = s" by (simp add: upd_act_def)
  ultimately have "msg_push m t s = Some (-1, s)" by (simp add: msg_push_def try_push_def)
  moreover note same
  ultimately show ?thesis using inv ring full
    by (intro exI [of _ "-1"] exI [of _ s] exI [of _ "acts s t"]) simp
qed

definition mask_off :: "nat \<Rightarrow> nat \<Rightarrow> kstate \<Rightarrow> kstate" where
  "mask_off cpu i s = (interrupts_mask cpu i False s)\<lparr>masks := (masks s)(cpu := masks s cpu AND NOT (push_bit i 1))\<rparr>"

lemma mask_off_sel [simp]:
  "acts (mask_off cpu i s) = acts s" "sched_pools (mask_off cpu i s) = sched_pools s"
  "int_child (mask_off cpu i s) = int_child s" "disabled (mask_off cpu i s) = disabled s"
  "masks (mask_off cpu i s) = (masks s)(cpu := masks s cpu AND NOT (push_bit i 1))"
  "core_ready c (mask_off cpu i s) = core_ready c s"
  by (simp_all add: mask_off_def core_ready_def)

lemma mask_off_inv:
  assumes "irq_inv A s" "i < INTERRUPTS_N" shows "irq_inv A (mask_off cpu i s)"
proof -
  have "kernel_inv A (mask_off cpu i s)"
    using assms kernel_inv_frame [of "mask_off cpu i s" s A] by (simp add: irq_inv_def mask_off_def)
  moreover have "take_bit INTERRUPTS_N (masks s cpu AND NOT (push_bit i 1)) = masks s cpu AND NOT (push_bit i 1)"
  proof -
    have "masks s cpu AND mask INTERRUPTS_N = masks s cpu" using assms by (simp add: irq_inv_def take_bit_eq_mask)
    then show ?thesis unfolding take_bit_eq_mask and.assoc by (subst and.commute [of "NOT _"]) (simp flip: and.assoc)
  qed
  moreover have "hw_ok (mask_off cpu i s)"
    using assms by (auto simp: irq_inv_def hw_ok_def mask_off_def interrupts_mask_def)
  ultimately show ?thesis using assms by (auto simp: irq_inv_def)
qed

text \<open>The messages that the pending interrupts among \<open>is\<close> are turned into, for one activation.\<close>

definition irq_msgs :: "u64 \<Rightarrow> (nat \<Rightarrow> interrupt_register_t) \<Rightarrow> nat \<Rightarrow> nat list \<Rightarrow> msg_t list" where
  "irq_msgs pending reg t is = map (\<lambda>i. int_msg (reg i) i) (filter (\<lambda>i. bit pending i \<and> target (reg i) = Some t) is)"

definition handled :: "u64 \<Rightarrow> (nat \<Rightarrow> interrupt_register_t) \<Rightarrow> nat \<Rightarrow> bool" where
  "handled pending reg i \<longleftrightarrow> bit pending i \<and> target (reg i) \<noteq> None"

lemma and_push_bit_one: "(w :: u64) AND push_bit i 1 \<noteq> 0 \<longleftrightarrow> bit w i"
  by (simp add: and_exp_eq_0_iff_not_bit)

definition irq_post :: "nat set \<Rightarrow> u64 \<Rightarrow> nat \<Rightarrow> nat list \<Rightarrow> kstate \<Rightarrow> kstate \<Rightarrow> bool" where
  "irq_post A pending cpu is s s' \<longleftrightarrow> irq_inv A s' \<and> core_ready cpu s' \<and> int_child s' = int_child s \<and> disabled s' = disabled s
     \<and> (\<forall>c n. bit (masks s' c) n \<longleftrightarrow> bit (masks s c) n \<and> \<not> (c = cpu \<and> n \<in> set is \<and> handled pending (int_child s cpu) n))
     \<and> (\<forall>t. ring_ok (acts s t) \<longrightarrow> ring_ok (acts s' t) \<and> ring_cap (acts s' t) = ring_cap (acts s t)
          \<and> ring_items (acts s' t) = take (ring_cap (acts s t)) (ring_items (acts s t) @ irq_msgs pending (int_child s cpu) t is))"

lemma irq_post_none:
  assumes "irq_inv A s" "core_ready cpu s" "\<not> handled pending (int_child s cpu) i"
  shows "irq_post A pending cpu [i] s s"
  using assms ring.bounded by (auto simp: irq_post_def irq_msgs_def handled_def)

lemma interrupt_other_ok:
  assumes inv: "irq_inv A s" and rdy: "core_ready cpu s" and i: "i < INTERRUPTS_N"
  shows "\<exists>s'. interrupt_other pending cpu i s = Some s' \<and> irq_post A pending cpu [i] s s'"
proof (cases "handled pending (int_child s cpu) i")
  case False
  then show ?thesis using irq_post_none [OF inv rdy False]
    unfolding interrupt_other_def and_push_bit_one handled_def by (auto split: option.splits)
next
  case True
  then obtain t where t: "bit pending i" "target (int_child s cpu i) = Some t" by (auto simp: handled_def)
  define s1 where "s1 = mask_off cpu i s"
  define m where "m = int_msg (int_child s cpu i) i"
  have inv1: "irq_inv A s1" unfolding s1_def by (rule mask_off_inv [OF inv i])
  then have k1: "kernel_inv A s1" by (simp add: irq_inv_def)
  have t1: "t \<in> A" "\<not> is_idle (acts s1 t)" "ring_ok (acts s1 t)" "0 < ring_budget (acts s1 t)"
    using inv t(2) by (auto simp: irq_inv_def s1_def)
  obtain r s2 x where s2: "msg_push m t s1 = Some (r, s2)" "kernel_inv A s2" "ipc_view s2 = ipc_view (upd_act t (\<lambda>_. x) s1)"
    and x: "is_idle x = is_idle (acts s1 t)" "ring_ok x" "0 < ring_budget x" "ring_cap x = ring_cap (acts s1 t)"
      "ring_items x = take (ring_cap (acts s1 t)) (ring_items (acts s1 t) @ [m])"
    and c2: "\<forall>p. current_act (sched_pools s2 p) = current_act (sched_pools s1 p)"
    using push_take [OF k1 t1, of m] by blast
  have rdy2: "core_ready cpu s2" using core_ready_push [OF s2(1) c2] rdy by (simp add: s1_def)
  then obtain c where c: "current_act (sched_pools s2 cpu) = Some c" "idle_act (sched_pools s2 cpu) \<noteq> None"
    by (auto simp: core_ready_def)
  obtain sw s3 where s3: "sched_got_int cpu t s2 = Some (sw, s3)" "kernel_inv A s3" "current_act (sched_pools s3 cpu) \<noteq> None"
    using got_int_ok [OF s2(2) c t1(1)] by blast
  have eq: "interrupt_other pending cpu i s = Some s3"
    using t s2(1) s3(1) unfolding interrupt_other_def and_push_bit_one by (simp add: Let_def s1_def mask_off_def m_def)
  have irq: "irq_view s3 = irq_view s1" using irq_view_got_int [OF s3(1)] irq_view_push [OF s2(1)] by simp
  note q = irq_viewD [OF irq]
  have ipc: "ipc_view s3 = ipc_view (upd_act t (\<lambda>_. x) s1)" using ipc_view_got_int [OF s3(1)] s2(3) by simp
  note v = ipc_viewD [OF ipc]
  define y where "y b = (if b = t then x else acts s b)" for b
  have y: "msg_queue (acts s3 b) = msg_queue (y b)" "queue_mask (acts s3 b) = queue_mask (y b)"
    "msg_tsx (acts s3 b) = msg_tsx (y b)" for b
    using v(3-5) [of b] by (simp_all add: y_def s1_def)
  have ring: "ring_items (acts s3 b) = ring_items (y b)" "ring_ok (acts s3 b) = ring_ok (y b)"
    "ring_cap (acts s3 b) = ring_cap (y b)" "ring_budget (acts s3 b) = ring_budget (y b)" "is_idle (acts s3 b) = is_idle (y b)" for b
    using v(1) [of b] ring_cong [OF y [of b]] ring_budget_cong [OF y(1,2) [of b]] by (simp_all add: y_def s1_def)
  have "irq_inv A s3" using inv1 s3(2) x(1-3)
    by (auto simp: irq_inv_def hw_ok_def q ring y_def s1_def)
  moreover have "core_ready cpu s3" using s3(3) rdy q(5) by (simp add: core_ready_def s1_def)
  moreover have "bit (masks s3 c) n \<longleftrightarrow> bit (masks s c) n \<and> \<not> (c = cpu \<and> n \<in> set [i] \<and> handled pending (int_child s cpu) n)" for c n
    using True by (auto simp: q s1_def bit_simps dest: bit_imp_le_length)
  moreover have "ring_items (acts s3 b) = take (ring_cap (acts s b)) (ring_items (acts s b) @ irq_msgs pending (int_child s cpu) b [i])"
    if "ring_ok (acts s b)" for b
    using t x(5) ring.bounded [OF that] by (auto simp: ring y_def irq_msgs_def m_def s1_def)
  ultimately show ?thesis using eq x(2,4) q
    by (auto simp: irq_post_def ring y_def s1_def)
qed

lemma irq_post_trans:
  assumes "irq_post A pending cpu xs s s'" "irq_post A pending cpu ys s' s''"
  shows "irq_post A pending cpu (xs @ ys) s s''"
proof -
  have take: "take n (take n u @ v) = take n (u @ v)" for n and u v :: "msg_t list" by (simp add: min_def)
  have "ring_items (acts s'' t) = take (ring_cap (acts s t)) (ring_items (acts s t) @ irq_msgs pending (int_child s cpu) t (xs @ ys))"
    if t: "ring_ok (acts s t)" for t
  proof -
    have "ring_items (acts s'' t) = take (ring_cap (acts s t)) (take (ring_cap (acts s t)) (ring_items (acts s t)
        @ irq_msgs pending (int_child s cpu) t xs) @ irq_msgs pending (int_child s cpu) t ys)"
      using assms t by (simp add: irq_post_def del: take_append)
    then show ?thesis by (simp only: take) (simp add: irq_msgs_def)
  qed
  then show ?thesis using assms unfolding irq_post_def set_append by auto
qed

lemma for_each_interrupts:
  assumes "irq_inv A s" "core_ready cpu s" "set is \<subseteq> {..<INTERRUPTS_N}"
  shows "\<exists>s'. for_each (interrupt_other pending cpu) is s = Some s' \<and> irq_post A pending cpu is s s'"
  using assms
proof (induction "is" arbitrary: s)
  case Nil
  then show ?case using ring.bounded by (auto simp: irq_post_def irq_msgs_def)
next
  case (Cons i "is")
  obtain s1 where s1: "interrupt_other pending cpu i s = Some s1" "irq_post A pending cpu [i] s s1"
    using interrupt_other_ok [OF Cons.prems(1,2), of i] Cons.prems(3) by auto
  then have "irq_inv A s1" "core_ready cpu s1" by (simp_all add: irq_post_def)
  then obtain s2 where "for_each (interrupt_other pending cpu) is s1 = Some s2" "irq_post A pending cpu is s1 s2"
    using Cons.IH Cons.prems(3) by auto
  then show ?case using s1 irq_post_trans [OF s1(2)] by auto
qed

lemma interrupt_others_ok:
  assumes "irq_inv A s" "core_ready cpu s"
  obtains s' where "kernel_interrupt_others pending cpu s = Some s'" "irq_post A pending cpu [0..<INTERRUPTS_N] s s'"
proof -
  have "set [0..<INTERRUPTS_N] \<subseteq> {..<INTERRUPTS_N}" by auto
  from for_each_interrupts [OF assms this] show thesis using that unfolding kernel_interrupt_others_def by blast
qed

text \<open>
  C17. Pending interrupts are delivered. Whatever set of lines is pending, the handler
  returns; every pending line that has a registration is masked in the kernel's mask
  and in the controller, and no other line changes; each registered activation finds,
  appended to its message queue in the order of the line numbers, one message per
  pending line that it registered, carrying the registered arguments and the line
  number, up to the capacity of the queue; and the invariants are kept.
\<close>

theorem interrupts_delivered:
  assumes "irq_inv A s" "core_ready cpu s"
  shows "\<exists>s'. kernel_interrupt_others pending cpu s = Some s' \<and> irq_inv A s' \<and> core_ready cpu s'
    \<and> int_child s' = int_child s
    \<and> (\<forall>c n. bit (masks s' c) n \<longleftrightarrow>
         bit (masks s c) n \<and> \<not> (c = cpu \<and> n < INTERRUPTS_N \<and> bit pending n \<and> target (int_child s cpu n) \<noteq> None))
    \<and> (\<forall>t. ring_ok (acts s t) \<longrightarrow> ring_ok (acts s' t)
         \<and> ring_items (acts s' t) = take (ring_cap (acts s t)) (ring_items (acts s t)
             @ map (\<lambda>i. int_msg (int_child s cpu i) i)
                 (filter (\<lambda>i. bit pending i \<and> target (int_child s cpu i) = Some t) [0..<INTERRUPTS_N])))"
proof -
  obtain s' where "kernel_interrupt_others pending cpu s = Some s'" "irq_post A pending cpu [0..<INTERRUPTS_N] s s'"
    by (rule interrupt_others_ok [OF assms])
  then show ?thesis unfolding irq_post_def handled_def irq_msgs_def
    by (intro exI [of _ s'] conjI) (simp_all add: atLeast0LessThan del: take_append)
qed

text \<open>The booted kernel with line 2 registered and enabled by activation 3.\<close>

definition demo_irq :: kstate where
  "demo_irq = demo_ipc\<lparr>int_child := (\<lambda>c i. if c = 0 \<and> i = 2
       then \<lparr>target = Some 3, int_v0 = 7, int_carg = CNull, int_arg = 11\<rparr>
       else \<lparr>target = None, int_v0 = 0, int_carg = CNull, int_arg = 0\<rparr>),
     masks := (\<lambda>c. if c = 0 then 4 else 0), disabled := (\<lambda>_. False), int_hw := (\<lambda>c. if c = 0 then 4 else 0)\<rparr>"

lemma demo_irq_inv: "irq_inv {1, 2, 3} demo_irq" "core_ready 0 demo_irq"
proof -
  have "kernel_inv {1, 2, 3} demo_irq" using demo_ipc_inv kernel_inv_frame [of demo_irq demo_ipc] by (simp add: demo_irq_def)
  moreover have "\<not> is_idle (acts demo_irq 3)" by (simp add: demo_irq_def demo_ipc_sel demo_defs)
  moreover have "ring_budget (acts demo_irq 3) > 0" by (simp add: demo_irq_def demo_ipc_sel ring_budget_def)
  moreover have "take_bit INTERRUPTS_N (4 :: u64) = 4" by (simp add: INTERRUPTS_N_def take_bit_eq_mod)
  moreover have "ring_ok (acts demo_irq 3)" using demo_ipc_ring(1) by (simp add: demo_irq_def)
  ultimately show "irq_inv {1, 2, 3} demo_irq"
    by (simp add: irq_inv_def hw_ok_def) (simp add: demo_irq_def)
  show "core_ready 0 demo_irq" by (simp add: core_ready_def demo_irq_def demo_ipc_sel demo_defs)
qed

lemma interrupt_lines: "[0..<INTERRUPTS_N] = [0, 1, 2, 3, 4]"
  by code_simp

lemma demo_irq_msgs:
  "irq_msgs 4 (int_child demo_irq 0) 3 [0..<INTERRUPTS_N] = [int_msg (int_child demo_irq 0 2) 2]"
  "ring_items (acts demo_irq 3) = []" "ring_cap (acts demo_irq 3) = 1"
  using demo_ipc_ring by (simp_all add: irq_msgs_def interrupt_lines demo_irq_def)

theorem interrupts_delivered_witness:
  "\<exists>s'. kernel_interrupt_others 4 0 demo_irq = Some s' \<and> \<not> bit (masks s' 0) 2
     \<and> ring_items (acts s' 3) = [int_msg (int_child demo_irq 0 2) 2]"
proof -
  have r: "ring_ok (acts demo_irq 3)" using demo_ipc_ring(1) by (simp add: demo_irq_def)
  have b: "2 < INTERRUPTS_N \<and> bit (4 :: u64) 2 \<and> target (int_child demo_irq 0 2) \<noteq> None"
    by (simp add: INTERRUPTS_N_def demo_irq_def)
  from interrupts_delivered [OF demo_irq_inv, of 4] show ?thesis
    using r b demo_irq_msgs unfolding irq_msgs_def by (elim exE conjE) (intro exI conjI; force)
qed





subsection \<open>Owning, enabling and switching lines\<close>

lemma validate_number_eq:
  "validate_number n = (if 0 \<le> n \<and> n < int INTERRUPTS_N then n else -1)"
  by (auto simp: validate_number_def)

lemma enable_inv:
  assumes "irq_inv A s" "kernel_interrupt_enable cpu n a s = (r, s')"
  shows "irq_inv A s'"
proof (cases "r = 0")
  case True
  then have n: "0 \<le> n" "n < int INTERRUPTS_N" and s': "s' = (let s1 = s\<lparr>masks := (masks s)(cpu := masks s cpu OR push_bit (nat n) 1)\<rparr> in
      if disabled s1 cpu then s1 else interrupts_mask cpu (nat n) True s1)"
    using assms(2) by (auto simp: kernel_interrupt_enable_def validate_number_eq Let_def split: if_splits)
  have "kernel_inv A s'" using assms(1) kernel_inv_frame [of s' s A] by (auto simp: irq_inv_def s' Let_def)
  moreover have "take_bit INTERRUPTS_N (push_bit (nat n) 1 :: u64) = push_bit (nat n) 1"
    using n by (auto intro!: bit_word_eqI simp: bit_simps)
  moreover have "nat n < INTERRUPTS_N" using n by simp
  ultimately show ?thesis using assms(1) by (auto simp: irq_inv_def hw_ok_def s' Let_def interrupts_mask_def)
next
  case False
  then have "s' = s" using assms(2) by (auto simp: kernel_interrupt_enable_def Let_def split: if_splits)
  then show ?thesis using assms(1) by simp
qed

lemma register_cases:
  assumes "kernel_interrupt_register cpu n a v0 arg carg s = Some (r, s')"
  obtains "s' = s" | c where "target c = Some a" "s' = s\<lparr>int_child := (int_child s)(cpu := (int_child s cpu)(nat n := c))\<rparr>"
proof (cases "r = 0")
  case True
  then have "s' = s\<lparr>int_child := (int_child s)(cpu := (int_child s cpu)(nat n :=
      \<lparr>target = Some a, int_v0 = v0, int_carg = carg, int_arg = arg\<rparr>))\<rparr>"
    using assms by (simp add: kernel_interrupt_register_def validate_number_eq Let_def bind_Some_conv split: if_splits)
  then show thesis by (rule that(2) [rotated]) simp
next
  case False
  then have "s' = s" using assms by (simp add: kernel_interrupt_register_def Let_def bind_Some_conv split: if_splits)
  then show thesis by (rule that(1))
qed

lemma register_inv:
  assumes "irq_inv A s" "kernel_interrupt_register cpu n a v0 arg carg s = Some (r, s')"
    and "a \<in> A" "\<not> is_idle (acts s a)" "ring_ok (acts s a)" "0 < ring_budget (acts s a)"
  shows "irq_inv A s'"
  using assms(2)
proof (cases rule: register_cases)
  case 1
  then show ?thesis using assms(1) by simp
next
  case (2 c)
  have "kernel_inv A s' = kernel_inv A s" by (rule kernel_inv_frame) (simp_all add: 2)
  then show ?thesis using assms(1,3-) 2(1) unfolding irq_inv_def hw_ok_def by (simp add: 2(2))
qed

lemma off_on_eq:
  "kernel_interrupts_off cpu (st, s) = (0, st\<lparr>cpu_ie := True, cpu_timer_ie := False\<rparr>,
     s\<lparr>disabled := (disabled s)(cpu := True), int_hw := (int_hw s)(cpu := int_hw s cpu AND NOT (take_bit INTERRUPTS_N (masks s cpu)))\<rparr>)"
  "kernel_interrupts_on cpu (st, s) = (0, st\<lparr>cpu_ie := True, cpu_timer_ie := True\<rparr>,
     s\<lparr>disabled := (disabled s)(cpu := False), int_hw := (int_hw s)(cpu := int_hw s cpu OR take_bit INTERRUPTS_N (masks s cpu))\<rparr>)"
  by (simp_all add: kernel_interrupts_off_def kernel_interrupts_on_def Let_def mask_bits_eq)

lemma off_on_inv:
  assumes "irq_inv A (snd c)" "kernel_interrupts_off cpu c = (0, c') \<or> kernel_interrupts_on cpu c = (0, c')"
  shows "irq_inv A (snd c')"
proof -
  obtain st s where c: "c = (st, s)" by force
  have "kernel_inv A (s\<lparr>disabled := d, int_hw := h\<rparr>) = kernel_inv A s" for d h by (rule kernel_inv_frame) simp_all
  then show ?thesis using assms unfolding c off_on_eq by (auto simp: irq_inv_def hw_ok_def)
qed

lemma restore_mask_fold:
  assumes "i < INTERRUPTS_N"
  shows "bit (int_hw (fold (restore_mask cpu m) is s) cpu) i \<longleftrightarrow> (if i \<in> set is then bit m i else bit (int_hw s cpu) i)"
proof (induction "is" arbitrary: s)
  case (Cons j "is")
  have "bit (int_hw (restore_mask cpu m j s) cpu) i \<longleftrightarrow> (if i = j then bit m i else bit (int_hw s cpu) i)"
    using assms unfolding INTERRUPTS_N_def restore_mask_def and_push_bit_one interrupts_mask_def
    by (cases "i = j") (auto simp: bit_simps dest: bit_imp_le_length)
  then show ?case using Cons.IH [of "restore_mask cpu m j s"] by (simp del: One_nat_def) (auto split: if_splits)
qed simp

subsection \<open>Histories of the interrupt state\<close>

text \<open>
  The steps that concern the interrupt state: the two system calls, the whole handler,
  switching all lines of a core off and on, and any other activity of the kernel. The
  handler also deals with an interrupt that it did not expect, neither the timer's nor
  one of a line in its mask; only with \<open>sp\<close> does a history have such interrupts.
\<close>

inductive irq_step :: "bool \<Rightarrow> cpu_status \<times> kstate \<Rightarrow> cpu_status \<times> kstate \<Rightarrow> bool" for sp :: bool where
  register: "kernel_interrupt_register cpu n a v0 arg carg s = Some (r, s') \<Longrightarrow> irq_step sp (st, s) (st, s')"
| enable: "kernel_interrupt_enable cpu n a s = (r, s') \<Longrightarrow> irq_step sp (st, s) (st, s')"
| interrupt: "sp \<or> handle_time \<or> ipending AND masks s cpu \<noteq> 0 \<Longrightarrow>
    kernel_interrupt ipending handle_time cpu count reads s = Some s' \<Longrightarrow> irq_step sp (st, s) (st, s')"
| off: "kernel_interrupts_off cpu c = (0, c') \<Longrightarrow> irq_step sp c c'"
| on: "kernel_interrupts_on cpu c = (0, c') \<Longrightarrow> irq_step sp c c'"
| other: "irq_view s' = irq_view s \<Longrightarrow> irq_step sp (st, s) (st', s')"

text \<open>
  Only lines in the kernel's mask are let through, only existing registered lines are in
  the mask, and the two agree on a core whose lines are on.
\<close>

definition lines_ok :: "bool \<Rightarrow> kstate \<Rightarrow> bool" where
  "lines_ok sp s \<longleftrightarrow> (\<forall>cpu n. (bit (int_hw s cpu) n \<longrightarrow> bit (masks s cpu) n)
     \<and> (bit (masks s cpu) n \<longrightarrow> n < INTERRUPTS_N \<and> target (int_child s cpu n) \<noteq> None)
     \<and> (\<not> disabled s cpu \<and> bit (masks s cpu) n \<longrightarrow> bit (int_hw s cpu) n)
     \<and> (disabled s cpu \<and> \<not> sp \<longrightarrow> \<not> bit (int_hw s cpu) n))"

lemma lines_ok_view: "irq_view s' = irq_view s \<Longrightarrow> lines_ok sp s' = lines_ok sp s"
  by (simp add: lines_ok_def irq_view_def)

lemma lines_ok_mask_off: "lines_ok sp s \<Longrightarrow> i < INTERRUPTS_N \<Longrightarrow> lines_ok sp (mask_off cpu i s)"
  by (auto simp: lines_ok_def mask_off_def interrupts_mask_def bit_simps)

lemma lines_ok_other:
  assumes "interrupt_other pending cpu i s = Some s'" "i < INTERRUPTS_N" "lines_ok sp s"
  shows "lines_ok sp s'"
proof -
  have "irq_view s' = irq_view s \<or> irq_view s' = irq_view (mask_off cpu i s)"
    using assms(1) by (auto simp: interrupt_other_def Let_def bind_Some_conv mask_off_def split: if_splits option.splits
        dest!: irq_view_push irq_view_got_int)
  then show ?thesis using assms(2,3) lines_ok_mask_off lines_ok_view by metis
qed

lemma lines_ok_others:
  assumes "kernel_interrupt_others pending cpu s = Some s'" "lines_ok sp s"
  shows "lines_ok sp s'"
proof -
  have "for_each (interrupt_other pending cpu) is s = Some s' \<Longrightarrow> set is \<subseteq> {..<INTERRUPTS_N} \<Longrightarrow> lines_ok sp s \<Longrightarrow> lines_ok sp s'"
    for "is" s by (induction "is" arbitrary: s) (auto simp: bind_Some_conv intro: lines_ok_other)
  from this [of "[0..<INTERRUPTS_N]" s] show ?thesis using assms by (simp add: kernel_interrupt_others_def subset_iff)
qed

lemma irq_view_timer:
  assumes "kernel_timer qemu cpu count reads s = Some s'"
  shows "irq_view s' = irq_view s"
proof -
  have each: "for_each (check_sleeper qemu now) is s1 = Some s2 \<Longrightarrow> irq_view s2 = irq_view s1" for "is" now s1 s2
    by (induction "is" arbitrary: s1)
       (auto simp: check_sleeper_def Let_def bind_Some_conv split: if_splits option.splits dest!: irq_view_receive)
  obtain now sw s1 s2 where "for_each (check_sleeper qemu now) [0..<MAX_WAITERS]
        (s\<lparr>high_resolution_timers := (high_resolution_timers s)(cpu := now)\<rparr>) = Some s1"
      "sched_reschedule cpu None True s1 = Some (sw, s2)" "irq_view s' = irq_view s2"
    using assms by (auto simp: kernel_timer_def kernel_timer_check_sleepers_def Let_def bind_Some_conv irq_view_def)
  then show ?thesis using each irq_view_reschedule by (fastforce simp: irq_view_def)
qed

lemma restore_mask_sel:
  "masks (fold (restore_mask cpu m) is s) = masks s" "disabled (fold (restore_mask cpu m) is s) = disabled s"
  "int_child (fold (restore_mask cpu m) is s) = int_child s"
  "c \<noteq> cpu \<Longrightarrow> int_hw (fold (restore_mask cpu m) is s) c = int_hw s c"
  "\<not> n < INTERRUPTS_N \<Longrightarrow> bit (int_hw (fold (restore_mask cpu m) is s) c) n = bit (int_hw s c) n"
  by (induction "is" arbitrary: s) (auto simp: restore_mask_def interrupts_mask_def bit_simps dest: bit_imp_le_length)

lemma lines_ok_interrupt:
  assumes "kernel_interrupt ipending ht cpu count reads s = Some s'" "lines_ok sp s"
    and "sp \<or> ht \<or> ipending AND masks s cpu \<noteq> 0"
  shows "lines_ok sp s'"
proof -
  define s1 where "s1 = (if \<not> (ht \<or> ipending AND masks s cpu \<noteq> 0)
      then fold (restore_mask cpu (masks s cpu)) [0..<INTERRUPTS_N] s else s)"
  have hw: "bit (int_hw (fold (restore_mask cpu (masks s cpu)) [0..<INTERRUPTS_N] s) c) n
      \<longleftrightarrow> (if c = cpu then bit (masks s cpu) n else bit (int_hw s c) n)" for c n
    using assms(2) by (cases "n < INTERRUPTS_N"; cases "c = cpu") (auto simp: restore_mask_fold restore_mask_sel lines_ok_def)
  have ok1: "lines_ok sp s1"
  proof (cases "ht \<or> ipending AND masks s cpu \<noteq> 0")
    case True
    then show ?thesis using assms(2) by (simp add: s1_def)
  next
    case False
    then have "s1 = fold (restore_mask cpu (masks s cpu)) [0..<INTERRUPTS_N] s" "sp" using assms(3) by (simp_all add: s1_def)
    then show ?thesis using assms(2) by (auto simp: lines_ok_def hw restore_mask_sel)
  qed
  have eq: "kernel_interrupt ipending ht cpu count reads s = do {
      s2 \<leftarrow> (if ht then kernel_timer True cpu count reads s1 else Some s1);
      if ipending AND masks s cpu \<noteq> 0 then kernel_interrupt_others (ipending AND masks s cpu) cpu s2 else Some s2 }"
    unfolding kernel_interrupt_def Let_def s1_def by (rule refl)
  obtain s2 where s2: "(if ht then kernel_timer True cpu count reads s1 else Some s1) = Some s2"
    "(if ipending AND masks s cpu \<noteq> 0 then kernel_interrupt_others (ipending AND masks s cpu) cpu s2 else Some s2) = Some s'"
    using assms(1) unfolding eq by (auto simp: bind_Some_conv)
  have "lines_ok sp s2" using s2(1) ok1 lines_ok_view [OF irq_view_timer] by (auto split: if_splits)
  then show ?thesis using s2(2) lines_ok_others by (auto split: if_splits)
qed

lemma lines_ok_enable:
  assumes "kernel_interrupt_enable cpu n a s = (r, s')" "lines_ok sp s"
  shows "lines_ok sp s'"
proof (cases "r = 0")
  case True
  define k where "k = nat n"
  have k: "k < INTERRUPTS_N" "target (int_child s cpu k) = Some a"
    and s': "s' = (let s1 = s\<lparr>masks := (masks s)(cpu := masks s cpu OR push_bit k 1)\<rparr> in
      if disabled s1 cpu then s1 else interrupts_mask cpu k True s1)"
    using True assms(1) by (auto simp: kernel_interrupt_enable_def validate_number_eq Let_def k_def split: if_splits)
  have "bit (masks s' c) j \<longleftrightarrow> bit (masks s c) j \<or> c = cpu \<and> j = k"
    "bit (int_hw s' c) j \<longleftrightarrow> bit (int_hw s c) j \<or> c = cpu \<and> j = k \<and> \<not> disabled s cpu" for c j
    using k(1) by (auto simp: s' Let_def interrupts_mask_def bit_simps INTERRUPTS_N_def dest: bit_imp_le_length)
  moreover have "disabled s' = disabled s" "int_child s' = int_child s" by (simp_all add: s' Let_def)
  ultimately show ?thesis using assms(2) k unfolding lines_ok_def by auto
next
  case False
  then have "s' = s" using assms(1) by (auto simp: kernel_interrupt_enable_def Let_def split: if_splits)
  then show ?thesis using assms(2) by simp
qed

lemma lines_ok_step:
  assumes "irq_step sp c c'" "lines_ok sp (snd c)"
  shows "lines_ok sp (snd c')"
  using assms
proof (induction rule: irq_step.induct)
  case (register cpu n a v0 arg carg s r s' st)
  from register(1) show ?case
    by (cases rule: register_cases) (use register(2) in \<open>auto simp: lines_ok_def\<close>)
next
  case (enable cpu n a s r s' st)
  then show ?case using lines_ok_enable by simp
next
  case (interrupt ht ipending s cpu count reads s' st)
  then show ?case using lines_ok_interrupt by simp
next
  case (off cpu c c')
  obtain st s where c: "c = (st, s)" by force
  then have ok: "lines_ok sp s" using off(2) by simp
  then have "int_hw s cpu AND NOT (take_bit INTERRUPTS_N (masks s cpu)) = 0"
    by (intro bit_word_eqI) (auto simp: lines_ok_def bit_simps)
  then show ?case using off(1) ok unfolding c off_on_eq by (auto simp: lines_ok_def split: if_splits)
next
  case (on cpu c c')
  then show ?case by (cases c) (auto simp: off_on_eq lines_ok_def bit_simps split: if_splits)
next
  case (other s' s st st')
  show ?case using lines_ok_view [OF other(1)] other(2) by simp
qed

text \<open>
  C19. The controller follows the kernel's masks. From a start with all lines off, after
  any history of registrations, enablings, interrupts (expected or not) and switchings, a
  line that is let through on a core exists, is registered, and is set in the kernel's
  mask; on a core that is not switched off the lines let through are exactly those of the
  mask; and if no unexpected interrupt came, none is let through on a core that is.
\<close>

theorem controller_follows_masks:
  assumes "(irq_step sp)\<^sup>*\<^sup>* (st, s) (st', s')" "\<forall>cpu. masks s cpu = 0 \<and> int_hw s cpu = 0"
  shows "(bit (int_hw s' cpu) n \<longrightarrow> n < INTERRUPTS_N \<and> bit (masks s' cpu) n \<and> target (int_child s' cpu n) \<noteq> None)
    \<and> (\<not> disabled s' cpu \<longrightarrow> bit (int_hw s' cpu) n = bit (masks s' cpu) n)
    \<and> (disabled s' cpu \<and> \<not> sp \<longrightarrow> \<not> bit (int_hw s' cpu) n)"
proof -
  have "lines_ok sp (snd (st, s))" using assms(2) by (simp add: lines_ok_def)
  with assms(1) have "lines_ok sp (snd (st', s'))"
    by (induction rule: rtranclp_induct) (auto intro: lines_ok_step)
  then show ?thesis by (auto simp: lines_ok_def)
qed

text \<open>
  For the witness: activation 3 registers and enables line 2 on core 0; the core's lines
  are switched off, and an unexpected interrupt comes.
\<close>

definition demo_lines :: kstate where
  "demo_lines = demo_irq\<lparr>masks := (\<lambda>_. 0), int_hw := (\<lambda>_. 0)\<rparr>"

theorem controller_follows_masks_witness:
  "\<exists>st' s'. (irq_step True)\<^sup>*\<^sup>* (\<lparr>cpu_ie = True, cpu_timer_ie = True\<rparr>, demo_lines) (st', s')
     \<and> disabled s' 0 \<and> bit (int_hw s' 0) 2 \<and> bit (masks s' 0) 2 \<and> target (int_child s' 0 2) \<noteq> None"
proof -
  let ?st = "\<lparr>cpu_ie = True, cpu_timer_ie = True\<rparr>"
  obtain s1 where s1: "kernel_interrupt_register 0 2 3 7 11 CNull demo_lines = Some (0, s1)" "masks s1 = (\<lambda>_. 0)"
    "int_hw s1 = (\<lambda>_. 0)" "\<not> disabled s1 0" "target (int_child s1 0 2) = Some 3"
    by (simp add: kernel_interrupt_register_def validate_number_eq INTERRUPTS_N_def Let_def touch_slots_def
        demo_lines_def demo_irq_def demo_ipc_sel)
  obtain s2 where s2: "kernel_interrupt_enable 0 2 3 s1 = (0, s2)" "bit (masks s2 0) 2"
    using s1 by (simp add: kernel_interrupt_enable_def validate_number_eq INTERRUPTS_N_def Let_def interrupts_mask_def bit_simps)
  obtain st3 s3 where s3: "kernel_interrupts_off 0 (?st, s2) = (0, st3, s3)" "disabled s3 0" "masks s3 = masks s2"
    unfolding off_on_eq by simp
  obtain s4 where s4: "kernel_interrupt 0 False 0 0 (\<lambda>_. 0) s3 = Some s4" "bit (int_hw s4 0) 2" "disabled s4 0"
    using s2(2) s3(2,3) by (simp add: kernel_interrupt_def Let_def restore_mask_fold restore_mask_sel INTERRUPTS_N_def del: upt_Suc)
  have "irq_step True (?st, demo_lines) (?st, s1)" "irq_step True (?st, s1) (?st, s2)"
    "irq_step True (?st, s2) (st3, s3)" "irq_step True (st3, s3) (st3, s4)"
    using irq_step.register [OF s1(1)] irq_step.enable [OF s2(1)] irq_step.off [OF s3(1)]
      irq_step.interrupt [OF _ s4(1), of True] by simp_all
  then have "(irq_step True)\<^sup>*\<^sup>* (?st, demo_lines) (st3, s4)"
    by (meson r_into_rtranclp rtranclp.rtrancl_into_rtrancl)
  then show ?thesis using controller_follows_masks [of True ?st demo_lines st3 s4 0 2] s4(2,3)
    by (auto simp: demo_lines_def)
qed

text \<open>
  C31. Switching a core's lines off and on again restores the controller, and in
  between no line is let through.
\<close>

theorem interrupts_off_on:
  assumes "irq_inv A s" "\<not> disabled s cpu"
  shows "int_hw (snd (snd (kernel_interrupts_off cpu (st, s)))) cpu = 0
    \<and> snd (snd (kernel_interrupts_on cpu (snd (kernel_interrupts_off cpu (st, s))))) = s"
proof -
  have "int_hw s cpu = masks s cpu" using assms by (simp add: irq_inv_def hw_ok_def)
  moreover have "(disabled s)(cpu := False) = disabled s" using assms(2) by (simp add: fun_upd_idem_iff)
  moreover have "take_bit INTERRUPTS_N (masks s cpu) = masks s cpu" using assms by (simp add: irq_inv_def)
  ultimately show ?thesis by (simp add: off_on_eq fun_upd_idem)
qed

theorem interrupts_off_on_witness:
  "snd (snd (kernel_interrupts_on 0 (snd (kernel_interrupts_off 0 (\<lparr>cpu_ie = True, cpu_timer_ie = True\<rparr>, demo_irq))))) = demo_irq"
  using interrupts_off_on [OF demo_irq_inv(1), of 0] by (simp add: demo_irq_def)

text \<open>
  C32. A line belongs to the activation that registered it first: another activation
  can neither register it again nor enable it, and its attempts change nothing.
\<close>

theorem interrupt_owner:
  assumes "kernel_interrupt_register cpu n a v0 arg carg s = Some (0, s')" "b \<noteq> a"
  shows "kernel_interrupt_register cpu n b w0 arg' carg' s' = Some (-1, s')
    \<and> kernel_interrupt_enable cpu n b s' = (-1, s')"
proof -
  have n: "0 \<le> n \<and> n < int INTERRUPTS_N"
    using assms(1) by (simp add: kernel_interrupt_register_def validate_number_eq Let_def split: if_splits)
  then have "s' = s\<lparr>int_child := (int_child s)(cpu := (int_child s cpu)(nat n :=
      \<lparr>target = Some a, int_v0 = v0, int_carg = carg, int_arg = arg\<rparr>))\<rparr>"
    using assms(1) by (simp add: kernel_interrupt_register_def validate_number_eq Let_def bind_Some_conv split: if_splits)
  then have "target (int_child s' cpu (nat n)) = Some a" by simp
  then show ?thesis using n assms(2)
    by (simp add: kernel_interrupt_register_def kernel_interrupt_enable_def validate_number_eq Let_def)
qed

theorem interrupt_owner_witness:
  "\<exists>s'. kernel_interrupt_register 0 2 3 7 11 CNull demo_irq = Some (0, s')
     \<and> kernel_interrupt_enable 0 2 2 s' = (-1, s')"
proof -
  have eq: "kernel_interrupt_register 0 2 3 7 11 CNull demo_irq = Some (0, demo_irq\<lparr>int_child := (int_child demo_irq)(0 :=
      (int_child demo_irq 0)(2 := \<lparr>target = Some 3, int_v0 = 7, int_carg = CNull, int_arg = 11\<rparr>))\<rparr>)"
    by (simp add: kernel_interrupt_register_def validate_number_eq INTERRUPTS_N_def Let_def touch_slots_def
        demo_irq_def demo_ipc_sel)
  have ne: "(2 :: nat) \<noteq> 3" by simp
  show ?thesis by (intro exI conjI, rule eq, rule conjunct2 [OF interrupt_owner [OF eq ne]])
qed

subsection \<open>The unexpected interrupt\<close>

text \<open>
  The handler of an unexpected interrupt sets the lines to the kernel's mask
  without looking at \<open>disabled\<close>: on a core whose lines are switched off, an interrupt
  that the kernel did not expect lets every line in its mask through again.
\<close>

theorem unexpected_reenables:
  assumes "disabled s cpu" "bit (masks s cpu) i" "i < INTERRUPTS_N"
  shows "\<exists>s'. kernel_interrupt 0 False cpu count reads s = Some s' \<and> bit (int_hw s' cpu) i"
  using assms by (simp add: kernel_interrupt_def Let_def restore_mask_fold)

theorem unexpected_reenables_witness:
  "\<exists>s'. kernel_interrupt 0 False 0 0 (\<lambda>_. 0) (snd (snd (kernel_interrupts_off 0 (\<lparr>cpu_ie = True, cpu_timer_ie = True\<rparr>, demo_irq))))
      = Some s' \<and> bit (int_hw s' 0) 2"
  by (rule unexpected_reenables) (simp_all add: off_on_eq demo_irq_def INTERRUPTS_N_def)

end
