(* ===== verification/Act_List.thy ===== *)
theory Act_List
  imports Kernel_State
begin

text \<open>
  The list of all activations (\<open>cherios/kernel/src/act.c\<close>: \<open>add_act_to_end_of_list\<close> and
  \<open>remove_from_list\<close>): a singly linked list through \<open>list_next\<close>, from \<open>act_list_start\<close>,
  with \<open>act_list_end\<close> as a hint for its end. Removal marks the activation and sweeps
  all marked ones out of the list. Both loops follow links, so they are partial
  functions that do not return on a cyclic list; the lemmas show that they return on
  a list that is well formed.
\<close>

partial_function (option) insert_loop :: "nat \<Rightarrow> nat \<Rightarrow> kstate \<Rightarrow> kstate option" where
  "insert_loop act trial_last s =
     (case list_next (acts s trial_last) of
        None \<Rightarrow> Some (upd_act trial_last (\<lambda>x. x\<lparr>list_next := Some act\<rparr>) s)
      | Some n \<Rightarrow> insert_loop act n s)"

definition add_act_to_end_of_list :: "nat \<Rightarrow> kstate \<Rightarrow> kstate option" where
  "add_act_to_end_of_list act s =
     (if act_list_start s = None
      then Some (upd_act act (\<lambda>x. x\<lparr>list_next := None\<rparr>) (s\<lparr>act_list_start := Some act, act_list_end := Some act\<rparr>))
      else do {
        let s = upd_act act (\<lambda>x. x\<lparr>list_next := None, list_del_prog := False\<rparr>) s;
        trial_last \<leftarrow> act_list_end s;
        s \<leftarrow> insert_loop act trial_last s;
        Some (if list_next (acts s act) = None then s\<lparr>act_list_end := Some act\<rparr> else s)
      })"

text \<open>\<open>spinlock_try_acquire\<close> gives up after the given number of attempts.\<close>

definition try_lock_act_list :: "kstate \<Rightarrow> kstate option" where
  "try_lock_act_list s = (if act_list_lock s then None else Some (s\<lparr>act_list_lock := True\<rparr>))"

partial_function (option) sweep :: "nat \<Rightarrow> nat option \<Rightarrow> kstate \<Rightarrow> kstate option" where
  "sweep prev cur s =
     (case cur of
        None \<Rightarrow> Some s
      | Some c \<Rightarrow>
         if list_del_prog (acts s c) then do {
           let nxt = list_next (acts s c);
           kassert (list_next (acts s prev) = Some c);
           let s = upd_act prev (\<lambda>x. x\<lparr>list_next := nxt\<rparr>) s;
           if nxt = None then do {
             let s = s\<lparr>act_list_end := Some prev\<rparr>;
             (case list_next (acts s c) of
                Some n \<Rightarrow> add_act_to_end_of_list n s
              | None \<Rightarrow> sweep prev None s)
           } else sweep prev nxt s
         } else sweep c (list_next (acts s c)) s)"

definition remove_from_list :: "nat \<Rightarrow> kstate \<Rightarrow> kstate option" where
  "remove_from_list act s = do {
     kassert (Some act \<noteq> act_list_start s);
     let s = upd_act act (\<lambda>x. x\<lparr>list_del_prog := True\<rparr>) s;
     (case try_lock_act_list s of
        None \<Rightarrow> Some s
      | Some s \<Rightarrow> do {
          prev \<leftarrow> act_list_start s;
          s \<leftarrow> sweep prev (list_next (acts s prev)) s;
          Some (s\<lparr>act_list_lock := False\<rparr>)
        })
   }"

text \<open>The traversal by \<open>kernel_syscall_actlist_first\<close> and \<open>kernel_syscall_actlist_next\<close>.\<close>

primrec traverse :: "nat \<Rightarrow> nat option \<Rightarrow> kstate \<Rightarrow> nat list" where
  "traverse 0 a s = []"
| "traverse (Suc n) a s = (case a of None \<Rightarrow> [] | Some a \<Rightarrow> a # traverse n (list_next (acts s a)) s)"

subsection \<open>Chains\<close>

fun chain :: "(nat \<Rightarrow> nat option) \<Rightarrow> nat \<Rightarrow> nat list \<Rightarrow> bool" where
  "chain nx a [] = (nx a = None)"
| "chain nx a (b # xs) = (nx a = Some b \<and> chain nx b xs)"

lemma chain_cong: "chain nx a xs \<Longrightarrow> (\<And>b. b \<in> set (a # xs) \<Longrightarrow> nx' b = nx b) \<Longrightarrow> chain nx' a xs"
  by (induction xs arbitrary: a) auto

lemma chain_append:
  assumes "chain nx a xs" "distinct (a # xs @ [b])" "nx' (List.last (a # xs)) = Some b" "nx' b = None"
    and "\<And>c. c \<noteq> List.last (a # xs) \<Longrightarrow> c \<noteq> b \<Longrightarrow> nx' c = nx c"
  shows "chain nx' a (xs @ [b])"
  using assms
proof (induction xs arbitrary: a)
  case (Cons c xs)
  have l: "List.last (a # c # xs) = List.last (c # xs)" by simp
  have "List.last (c # xs) \<noteq> a" using Cons.prems(2) last_in_set [of "c # xs"] by auto
  then have "nx' a = Some c" using Cons.prems by (auto simp: l)
  moreover have "chain nx' c (xs @ [b])" using Cons.prems unfolding l by (intro Cons.IH) auto
  ultimately show ?case by simp
qed auto

definition nexts :: "kstate \<Rightarrow> nat \<Rightarrow> nat option" where
  "nexts s a = list_next (acts s a)"

text \<open>\<open>act_list s xs\<close>: the list holds exactly the activations \<open>xs\<close>, in this order.\<close>

definition act_list :: "kstate \<Rightarrow> nat list \<Rightarrow> bool" where
  "act_list s xs \<longleftrightarrow> distinct xs \<and>
     (case xs of [] \<Rightarrow> act_list_start s = None
      | a # ys \<Rightarrow> act_list_start s = Some a \<and> act_list_end s = Some (List.last xs) \<and> chain (nexts s) a ys)"

lemma act_list_cong:
  assumes "nexts s' = nexts s" "act_list_start s' = act_list_start s" "act_list_end s' = act_list_end s"
  shows "act_list s' xs = act_list s xs"
  unfolding act_list_def assms by (rule refl)

lemma chain_last: "chain nx a xs \<Longrightarrow> nx (List.last (a # xs)) = None"
  by (induction xs arbitrary: a) auto

text \<open>\<open>list_frame s s'\<close>: the two states differ at most in the list of activations.\<close>

definition list_frame :: "kstate \<Rightarrow> kstate \<Rightarrow> bool" where
  "list_frame s s' \<longleftrightarrow> (\<exists>nx dp st e l. s' = s\<lparr>acts := (\<lambda>b. (acts s b)\<lparr>list_next := nx b, list_del_prog := dp b\<rparr>),
     act_list_start := st, act_list_end := e, act_list_lock := l\<rparr>)"

lemma list_frameI:
  assumes "s' = s\<lparr>acts := f, act_list_start := st, act_list_end := e, act_list_lock := l\<rparr>"
    and "\<And>b. (f b)\<lparr>list_next := None, list_del_prog := False\<rparr> = (acts s b)\<lparr>list_next := None, list_del_prog := False\<rparr>"
  shows "list_frame s s'"
proof -
  define g where "g = (\<lambda>b. (acts s b)\<lparr>list_next := list_next (f b), list_del_prog := list_del_prog (f b)\<rparr>)"
  have "f b = g b" for b
    using arg_cong [OF assms(2) [of b], of "\<lambda>x. x\<lparr>list_next := list_next (f b), list_del_prog := list_del_prog (f b)\<rparr>"]
    by (simp add: g_def)
  then have "f = g" ..
  then have "s' = s\<lparr>acts := g, act_list_start := st, act_list_end := e, act_list_lock := l\<rparr>" using assms(1) by simp
  then show ?thesis unfolding list_frame_def g_def by (intro exI)
qed

lemma list_add_ok:
  assumes "act_list s xs" "a \<notin> set xs"
  shows "\<exists>s'. add_act_to_end_of_list a s = Some s' \<and> act_list s' (xs @ [a])
    \<and> list_del_prog (acts s' a) = (xs = [] \<and> list_del_prog (acts s a)) \<and> (\<forall>b. b \<noteq> a \<longrightarrow> list_del_prog (acts s' b) = list_del_prog (acts s b))
    \<and> act_list_lock s' = act_list_lock s \<and> list_frame s s'"
proof (cases xs)
  case Nil
  define s' where "s' = upd_act a (\<lambda>x. x\<lparr>list_next := None\<rparr>) (s\<lparr>act_list_start := Some a, act_list_end := Some a\<rparr>)"
  have "list_frame s s'"
    by (rule list_frameI [where l = "act_list_lock s" and f = "acts s'" and st = "Some a" and e = "Some a"]) (simp_all add: s'_def upd_act_def)
  then show ?thesis using assms Nil by (simp add: add_act_to_end_of_list_def act_list_def nexts_def upd_act_def s'_def)
next
  case (Cons x ys)
  define e where "e = List.last (x # ys)"
  define s1 where "s1 = upd_act a (\<lambda>y. y\<lparr>list_next := None, list_del_prog := False\<rparr>) s"
  define s2 where "s2 = upd_act e (\<lambda>y. y\<lparr>list_next := Some a\<rparr>) s1"
  have al: "distinct (x # ys)" "act_list_start s = Some x" "act_list_end s = Some e" "chain (nexts s) x ys"
    using assms(1) Cons by (simp_all add: act_list_def e_def)
  have ea: "e \<noteq> a" using assms(2) Cons last_in_set [of "x # ys"] by (auto simp: e_def)
  have "list_next (acts s1 e) = None" using chain_last [OF al(4)] ea by (simp add: e_def nexts_def s1_def)
  then have "insert_loop a e s1 = Some s2" by (subst insert_loop.simps) (simp add: s2_def)
  moreover have "list_next (acts s2 a) = None" using ea by (simp add: s2_def s1_def)
  ultimately have eq: "add_act_to_end_of_list a s = Some (s2\<lparr>act_list_end := Some a\<rparr>)"
    using al(2,3) by (simp add: add_act_to_end_of_list_def flip: s1_def) (simp add: s1_def upd_act_def)
  have "chain (nexts s2) x (ys @ [a])"
    by (rule chain_append [OF al(4)]) (use assms(2) Cons al(1) ea in \<open>auto simp: nexts_def s2_def s1_def e_def\<close>)
  moreover have "nexts (s2\<lparr>act_list_end := Some a\<rparr>) = nexts s2" by (simp add: nexts_def fun_eq_iff)
  moreover have "act_list_start s2 = Some x" using al(2) by (simp add: s2_def s1_def upd_act_def)
  ultimately have "act_list (s2\<lparr>act_list_end := Some a\<rparr>) (xs @ [a])"
    using al(1) Cons assms(2) by (auto simp: act_list_def)
  moreover have "list_frame s (s2\<lparr>act_list_end := Some a\<rparr>)"
    by (rule list_frameI [where l = "act_list_lock s" and f = "acts s2" and st = "act_list_start s" and e = "Some a"])
       (simp_all add: s2_def s1_def upd_act_def)
  ultimately show ?thesis using eq ea Cons by (auto simp: s2_def s1_def upd_act_def)
qed

subsection \<open>Sweeping\<close>

definition unmarked :: "kstate \<Rightarrow> nat \<Rightarrow> bool" where
  "unmarked s a \<longleftrightarrow> \<not> list_del_prog (acts s a)"

text \<open>\<open>relinked s s'\<close>: only links and the hint for the end have changed.\<close>

definition relinked :: "kstate \<Rightarrow> kstate \<Rightarrow> bool" where
  "relinked s s' \<longleftrightarrow> (\<exists>nx e. s' = s\<lparr>acts := (\<lambda>a. (acts s a)\<lparr>list_next := nx a\<rparr>), act_list_end := e\<rparr>)"

lemma relinked_refl: "relinked s s"
  unfolding relinked_def by (intro exI [of _ "nexts s"] exI [of _ "act_list_end s"]) (simp add: nexts_def)

lemma relinked_link: "relinked s (upd_act p (\<lambda>x. x\<lparr>list_next := n\<rparr>) s)"
  unfolding relinked_def
  by (intro exI [of _ "(nexts s)(p := n)"] exI [of _ "act_list_end s"]) (auto simp: nexts_def upd_act_def fun_eq_iff)

lemma relinked_trans: "relinked s s' \<Longrightarrow> relinked s' s'' \<Longrightarrow> relinked s s''"
  unfolding relinked_def by (elim exE) (simp, intro exI, rule refl)

lemma relinked_end: "relinked s s' \<Longrightarrow> relinked s (s'\<lparr>act_list_end := e\<rparr>)"
  unfolding relinked_def by (elim exE) (simp, intro exI, rule refl)

lemma relinkedD:
  assumes "relinked s s'"
  shows "unmarked s' = unmarked s" "act_list_start s' = act_list_start s" "act_list_lock s' = act_list_lock s"
    "(acts s' a)\<lparr>list_next := None\<rparr> = (acts s a)\<lparr>list_next := None\<rparr>" "sched_pools s' = sched_pools s" "sleeps s' = sleeps s"
  using assms by (auto simp: relinked_def unmarked_def fun_eq_iff)

lemma sweep_ok:
  assumes "chain (nexts s) p xs" "distinct (p # xs)" "act_list_end s = Some (List.last (p # xs))"
  shows "\<exists>s'. sweep p (nexts s p) s = Some s' \<and> chain (nexts s') p (filter (unmarked s) xs)
    \<and> act_list_end s' = Some (List.last (p # filter (unmarked s) xs)) \<and> relinked s s'
    \<and> (\<forall>b. b \<notin> set (p # xs) \<longrightarrow> nexts s' b = nexts s b)"
  using assms
proof (induction xs arbitrary: p s)
  case Nil
  then show ?case by (subst sweep.simps) (auto simp: relinked_refl)
next
  case (Cons x xs)
  have px: "nexts s p = Some x" "chain (nexts s) x xs" "p \<noteq> x" "p \<notin> set xs" "x \<notin> set xs" "distinct xs"
    using Cons.prems by auto
  show ?case
  proof (cases "unmarked s x")
    case True
    have "sweep p (nexts s p) s = sweep x (nexts s x) s"
      using True px(1) by (subst sweep.simps) (simp add: unmarked_def nexts_def)
    moreover obtain s' where "sweep x (nexts s x) s = Some s'" "chain (nexts s') x (filter (unmarked s) xs)"
      "act_list_end s' = Some (List.last (x # filter (unmarked s) xs))" "relinked s s'"
      "\<forall>b. b \<notin> set (x # xs) \<longrightarrow> nexts s' b = nexts s b"
      using Cons.IH [of s x] Cons.prems px by auto
    ultimately show ?thesis using px True by auto
  next
    case False
    define s1 where "s1 = upd_act p (\<lambda>y. y\<lparr>list_next := nexts s x\<rparr>) s"
    have n1: "nexts s1 = (nexts s)(p := nexts s x)" by (auto simp: nexts_def s1_def fun_eq_iff)
    have r1: "relinked s s1" unfolding s1_def by (rule relinked_link)
    have step: "sweep p (nexts s p) s = (if nexts s x = None
        then sweep p None (s1\<lparr>act_list_end := Some p\<rparr>) else sweep p (nexts s x) s1)"
      using False px(1,3) by (subst sweep.simps) (simp add: unmarked_def nexts_def s1_def Let_def)
    show ?thesis
    proof (cases "xs = []")
      case True
      have "sweep p None (s1\<lparr>act_list_end := Some p\<rparr>) = Some (s1\<lparr>act_list_end := Some p\<rparr>)" by (subst sweep.simps) simp
      moreover have "nexts (s1\<lparr>act_list_end := Some p\<rparr>) = nexts s1" by (simp add: nexts_def fun_eq_iff)
      ultimately show ?thesis using px True False step relinked_end [OF r1] n1 by simp
    next
      case ne: False
      then obtain y ys where ys: "xs = y # ys" by (cases xs) auto
      have "chain (nexts s1) p xs" using px(2-5) ys by (auto simp: n1 intro!: chain_cong [of "nexts s"])
      moreover have "act_list_end s1 = Some (List.last (p # xs))" using Cons.prems(3) ys by (simp add: s1_def upd_act_def)
      ultimately obtain s' where s': "sweep p (nexts s1 p) s1 = Some s'" "chain (nexts s') p (filter (unmarked s1) xs)"
        "act_list_end s' = Some (List.last (p # filter (unmarked s1) xs))" "relinked s1 s'"
        "\<forall>b. b \<notin> set (p # xs) \<longrightarrow> nexts s' b = nexts s1 b"
        using Cons.IH [of s1 p] px by auto
      have "nexts s x = Some y" using px(2) ys by simp
      then have "sweep p (nexts s p) s = Some s'" using step s'(1) n1 by simp
      then show ?thesis using s'(2,3,5) relinked_trans [OF r1 s'(4)] False px relinkedD(1) [OF r1] n1 by auto
    qed
  qed
qed

lemma remove_ok:
  assumes "act_list s (k # xs)" "a \<noteq> k" "\<not> act_list_lock s"
  shows "\<exists>s'. remove_from_list a s = Some s' \<and> act_list s' (k # filter (\<lambda>b. b \<noteq> a \<and> unmarked s b) xs) \<and> \<not> act_list_lock s'
    \<and> (\<forall>b. unmarked s' b \<longleftrightarrow> unmarked s b \<and> b \<noteq> a)
    \<and> list_frame s s'"
proof -
  define s1 where "s1 = (upd_act a (\<lambda>x. x\<lparr>list_del_prog := True\<rparr>) s)\<lparr>act_list_lock := True\<rparr>"
  have n1: "nexts s1 = nexts s" by (auto simp: nexts_def s1_def fun_eq_iff)
  have u1: "unmarked s1 b \<longleftrightarrow> b \<noteq> a \<and> unmarked s b" for b by (simp add: unmarked_def s1_def)
  have al: "act_list_start s1 = Some k" "act_list_end s1 = Some (List.last (k # xs))" "chain (nexts s1) k xs" "distinct (k # xs)"
    using assms(1) by (simp_all add: act_list_def n1) (simp_all add: s1_def upd_act_def)
  obtain s2 where s2: "sweep k (nexts s1 k) s1 = Some s2" "chain (nexts s2) k (filter (unmarked s1) xs)"
    "act_list_end s2 = Some (List.last (k # filter (unmarked s1) xs))" "relinked s1 s2"
    using sweep_ok [OF al(3,4,2)] by blast
  have start: "act_list_start s = Some k" using assms(1) by (simp add: act_list_def)
  have "remove_from_list a s = Some (s2\<lparr>act_list_lock := False\<rparr>)"
    using assms(2,3) s2(1) start by (simp add: remove_from_list_def try_lock_act_list_def Let_def nexts_def s1_def upd_act_def)
  moreover have f: "filter (unmarked s1) xs = filter (\<lambda>b. b \<noteq> a \<and> unmarked s b) xs" by (rule filter_cong [OF refl u1])
  have "nexts (s2\<lparr>act_list_lock := False\<rparr>) = nexts s2" by (simp add: nexts_def fun_eq_iff)
  then have "act_list (s2\<lparr>act_list_lock := False\<rparr>) (k # filter (\<lambda>b. b \<noteq> a \<and> unmarked s b) xs)"
    using s2(2,3) al(1,4) relinkedD(2) [OF s2(4)] by (simp add: act_list_def f)
  moreover have "unmarked (s2\<lparr>act_list_lock := False\<rparr>) b \<longleftrightarrow> unmarked s b \<and> b \<noteq> a" for b
    using relinkedD(1) [OF s2(4)] u1 by (auto simp: unmarked_def fun_eq_iff)
  moreover obtain nx e where "s2 = s1\<lparr>acts := (\<lambda>a. (acts s1 a)\<lparr>list_next := nx a\<rparr>), act_list_end := e\<rparr>"
    using s2(4) by (auto simp: relinked_def)
  then have "list_frame s (s2\<lparr>act_list_lock := False\<rparr>)"
    by (intro list_frameI [where f = "acts s2" and st = "act_list_start s" and e = e and l = False])
       (simp_all add: s1_def upd_act_def)
  ultimately show ?thesis by simp
qed

lemma traverse_None [simp]: "traverse n None s = []"
  by (cases n) simp_all

lemma traverse_chain:
  assumes "chain (nexts s) a xs" "length xs < n"
  shows "traverse n (Some a) s = a # xs"
  using assms
proof (induction xs arbitrary: a n)
  case Nil
  then show ?case by (cases n) (simp_all add: nexts_def)
next
  case (Cons b xs)
  then show ?case by (cases n) (auto simp: nexts_def)
qed

subsection \<open>Any sequence of insertions and removals\<close>

datatype list_op = Insert nat | Remove nat

fun list_run :: "list_op list \<Rightarrow> kstate \<Rightarrow> kstate option" where
  "list_run [] s = Some s"
| "list_run (Insert a # ops) s = add_act_to_end_of_list a s \<bind> list_run ops"
| "list_run (Remove a # ops) s = remove_from_list a s \<bind> list_run ops"

fun list_spec :: "list_op list \<Rightarrow> nat list \<Rightarrow> nat list" where
  "list_spec [] xs = xs"
| "list_spec (Insert a # ops) xs = list_spec ops (xs @ [a])"
| "list_spec (Remove a # ops) xs = list_spec ops (removeAll a xs)"

text \<open>An activation is inserted once at a time, and the first one, the kernel, stays.\<close>

fun list_valid :: "list_op list \<Rightarrow> nat list \<Rightarrow> bool" where
  "list_valid [] xs = True"
| "list_valid (Insert a # ops) xs = (a \<notin> set xs \<and> list_valid ops (xs @ [a]))"
| "list_valid (Remove a # ops) xs = (xs \<noteq> [] \<and> a \<noteq> hd xs \<and> list_valid ops (removeAll a xs))"

lemma list_run_ok:
  assumes "act_list s xs" "\<forall>b \<in> set xs. unmarked s b" "\<not> act_list_lock s" "list_valid ops xs"
    and "xs = [] \<Longrightarrow> \<forall>b. unmarked s b"
  shows "\<exists>s'. list_run ops s = Some s' \<and> act_list s' (list_spec ops xs)"
  using assms
proof (induction ops arbitrary: s xs)
  case (Cons op ops)
  show ?case
  proof (cases op)
    case (Insert a)
    then have "a \<notin> set xs" using Cons.prems(4) by simp
    then obtain s1 where s1: "add_act_to_end_of_list a s = Some s1" "act_list s1 (xs @ [a])"
      "list_del_prog (acts s1 a) = (xs = [] \<and> list_del_prog (acts s a))" "\<forall>b. b \<noteq> a \<longrightarrow> list_del_prog (acts s1 b) = list_del_prog (acts s b)"
      "act_list_lock s1 = act_list_lock s"
      using list_add_ok [OF Cons.prems(1)] by blast
    have "unmarked s1 a" using s1(3) Cons.prems(5) by (auto simp: unmarked_def)
    then have "\<forall>b \<in> set (xs @ [a]). unmarked s1 b" using Cons.prems(2) s1(4) by (auto simp: unmarked_def)
    from Cons.IH [OF s1(2) this] show ?thesis using Cons.prems(3,4) Insert s1(1,5) by simp
  next
    case (Remove a)
    then obtain k ys where xs: "xs = k # ys" "a \<noteq> k" using Cons.prems(4) by (cases xs) auto
    obtain s1 where s1: "remove_from_list a s = Some s1" "act_list s1 (k # filter (\<lambda>b. b \<noteq> a \<and> unmarked s b) ys)"
      "\<not> act_list_lock s1" "\<forall>b. unmarked s1 b \<longleftrightarrow> unmarked s b \<and> b \<noteq> a"
      using remove_ok [of s k ys a] Cons.prems(1,3) xs by blast
    have eq: "k # filter (\<lambda>b. b \<noteq> a \<and> unmarked s b) ys = removeAll a xs"
      using xs Cons.prems(2) by (auto simp: removeAll_filter_not_eq intro!: filter_cong)
    have "\<forall>b \<in> set (removeAll a xs). unmarked s1 b" using Cons.prems(2) s1(4) by auto
    moreover have "removeAll a xs \<noteq> []" unfolding eq [symmetric] by simp
    ultimately show ?thesis using Cons.IH [OF s1(2) [unfolded eq]] Cons.prems(4) Remove s1(1,3) by simp
  qed
qed auto

text \<open>
  C12. The list of activations is exact: after any sequence of insertions and removals
  that keeps the first activation, both loops have returned, and the traversal that
  user space makes visits each activation that was inserted and not removed since,
  once, in the order of insertion.
\<close>

theorem act_list_exact:
  assumes "act_list_start s = None" "\<not> act_list_lock s" "\<forall>b. \<not> list_del_prog (acts s b)" "list_valid ops []"
  shows "\<exists>s'. list_run ops s = Some s'
    \<and> (\<forall>n > length (list_spec ops []). traverse n (act_list_start s') s' = list_spec ops [])"
proof -
  have "act_list s []" using assms(1) by (simp add: act_list_def)
  then obtain s' where s': "list_run ops s = Some s'" "act_list s' (list_spec ops [])"
    using list_run_ok [of s "[]" ops] assms by (auto simp: unmarked_def)
  have "traverse n (act_list_start s') s' = list_spec ops []" if "n > length (list_spec ops [])" for n
    using s'(2) that by (cases "list_spec ops []") (auto simp: act_list_def intro: traverse_chain)
  then show ?thesis using s'(1) by blast
qed

theorem act_list_exact_witness:
  "\<exists>s'. list_run [Insert 0, Insert 4, Insert 7, Remove 4, Insert 9, Remove 9, Insert 4] (zero_state 1) = Some s'
     \<and> traverse 9 (act_list_start s') s' = [0, 7, 4]"
proof -
  let ?ops = "[Insert 0, Insert 4, Insert 7, Remove 4, Insert 9, Remove 9, Insert 4]"
  have "act_list_start (zero_state 1) = None" "\<not> act_list_lock (zero_state 1)"
    "\<forall>b. \<not> list_del_prog (acts (zero_state 1) b)" "list_valid ?ops []" "list_spec ?ops [] = [0, 7, 4]"
    by (simp_all add: zero_state_def zero_act_def)
  then show ?thesis using act_list_exact [of "zero_state 1" ?ops] by auto
qed

end
