(* ===== verification/Act.thy ===== *)
theory Act
  imports Interrupts Act_List
begin

text \<open>
  Creating, revoking and terminating activations (\<open>cherios/kernel/src/act.c\<close>, and
  \<open>try_take_res\<close> of \<open>include/nano/nanokernel.h\<close>). What the nanokernel and the memory
  layout provide is gathered in the record \<open>nano_env\<close>: taking and splitting a
  reservation, creating a context, the address of the initial indirection object
  inside an activation, the size of an activation and the address of a static one.
  The entry stub and the kernel stack of an activation have no state here.
\<close>

definition act_ref_type :: u64 where "act_ref_type = 0x4202"
definition act_ctrl_ref_type :: u64 where "act_ctrl_ref_type = 0x4201"
definition act_notify_ref_type :: u64 where "act_notify_ref_type = 0x4204"
definition RES_TYPE :: u64 where "RES_TYPE = 3"
definition MAX_STATIC_ACTIVATIONS :: u32 where "MAX_STATIC_ACTIVATIONS = 8"
definition ACT_NAME_MAX_LEN :: nat where "ACT_NAME_MAX_LEN = 0x10"
definition notify_revoke_port :: u64 where "notify_revoke_port = 0"
definition notify_terminate_port :: u64 where "notify_terminate_port = 4"
definition namespace_num_init :: u32 where "namespace_num_init = 1"
definition namespace_num_namespace :: u32 where "namespace_num_namespace = 2"
definition namespace_num_memmgt :: u32 where "namespace_num_memmgt = 4"

record reg_frame_t =
  cf_msg_queue :: capability
  cf_self_ref :: capability
  cf_ns_ref :: capability
  cf_kernel_if :: capability
  cf_nano_req_auth :: capability
  cf_program_base :: u64
  cf_default :: capability
  cf_link :: capability
  cf_pcc :: capability
  cf_carg :: capability
  cf_init_tls_base :: u64

record nano_env =
  take_res :: "nat \<Rightarrow> (nat \<times> u64) option"
  split_context :: "capability \<Rightarrow> capability"
  create_context :: "reg_frame_t \<Rightarrow> capability \<Rightarrow> nat"
  initial_indir :: "nat \<Rightarrow> nat"
  sizeof_act :: u64
  kernel_acts :: "u32 \<Rightarrow> nat"
  internel_if :: capability
  req_auth :: capability

text \<open>A message queue that a caller hands in: its capability, its size in bytes and its slots.\<close>

record user_queue =
  uq_cap :: capability
  uq_bytes :: u64
  uq_slots :: "msg_t list"

definition act_create_sealed_ref :: "nat \<Rightarrow> capability" where
  "act_create_sealed_ref act = Cap act 0 (Some act_ref_type)"

definition act_create_sealed_ctrl_ref :: "nat \<Rightarrow> capability" where
  "act_create_sealed_ctrl_ref act = Cap act 0 (Some act_ctrl_ref_type)"

definition act_unseal_ctrl_ref :: "capability \<Rightarrow> nat option" where
  "act_unseal_ctrl_ref c = map_option cap_base (cheri_unseal c act_ctrl_ref_type)"

text \<open>The address and the length of the memory that was taken.\<close>

definition try_take_res :: "(nat \<Rightarrow> (nat \<times> u64) option) \<Rightarrow> capability \<Rightarrow> u64 \<Rightarrow> (nat \<times> u64) option" where
  "try_take_res take_r res required =
     (if res \<noteq> CNull \<and> cap_otype res = Some RES_TYPE
      then (case take_r (cap_base res) of
              None \<Rightarrow> None
            | Some (data, len) \<Rightarrow> Some (data, if len \<ge> required then required else len))
      else None)"

definition act_set_event_ref :: "nat \<Rightarrow> kstate \<Rightarrow> kstate" where
  "act_set_event_ref act s = s\<lparr>event_ref := Some act\<rparr>"

definition alloc_static_act :: "nano_env \<Rightarrow> kstate \<Rightarrow> (nat \<times> u32 \<times> kstate) option" where
  "alloc_static_act env s = do {
     kassert (\<not> kernel_next_act s \<ge> MAX_STATIC_ACTIVATIONS);
     let id = kernel_next_act s;
     let s = s\<lparr>kernel_next_act := id + 1\<rparr>;
     Some (kernel_acts env id, id, s)
   }"

text \<open>
  The name is copied up to the end of its capability or of the array, and ends at its
  first zero byte; a capability that cannot be read gives the empty name.
\<close>

definition copy_name :: "string option \<Rightarrow> string" where
  "copy_name name = (case name of
     None \<Rightarrow> []
   | Some cs \<Rightarrow> takeWhile (\<lambda>c. c \<noteq> CHR 0x00) (take (ACT_NAME_MAX_LEN - 1) cs))"

text \<open>
  The memory for a new activation: from the reservation or, if that gives nothing, a
  static one. Using memory that is shorter than an activation traps.
\<close>

definition alloc_act :: "nano_env \<Rightarrow> capability \<Rightarrow> kstate \<Rightarrow> (nat \<times> u32 \<times> kstate) option" where
  "alloc_act env res s = (case try_take_res (take_res env) res (sizeof_act env) of
     Some (data, len) \<Rightarrow> do {
       kassert (len \<ge> sizeof_act env);
       Some (data, 0, s)
     }
   | None \<Rightarrow> alloc_static_act env s)"

definition act_register :: "nano_env \<Rightarrow> reg_frame_t \<Rightarrow> user_queue \<Rightarrow> string option \<Rightarrow> status_e \<Rightarrow> u64 \<Rightarrow> capability \<Rightarrow>
    kstate \<Rightarrow> (nat \<times> reg_frame_t \<times> kstate) option" where
  "act_register env frame queue name create_in_status base res s = do {
     (act, used, s) \<leftarrow> alloc_act env res s;
     s \<leftarrow> add_act_to_end_of_list act s;
     let s = upd_act act (\<lambda>x. x\<lparr>image_base := base\<rparr>) s;
     let s = (if used = namespace_num_namespace then s\<lparr>ns_ref := act_create_sealed_ref act\<rparr> else s);
     let s = (if used = namespace_num_memmgt then s\<lparr>memgt_ref := Some act\<rparr> else s);
     let s = upd_act act (\<lambda>x. x\<lparr>act_name := copy_name name\<rparr>) s;
     let s = upd_act act (\<lambda>x. x\<lparr>status := create_in_status\<rparr>) s;
     let frame = frame\<lparr>cf_msg_queue := uq_cap queue, cf_self_ref := act_create_sealed_ctrl_ref act,
       cf_ns_ref := ns_ref s, cf_kernel_if := internel_if env, cf_nano_req_auth := req_auth env\<rparr>;
     x \<leftarrow> msg_queue_init (acts s act) (uq_bytes queue) (uq_slots queue);
     let s = upd_act act (\<lambda>_. x) s;
     let s = s\<lparr>indirs := (indirs s)(initial_indir env act := \<lparr>si_act = act, sync_add = 0\<rparr>)\<rparr>;
     let s = upd_sync act (\<lambda>y. y\<lparr>sync_token := 0, sync_condition := 0, current_sync_indir := initial_indir env act,
       alloc_block := None\<rparr>) s;
     Some (act, frame, s)
   }"

definition act_register_create :: "nano_env \<Rightarrow> reg_frame_t \<Rightarrow> user_queue \<Rightarrow> string option \<Rightarrow> status_e \<Rightarrow> capability \<Rightarrow> u8 \<Rightarrow>
    kstate \<Rightarrow> (capability \<times> reg_frame_t \<times> kstate) option" where
  "act_register_create env frame queue name create_in_status res cpu_hint s = do {
     let context_res = res;
     let res = (if res \<noteq> CNull then split_context env res else res);
     (act, frame, s) \<leftarrow> act_register env frame queue name create_in_status (cf_program_base frame) res s;
     let s = upd_act act (\<lambda>x. x\<lparr>act_context := create_context env frame context_res\<rparr>) s;
     let cpu_hint = (if unat cpu_hint \<ge> smp_cores s then of_nat (smp_cores s - 1) else cpu_hint);
     s \<leftarrow> sched_create cpu_hint act PRIO_MID s;
     Some (act_create_sealed_ctrl_ref act, frame, s)
   }"

definition event_msg :: "u64 \<Rightarrow> nat \<Rightarrow> msg_t" where
  "event_msg port act = \<lparr>msg_c3 = act_create_sealed_ref act, msg_c4 = CNull, msg_c5 = CNull, msg_c6 = CNull,
     msg_c1 = CNull, msg_a0 = 0, msg_a1 = 0, msg_a2 = 0, msg_a3 = 0, msg_v0 = port\<rparr>"

definition send_event :: "u64 \<Rightarrow> nat \<Rightarrow> kstate \<Rightarrow> kstate option" where
  "send_event port act s = (case event_ref s of
     None \<Rightarrow> Some s
   | Some e \<Rightarrow> map_option snd (msg_push (event_msg port act) e s))"

definition act_revoke :: "nat \<Rightarrow> kstate \<Rightarrow> (int \<times> kstate) option" where
  "act_revoke ctrl s =
     (if status (acts s ctrl) = status_terminated then Some (-1, s)
      else do {
        let s = upd_act ctrl (\<lambda>x. x\<lparr>status := status_revoked\<rparr>) s;
        s \<leftarrow> send_event notify_revoke_port ctrl s;
        Some (0, s)
      })"

text \<open>
  Terminating another activation returns 0 and hands its context to the nanokernel to
  be destroyed; terminating the running one switches away and does not return.
\<close>

datatype terminate_result = TermReturns nat | TermSwitches switch

definition act_terminate :: "nat \<Rightarrow> nat \<Rightarrow> kstate \<Rightarrow> (terminate_result \<times> kstate) option" where
  "act_terminate cpu ctrl s = do {
     let s = upd_act ctrl (\<lambda>x. x\<lparr>status := status_terminated\<rparr>) s;
     s \<leftarrow> send_event notify_terminate_port ctrl s;
     s \<leftarrow> remove_from_list ctrl s;
     (sw, s) \<leftarrow> sched_delete cpu ctrl s;
     Some (if sw = NoSwitch then TermReturns (act_context (acts s ctrl)) else TermSwitches sw, s)
   }"

definition act_get_status :: "nat \<Rightarrow> kstate \<Rightarrow> status_e" where
  "act_get_status ctrl s = status (acts s ctrl)"

text \<open>
  Start-up: the kernel's own activation is registered as a terminated one with the
  context it already runs in, then the init activation is created and made current.
  \<open>init_default\<close> and \<open>init_pcc\<close> are the data and code capabilities that the kernel
  derives for init from its own by bounds and offset.
\<close>

definition zero_frame :: reg_frame_t where
  "zero_frame = \<lparr>cf_msg_queue = CNull, cf_self_ref = CNull, cf_ns_ref = CNull, cf_kernel_if = CNull, cf_nano_req_auth = CNull,
     cf_program_base = 0, cf_default = CNull, cf_link = CNull, cf_pcc = CNull, cf_carg = CNull, cf_init_tls_base = 0\<rparr>"

definition act_init :: "nano_env \<Rightarrow> nat \<Rightarrow> user_queue \<Rightarrow> user_queue \<Rightarrow> capability \<Rightarrow> u64 \<Rightarrow> u64 \<Rightarrow> capability \<Rightarrow> capability \<Rightarrow>
    kstate \<Rightarrow> (nat \<times> kstate) option" where
  "act_init env own_context kernel_queue init_queue info init_tls_base pcc_base init_default init_pcc s = do {
     let s = s\<lparr>kernel_next_act := 0\<rparr>;
     let kernel_act = kernel_acts env 0;
     (act, f, s) \<leftarrow> act_register env zero_frame kernel_queue (Some ''kernel'') status_terminated pcc_base CNull s;
     let s = upd_act kernel_act (\<lambda>x. x\<lparr>act_context := own_context\<rparr>) s;
     s \<leftarrow> sched_create 0 kernel_act PRIO_HIGH s;
     let frame = zero_frame\<lparr>cf_default := init_default, cf_link := init_pcc, cf_pcc := init_pcc, cf_carg := info,
       cf_init_tls_base := 0x7000 + init_tls_base, cf_program_base := of_nat (cap_base init_pcc)\<rparr>;
     let init_act = kernel_acts env namespace_num_init;
     (c, f, s) \<leftarrow> act_register_create env frame init_queue (Some ''init'') status_alive CNull 0 s;
     s \<leftarrow> sched_schedule 0 init_act s;
     Some (act_context (acts s init_act), s)
   }"

subsection \<open>A new activation\<close>

text \<open>The list of activations as the system keeps it: exact, unlocked and without marks.\<close>

definition list_inv :: "kstate \<Rightarrow> nat list \<Rightarrow> bool" where
  "list_inv s xs \<longleftrightarrow> act_list s xs \<and> (\<forall>b \<in> set xs. unmarked s b) \<and> \<not> act_list_lock s \<and> (xs = [] \<longrightarrow> (\<forall>b. unmarked s b))"

definition queue_fits :: "user_queue \<Rightarrow> bool" where
  "queue_fits q \<longleftrightarrow> uq_bytes q > SIZEOF_HEADER
     \<and> (let n = ucast ((uq_bytes q - SIZEOF_HEADER) div SIZEOF_MSG) :: u32 in
         is_power_2 (ucast n) \<and> n \<noteq> 0 \<and> length (uq_slots q) = unat n)"

lemma queue_fits_init:
  assumes "queue_fits q"
  obtains x' where "msg_queue_init x (uq_bytes q) (uq_slots q) = Some x'" "ring_ok x'" "ring_items x' = []"
    "ring_cap x' = length (uq_slots q) - 1" "\<exists>m n w. x' = x\<lparr>msg_queue := m, queue_mask := n, msg_tsx := w\<rparr>"
proof -
  obtain x' where x': "msg_queue_init x (uq_bytes q) (uq_slots q) = Some x'"
    using assms by (simp add: queue_fits_def msg_queue_init_def Let_def)
  have "length (uq_slots q) = unat (ucast ((uq_bytes q - SIZEOF_HEADER) div SIZEOF_MSG) :: u32)"
    using assms by (simp add: queue_fits_def Let_def)
  from msg_queue_init_ok [OF x' this] show thesis
    using x' by (intro that [OF x']) (auto simp: msg_queue_init_def Let_def split: if_splits)
qed

text \<open>
  What registering changes: links, and fields of the new activation that neither the
  scheduler nor the other activations look at.
\<close>

lemma list_frameD:
  assumes "list_frame s s'"
  shows "same_view s s'" "sched_access_lock (acts s' b) = sched_access_lock (acts s b)"
    "queue_lock (sched_pools s' p) = queue_lock (sched_pools s p)" "ipc_view s' = ipc_view s" "irq_view s' = irq_view s"
    "sched_pools s' = sched_pools s" "event_ref s' = event_ref s" "ns_ref s' = ns_ref s" "memgt_ref s' = memgt_ref s"
    "kernel_next_act s' = kernel_next_act s" "smp_cores s' = smp_cores s"
    "act_name (acts s' b) = act_name (acts s b)" "act_context (acts s' b) = act_context (acts s b)"
  using assms by (auto simp: list_frame_def same_view_def act_view_def q_eq_def ipc_view_def irq_view_def)

lemma kernel_inv_list: "kernel_inv A s \<Longrightarrow> list_frame s s' \<Longrightarrow> kernel_inv A s'"
  by (rule kernel_inv_view [where s = s]) (auto dest: list_frameD kernel_invD(2) simp: unlocked_but_def list_frameD)

lemma alloc_act_frame:
  assumes "alloc_act env res s = Some (a, used, s0)"
  shows "\<exists>n. s0 = s\<lparr>kernel_next_act := n\<rparr>"
proof -
  have "s0 = s \<or> s0 = s\<lparr>kernel_next_act := kernel_next_act s + 1\<rparr>"
    using assms by (auto simp: alloc_act_def alloc_static_act_def Let_def bind_Some_conv split: option.splits)
  moreover have "s = s\<lparr>kernel_next_act := kernel_next_act s\<rparr>" by simp
  ultimately show ?thesis by metis
qed

text \<open>The new activation and the state after registering it, from the state \<open>s1\<close> with it in the list.\<close>

definition fresh_act :: "nano_env \<Rightarrow> string option \<Rightarrow> status_e \<Rightarrow> u64 \<Rightarrow> nat \<Rightarrow> act_t \<Rightarrow> act_t" where
  "fresh_act env name st base a x = x\<lparr>image_base := base, act_name := copy_name name, status := st,
     sync_state := (sync_state x)\<lparr>sync_token := 0, sync_condition := 0, current_sync_indir := initial_indir env a,
       alloc_block := None\<rparr>\<rparr>"

definition with_refs :: "u32 \<Rightarrow> nat \<Rightarrow> kstate \<Rightarrow> kstate" where
  "with_refs used a s = (let s = (if used = namespace_num_namespace then s\<lparr>ns_ref := act_create_sealed_ref a\<rparr> else s) in
     if used = namespace_num_memmgt then s\<lparr>memgt_ref := Some a\<rparr> else s)"

lemma act_register_eq:
  assumes "alloc_act env res s = Some (a, used, s0)" "add_act_to_end_of_list a s0 = Some s1"
    and "msg_queue_init (fresh_act env name st base a (acts s1 a)) (uq_bytes q) (uq_slots q) = Some x"
  shows "\<exists>f. act_register env frame q name st base res s = Some (a, f,
      upd_act a (\<lambda>_. x) ((with_refs used a s1)\<lparr>indirs := (indirs s1)(initial_indir env a := \<lparr>si_act = a, sync_add = 0\<rparr>)\<rparr>))
    \<and> cf_self_ref f = act_create_sealed_ctrl_ref a \<and> cf_msg_queue f = uq_cap q"
proof -
  define y where "y = (acts s1 a)\<lparr>image_base := base, act_name := copy_name name, status := st\<rparr>"
  obtain m n w where x: "msg_queue_init y (uq_bytes q) (uq_slots q) = Some (y\<lparr>msg_queue := m, queue_mask := n, msg_tsx := w\<rparr>)"
    "x = (fresh_act env name st base a (acts s1 a))\<lparr>msg_queue := m, queue_mask := n, msg_tsx := w\<rparr>"
    using assms(3) by (auto simp: msg_queue_init_def Let_def bind_Some_conv split: if_splits)
  have "x = y\<lparr>msg_queue := m, queue_mask := n, msg_tsx := w, sync_state := (sync_state y)\<lparr>sync_token := 0,
      sync_condition := 0, current_sync_indir := initial_indir env a, alloc_block := None\<rparr>\<rparr>"
    unfolding x(2) by (rule act_t.equality) (simp_all add: fresh_act_def y_def)
  then show ?thesis using assms(1,2) x(1)
    by (simp add: act_register_def Let_def with_refs_def y_def upd_act_def)
qed

text \<open>What the scheduler and the message queues need of a registered activation.\<close>

definition ready_act :: "nat \<Rightarrow> user_queue \<Rightarrow> string option \<Rightarrow> status_e \<Rightarrow> kstate \<Rightarrow> bool" where
  "ready_act a q name st s \<longleftrightarrow> status (acts s a) = st \<and> act_name (acts s a) = copy_name name \<and> may_call a s
     \<and> ring_ok (acts s a) \<and> ring_items (acts s a) = [] \<and> ring_cap (acts s a) = length (uq_slots q) - 1"

lemma act_register_ok:
  assumes inv: "kernel_inv A s" and li: "list_inv s xs" and alloc: "alloc_act env res s = Some (a, used, s0)"
    and a: "a \<notin> set xs" and q: "queue_fits q"
  shows "\<exists>f s'. act_register env frame q name st base res s = Some (a, f, s') \<and> kernel_inv A s' \<and> list_inv s' (xs @ [a])
    \<and> ready_act a q name st s' \<and> same_view s s' \<and> sched_pools s' = sched_pools s \<and> smp_cores s' = smp_cores s
    \<and> cf_self_ref f = act_create_sealed_ctrl_ref a \<and> kernel_next_act s' = kernel_next_act s0
    \<and> (\<forall>b. b \<noteq> a \<longrightarrow> status (acts s' b) = status (acts s b) \<and> msg_queue (acts s' b) = msg_queue (acts s b)
         \<and> msg_tsx (acts s' b) = msg_tsx (acts s b) \<and> sync_state (acts s' b) = sync_state (acts s b))"
proof -
  obtain n where s0: "s0 = s\<lparr>kernel_next_act := n\<rparr>" using alloc_act_frame [OF alloc] by blast
  have "nexts s0 = nexts s" by (simp add: nexts_def s0 fun_eq_iff)
  then have al0: "act_list s0 xs" using li act_list_cong [of s0 s xs] by (simp add: list_inv_def s0)
  obtain s1 where s1: "add_act_to_end_of_list a s0 = Some s1" "act_list s1 (xs @ [a])"
    "list_del_prog (acts s1 a) = (xs = [] \<and> list_del_prog (acts s0 a))" "\<forall>b. b \<noteq> a \<longrightarrow> list_del_prog (acts s1 b) = list_del_prog (acts s0 b)"
    "act_list_lock s1 = act_list_lock s0" "list_frame s0 s1"
    using list_add_ok [OF al0 a] by blast
  define y where "y = fresh_act env name st base a (acts s1 a)"
  obtain x where x: "msg_queue_init y (uq_bytes q) (uq_slots q) = Some x" "ring_ok x" "ring_items x = []"
    "ring_cap x = length (uq_slots q) - 1" "\<exists>m n w. x = y\<lparr>msg_queue := m, queue_mask := n, msg_tsx := w\<rparr>"
    by (rule queue_fits_init [OF q])
  define s' where "s' = upd_act a (\<lambda>_. x) ((with_refs used a s1)\<lparr>indirs := (indirs s1)(initial_indir env a := \<lparr>si_act = a, sync_add = 0\<rparr>)\<rparr>)"
  obtain f where f: "act_register env frame q name st base res s = Some (a, f, s')" "cf_self_ref f = act_create_sealed_ctrl_ref a"
    using act_register_eq [OF alloc s1(1) x(1) [unfolded y_def], of frame] unfolding s'_def by blast
  note d = list_frameD [OF s1(6)]
  have acts': "acts s' = (acts s1)(a := x)" "sched_pools s' = sched_pools s" "sleeps s' = sleeps s1" "smp_cores s' = smp_cores s"
    "act_list_lock s' = act_list_lock s" "act_list_start s' = act_list_start s1" "act_list_end s' = act_list_end s1"
    "indirs s' = (indirs s1)(initial_indir env a := \<lparr>si_act = a, sync_add = 0\<rparr>)"
    using d(6,11) s1(5) by (simp_all add: s'_def with_refs_def upd_act_def Let_def s0)
  have xy: "act_view x = act_view (acts s1 a)" "sched_access_lock x = sched_access_lock (acts s1 a)"
    "list_next x = list_next (acts s1 a)" "list_del_prog x = list_del_prog (acts s1 a)"
    "status x = st" "act_name x = copy_name name" "sync_condition (sync_state x) = 0" "sync_token (sync_state x) = 0"
    "current_sync_indir (sync_state x) = initial_indir env a"
    using x(5) by (auto simp: y_def fresh_act_def act_view_def)
  have "same_view s1 s'" using acts'(1,3) xy(1) acts'(2) d(6) by (simp add: same_view_def q_eq_def s0)
  moreover have "same_view s s1" using d(1) by (simp add: same_view_def s0 q_eq_def)
  ultimately have v: "same_view s s'" by (auto simp: same_view_def q_eq_def)
  have "unlocked s'" using kernel_invD(2) [OF inv] d(2) xy(2) by (auto simp: unlocked_but_def acts' s0)
  then have "kernel_inv A s'" by (rule kernel_inv_view [OF inv v])
  moreover have nx: "nexts s' = nexts s1" by (auto simp: nexts_def acts' xy fun_eq_iff)
  have um: "unmarked s' b \<longleftrightarrow> unmarked s1 b" for b by (simp add: unmarked_def acts' xy)
  have "unmarked s1 b" if "b \<in> set (xs @ [a])" for b
    using li that s1(3,4) by (cases "b = a") (auto simp: list_inv_def unmarked_def s0)
  then have "list_inv s' (xs @ [a])"
    using li s1(2) act_list_cong [OF nx acts'(6,7)] um acts'(5) by (simp add: list_inv_def)
  moreover have "ready_act a q name st s'"
    using x(2-4) xy by (simp add: ready_act_def may_call_def acts' MAX_SEQ_NS_def MAX_OFFSET_def MIN_OFFSET_def)
  moreover have "status (acts s' b) = status (acts s b) \<and> msg_queue (acts s' b) = msg_queue (acts s b)
      \<and> msg_tsx (acts s' b) = msg_tsx (acts s b) \<and> sync_state (acts s' b) = sync_state (acts s b)" if "b \<noteq> a" for b
    using ipc_viewD [OF d(4)] that by (simp add: acts' s0)
  moreover have "kernel_next_act s' = kernel_next_act s0"
    using d(10) by (simp add: s'_def with_refs_def upd_act_def Let_def)
  ultimately show ?thesis using f v acts' by blast
qed

text \<open>\<open>list_view\<close>: what the scheduler and sending a message leave alone.\<close>

definition list_view :: "kstate \<Rightarrow> (nat \<Rightarrow> nat option \<times> bool \<times> string \<times> nat) \<times> nat option \<times> nat option \<times> bool \<times> nat option \<times> u32 \<times> nat" where
  "list_view s = (\<lambda>b. (list_next (acts s b), list_del_prog (acts s b), act_name (acts s b), act_context (acts s b)),
     act_list_start s, act_list_end s, act_list_lock s, event_ref s, kernel_next_act s, smp_cores s)"

lemma list_viewD:
  assumes "list_view s' = list_view s"
  shows "nexts s' = nexts s" "unmarked s' = unmarked s" "act_name (acts s' b) = act_name (acts s b)"
    "act_context (acts s' b) = act_context (acts s b)" "act_list_start s' = act_list_start s"
    "act_list_end s' = act_list_end s" "act_list_lock s' = act_list_lock s" "event_ref s' = event_ref s"
    "kernel_next_act s' = kernel_next_act s" "smp_cores s' = smp_cores s"
  using assms by (auto simp: list_view_def fun_eq_iff nexts_def unmarked_def)

lemma list_inv_view: "list_view s' = list_view s \<Longrightarrow> list_inv s' xs = list_inv s xs"
  using list_viewD [of s' s] act_list_cong [of s' s xs] by (simp add: list_inv_def)

lemma list_view_upd [simp]:
  "(\<And>x. list_next (f x) = list_next x \<and> list_del_prog (f x) = list_del_prog x \<and> act_name (f x) = act_name x
      \<and> act_context (f x) = act_context x) \<Longrightarrow> list_view (upd_act a f s) = list_view s"
  "list_view (upd_pool p g s) = list_view s" "list_view (upd_q p l h s) = list_view s"
  "list_view (unlock_act a s) = list_view s" "list_view (unlock_pool p s) = list_view s"
  "list_view (sched_deschedule a s) = list_view s" "list_view (s\<lparr>sleeps := sl\<rparr>) = list_view s"
  "list_view (s\<lparr>idles_registered := i\<rparr>) = list_view s"
  by (auto simp: list_view_def upd_act_def upd_pool_def upd_q_def unlock_act_def unlock_pool_def
      sched_deschedule_def fun_eq_iff)

lemma list_view_queue:
  "lock_act a s = Some s' \<Longrightarrow> list_view s' = list_view s"
  "lock_pool p s = Some s' \<Longrightarrow> list_view s' = list_view s"
  "add_act_to_queue p a st s = Some s' \<Longrightarrow> list_view s' = list_view s"
  "delete_act_from_queue p a st s = Some s' \<Longrightarrow> list_view s' = list_view s"
  "kernel_timer_unsubcsribe a s = Some s' \<Longrightarrow> list_view s' = list_view s"
  by (auto simp: lock_act_def lock_pool_def add_act_to_queue_def delete_act_from_queue_def
      kernel_timer_unsubcsribe_def Let_def bind_Some_conv split: if_splits option.splits)

lemma set_fast_res_list [simp]:
  "list_next (set_fast_res c x) = list_next x" "list_del_prog (set_fast_res c x) = list_del_prog x"
  "act_name (set_fast_res c x) = act_name x" "act_context (set_fast_res c x) = act_context x"
  by (simp_all add: set_fast_res_def)

lemma list_view_receive: "sched_receive_event a ev s = Some s' \<Longrightarrow> list_view s' = list_view s"
  by (auto simp: sched_receive_event_def Let_def bind_Some_conv split: if_splits dest!: list_view_queue)

lemma list_view_picknext:
  assumes "sched_picknext p s = Some (n, s')" shows "list_view s' = list_view s"
proof -
  obtain s1 where s1: "lock_pool p s = Some s1" using assms by (auto simp: sched_picknext_def bind_Some_conv)
  obtain l qs where pl: "picked_level (queues (sched_pools s1 p)) = (l, qs)" by force
  show ?thesis using assms list_view_queue(2) [OF s1]
    by (auto simp: sched_picknext_def s1 pl Let_def bind_Some_conv split: if_splits dest!: list_view_queue)
qed

lemma list_view_reschedule:
  "sched_reschedule cpu hint in_exc s = Some (sw, s') \<Longrightarrow> list_view s' = list_view s"
  by (auto simp: sched_reschedule_def sched_schedule_def Let_def bind_Some_conv
      split: if_splits option.splits dest!: list_view_queue list_view_picknext)

lemma list_view_push:
  assumes "msg_push m t s = Some (r, s')" shows "list_view s' = list_view s"
proof -
  obtain x where x: "try_push m (acts s t) = Some (r, x)"
    "sched_receive_event t sched_waiting (upd_act t (\<lambda>_. x) s) = Some s' \<or> s' = upd_act t (\<lambda>_. x) s"
    using assms by (auto simp: msg_push_def Let_def bind_Some_conv split: if_splits)
  obtain q w where "x = (acts s t)\<lparr>msg_queue := q, msg_tsx := w\<rparr>" using try_push_fields [OF x(1)] by blast
  then have "list_view (upd_act t (\<lambda>_. x) s) = list_view s" by (auto simp: list_view_def fun_eq_iff upd_act_def)
  then show ?thesis using x(2) list_view_receive by fastforce
qed

lemma list_view_delete: "sched_delete cpu a s = Some (sw, s') \<Longrightarrow> list_view s' = list_view s"
  by (auto simp: sched_delete_def Let_def bind_Some_conv split: if_splits dest!: list_view_queue list_view_reschedule)

lemma ipc_view_delete: "sched_delete cpu a s = Some (sw, s') \<Longrightarrow> ipc_view s' = ipc_view s"
  by (auto simp: sched_delete_def Let_def bind_Some_conv split: if_splits dest!: ipc_view_queue ipc_view_reschedule)

lemma list_view_create: "sched_create pid a prio s = Some s' \<Longrightarrow> list_view s' = list_view s"
  by (auto simp: sched_create_def Let_def bind_Some_conv split: if_splits dest!: list_view_queue)

lemma create_msgs:
  assumes "sched_create pid a prio s = Some s'" "status (acts s a) = status_alive" "act_name (acts s a) \<noteq> ''idle.elf''"
  shows "status (acts s' b) = status (acts s b)" "msg_queue (acts s' b) = msg_queue (acts s b)"
    "queue_mask (acts s' b) = queue_mask (acts s b)" "msg_tsx (acts s' b) = msg_tsx (acts s b)"
    "sync_state (acts s' b) = sync_state (acts s b)" "indirs s' = indirs s"
proof -
  define s1 where "s1 = upd_act a (\<lambda>x. x\<lparr>pool_id := pid\<rparr>) (upd_act a (\<lambda>x. x\<lparr>sched_access_lock := False, priority := prio, is_idle := False\<rparr>) s)"
  have "add_act_to_queue (unat pid) a sched_runnable s1 = Some s'"
    using assms by (simp add: sched_create_def Let_def s1_def)
  from ipc_viewD [OF ipc_view_queue(3) [OF this]]
  show "status (acts s' b) = status (acts s b)" "msg_queue (acts s' b) = msg_queue (acts s b)"
    "queue_mask (acts s' b) = queue_mask (acts s b)" "msg_tsx (acts s' b) = msg_tsx (acts s b)"
    "sync_state (acts s' b) = sync_state (acts s b)" "indirs s' = indirs s"
    by (simp_all add: s1_def)
qed

lemma create_others:
  "sched_create pid a prio s = Some s' \<Longrightarrow> b \<noteq> a \<Longrightarrow> sched_status (acts s' b) = sched_status (acts s b)"
  by (auto simp: sched_create_def add_act_to_queue_def lock_pool_def unlock_pool_def Let_def bind_Some_conv upd_q_def
      split: if_splits)

lemma ready_act_cong:
  assumes "ready_act a q name st s" "status (acts s' a) = status (acts s a)" "msg_queue (acts s' a) = msg_queue (acts s a)"
    "queue_mask (acts s' a) = queue_mask (acts s a)" "msg_tsx (acts s' a) = msg_tsx (acts s a)"
    "sync_state (acts s' a) = sync_state (acts s a)" "indirs s' = indirs s" "act_name (acts s' a) = act_name (acts s a)"
  shows "ready_act a q name st s'"
  using assms(1,2,6-8) ring_cong [OF assms(3-5)] by (simp add: ready_act_def may_call_def)

lemma register_create_ok:
  assumes inv: "kernel_inv A s" and li: "list_inv s xs"
    and alloc: "alloc_act env (if res \<noteq> CNull then split_context env res else res) s = Some (a, used, s0)"
    and a: "a \<notin> A" "a \<notin> set xs" and q: "queue_fits q" and name: "copy_name name \<noteq> ''idle.elf''"
    and pid: "pid = (if unat cpu_hint \<ge> smp_cores s then of_nat (smp_cores s - 1) else cpu_hint)"
    and room: "card (live_in A (unat pid) s) < SCHED_QUEUE_LENGTH"
  obtains f s' where "act_register_create env frame q name status_alive res cpu_hint s = Some (act_create_sealed_ctrl_ref a, f, s')"
    "kernel_inv (insert a A) s'" "list_inv s' (xs @ [a])" "ready_act a q name status_alive s'"
    "sched_status (acts s' a) = sched_runnable" "a_pool s' a = unat pid"
    "cf_self_ref f = act_create_sealed_ctrl_ref a"
    "\<And>b. b \<noteq> a \<Longrightarrow> status (acts s' b) = status (acts s b) \<and> msg_queue (acts s' b) = msg_queue (acts s b)
         \<and> msg_tsx (acts s' b) = msg_tsx (acts s b) \<and> sync_state (acts s' b) = sync_state (acts s b)
         \<and> sched_status (acts s' b) = sched_status (acts s b)"
proof -
  define r where "r = (if res \<noteq> CNull then split_context env res else res)"
  obtain f s1 where s1: "act_register env frame q name status_alive (cf_program_base frame) r s = Some (a, f, s1)"
    "kernel_inv A s1" "list_inv s1 (xs @ [a])" "ready_act a q name status_alive s1" "same_view s s1" "smp_cores s1 = smp_cores s"
    "cf_self_ref f = act_create_sealed_ctrl_ref a"
    "\<forall>b. b \<noteq> a \<longrightarrow> status (acts s1 b) = status (acts s b) \<and> msg_queue (acts s1 b) = msg_queue (acts s b)
         \<and> msg_tsx (acts s1 b) = msg_tsx (acts s b) \<and> sync_state (acts s1 b) = sync_state (acts s b)"
    using act_register_ok [OF inv li alloc [folded r_def] a(2) q] by blast
  define s2 where "s2 = upd_act a (\<lambda>x. x\<lparr>act_context := create_context env f res\<rparr>) s1"
  have sel2: "status (acts s2 b) = status (acts s1 b)" "msg_queue (acts s2 b) = msg_queue (acts s1 b)"
    "queue_mask (acts s2 b) = queue_mask (acts s1 b)" "msg_tsx (acts s2 b) = msg_tsx (acts s1 b)"
    "sync_state (acts s2 b) = sync_state (acts s1 b)" "indirs s2 = indirs s1" "act_name (acts s2 b) = act_name (acts s1 b)"
    "act_view (acts s2 b) = act_view (acts s1 b)" "smp_cores s2 = smp_cores s" for b
    using s1(6) by (simp_all add: s2_def act_view_def)
  have v2: "same_view s1 s2" unfolding s2_def by (rule same_view_upd_act) (simp add: act_view_def)
  have "unlocked s2" using kernel_invD(2) [OF s1(2)] by (auto simp: s2_def unlocked_but_def)
  then have inv2: "kernel_inv A s2" by (rule kernel_inv_view [OF s1(2) v2])
  have r2: "ready_act a q name status_alive s2" by (rule ready_act_cong [OF s1(4)]) (rule sel2)+
  then have st2: "status (acts s2 a) = status_alive" "act_name (acts s2 a) \<noteq> ''idle.elf''" using name by (simp_all add: ready_act_def)
  have live: "live_in A (unat pid) s2 = live_in A (unat pid) s" and st: "\<And>b. sched_status (acts s2 b) = sched_status (acts s b)"
  proof -
    have "act_view (acts s2 b) = act_view (acts s b)" for b using s1(5) sel2(8) by (simp add: same_view_def)
    then show "live_in A (unat pid) s2 = live_in A (unat pid) s" "\<And>b. sched_status (acts s2 b) = sched_status (acts s b)"
      by (auto simp: live_in_def act_view_def)
  qed
  have "card {b \<in> A. \<not> is_idle (acts s2 b) \<and> sched_status (acts s2 b) \<noteq> sched_terminated \<and> a_pool s2 b = unat pid} < SCHED_QUEUE_LENGTH"
    using room unfolding live [symmetric] by (simp add: live_in_def)
  then obtain s3 where s3: "sched_create pid a PRIO_MID s2 = Some s3" "kernel_inv (insert a A) s3"
    "sched_status (acts s3 a) = sched_runnable" "a_pool s3 a = unat pid"
    by (rule create_alive_ok [OF inv2 a(1) st2, of pid PRIO_MID])
  note m = create_msgs [OF s3(1) st2]
  have eq: "act_register_create env frame q name status_alive res cpu_hint s = Some (act_create_sealed_ctrl_ref a, f, s3)"
    using s1(1) s3(1) sel2(9) unfolding act_register_create_def Let_def r_def s2_def pid
    by (cases "unat cpu_hint \<ge> smp_cores s") simp_all
  have "nexts s2 = nexts s1" "unmarked s2 = unmarked s1" "act_list_start s2 = act_list_start s1" "act_list_end s2 = act_list_end s1"
    "act_list_lock s2 = act_list_lock s1"
    by (auto simp: s2_def nexts_def unmarked_def fun_eq_iff upd_act_def)
  then have "list_inv s2 (xs @ [a])" using s1(3) act_list_cong [of s2 s1] by (simp add: list_inv_def)
  then have li3: "list_inv s3 (xs @ [a])" using list_inv_view [OF list_view_create [OF s3(1)]] by simp
  have r3: "ready_act a q name status_alive s3"
    by (rule ready_act_cong [OF r2]) (rule m list_viewD(3) [OF list_view_create [OF s3(1)]])+
  show thesis
    by (rule that [OF eq s3(2) li3 r3 s3(3,4) s1(7)]) (use s1(8) m sel2 st create_others [OF s3(1)] in simp)
qed

text \<open>
  C8. Creating an activation connects all parts of the kernel: given memory, a queue
  of a valid size and room in the scheduler's pool, \<open>act_register_create\<close> returns a
  sealed control reference to the new activation, which is alive and runnable on the
  requested core (or the last one), is the last of the list of activations, has an
  empty message queue and may make a synchronous call. The scheduler's invariant
  holds with the new activation, and the other activations keep their status, their
  queues and their reply state.
\<close>

theorem act_create_ok:
  assumes "kernel_inv A s" "list_inv s xs"
    and "alloc_act env (if res \<noteq> CNull then split_context env res else res) s = Some (a, used, s0)"
    and "a \<notin> A" "a \<notin> set xs" "queue_fits q" "copy_name name \<noteq> ''idle.elf''"
    and "pid = (if unat cpu_hint \<ge> smp_cores s then of_nat (smp_cores s - 1) else cpu_hint)"
    and "card (live_in A (unat pid) s) < SCHED_QUEUE_LENGTH"
  shows "\<exists>f s'. act_register_create env frame q name status_alive res cpu_hint s = Some (act_create_sealed_ctrl_ref a, f, s')
    \<and> kernel_inv (insert a A) s' \<and> list_inv s' (xs @ [a])
    \<and> status (acts s' a) = status_alive \<and> sched_status (acts s' a) = sched_runnable \<and> a_pool s' a = unat pid
    \<and> ring_ok (acts s' a) \<and> ring_items (acts s' a) = [] \<and> may_call a s'
    \<and> cf_self_ref f = act_create_sealed_ctrl_ref a
    \<and> (\<forall>b. b \<noteq> a \<longrightarrow> status (acts s' b) = status (acts s b) \<and> msg_queue (acts s' b) = msg_queue (acts s b)
         \<and> msg_tsx (acts s' b) = msg_tsx (acts s b) \<and> sync_state (acts s' b) = sync_state (acts s b))"
proof (rule register_create_ok [OF assms, of frame])
  fix f s'
  assume r: "act_register_create env frame q name status_alive res cpu_hint s = Some (act_create_sealed_ctrl_ref a, f, s')"
    "kernel_inv (insert a A) s'" "list_inv s' (xs @ [a])" "ready_act a q name status_alive s'"
    "sched_status (acts s' a) = sched_runnable" "a_pool s' a = unat pid" "cf_self_ref f = act_create_sealed_ctrl_ref a"
    "\<And>b. b \<noteq> a \<Longrightarrow> status (acts s' b) = status (acts s b) \<and> msg_queue (acts s' b) = msg_queue (acts s b)
         \<and> msg_tsx (acts s' b) = msg_tsx (acts s b) \<and> sync_state (acts s' b) = sync_state (acts s b)
         \<and> sched_status (acts s' b) = sched_status (acts s b)"
  show ?thesis using r(1-3,5-8) r(4) unfolding ready_act_def by (intro exI [of _ f] exI [of _ s'] conjI) simp_all
qed

subsection \<open>The end of an activation\<close>

definition can_send :: "nat set \<Rightarrow> kstate \<Rightarrow> bool" where
  "can_send A s \<longleftrightarrow> (case event_ref s of None \<Rightarrow> True
     | Some e \<Rightarrow> e \<in> A \<and> \<not> is_idle (acts s e) \<and> ring_ok (acts s e) \<and> 0 < ring_budget (acts s e))"

lemma send_event_ok:
  assumes inv: "kernel_inv A s" and ev: "can_send A s"
  obtains s' where "send_event port a s = Some s'" "kernel_inv A s'" "list_view s' = list_view s"
    "\<And>p. current_act (sched_pools s' p) = current_act (sched_pools s p) \<and> idle_act (sched_pools s' p) = idle_act (sched_pools s p)"
    "\<And>b. status (acts s' b) = status (acts s b) \<and> is_idle (acts s' b) = is_idle (acts s b)"
    "\<And>b. event_ref s = Some b \<Longrightarrow> ring_items (acts s' b) = take (ring_cap (acts s b)) (ring_items (acts s b) @ [event_msg port a])"
proof (cases "event_ref s")
  case None
  then show thesis using that [of s] inv by (simp add: send_event_def)
next
  case (Some e)
  then have e: "e \<in> A" "\<not> is_idle (acts s e)" "ring_ok (acts s e)" "0 < ring_budget (acts s e)"
    using ev by (simp_all add: can_send_def)
  obtain r s' x where s': "msg_push (event_msg port a) e s = Some (r, s')" "kernel_inv A s'"
      "ipc_view s' = ipc_view (upd_act e (\<lambda>_. x) s)"
    and x: "is_idle x = is_idle (acts s e)" "status x = status (acts s e)"
      "ring_items x = take (ring_cap (acts s e)) (ring_items (acts s e) @ [event_msg port a])"
    and c: "\<forall>p. current_act (sched_pools s' p) = current_act (sched_pools s p)"
    using push_take [OF inv e, of "event_msg port a"] by blast
  note v = ipc_viewD [OF s'(3)]
  have "msg_queue (acts s' e) = msg_queue x" "queue_mask (acts s' e) = queue_mask x" "msg_tsx (acts s' e) = msg_tsx x"
    using v(3-5) [of e] by simp_all
  then have "ring_items (acts s' e) = ring_items x" by (rule ring_cong)
  moreover have "status (acts s' b) = status (acts s b) \<and> is_idle (acts s' b) = is_idle (acts s b)" for b
    using v(1,2) [of b] x(1,2) by auto
  moreover have "send_event port a s = Some s'" using s'(1) Some by (simp add: send_event_def)
  ultimately show thesis
    using that [OF _ s'(2) list_view_push [OF s'(1)]] c irq_viewD(5) [OF irq_view_push [OF s'(1)]] x(3) Some by simp
qed

lemma upd_status_inv:
  "kernel_inv A s \<Longrightarrow> kernel_inv A (upd_act a (\<lambda>x. x\<lparr>status := st\<rparr>) s)"
  by (rule kernel_inv_view [where s = s])
     (auto intro: same_view_upd_act dest: kernel_invD(2) simp: act_view_def unlocked_but_def)

lemma terminate_ok:
  assumes inv: "kernel_inv A s" and li: "list_inv s (k # xs)" and a: "a \<in> A" "\<not> is_idle (acts s a)" "a \<noteq> k"
    and ev: "can_send A s"
    and run: "sched_status (acts s a) = sched_running \<longrightarrow> a_pool s a = cpu \<and> idle_act (sched_pools s cpu) \<noteq> None"
  obtains r s' where "act_terminate cpu a s = Some (r, s')" "kernel_inv A s'" "list_inv s' (k # removeAll a xs)"
    "sched_status (acts s' a) = sched_terminated" "status (acts s' a) = status_terminated"
    "sched_status (acts s a) = sched_running \<Longrightarrow> \<exists>n. n \<noteq> a \<and> r = TermSwitches (DestroyAndSwitchTo n a)"
    "sched_status (acts s a) \<noteq> sched_running \<Longrightarrow> r = TermReturns (act_context (acts s a))"
    "\<And>e. event_ref s = Some e \<Longrightarrow>
       ring_items (acts s' e) = take (ring_cap (acts s e)) (ring_items (acts s e) @ [event_msg notify_terminate_port a])"
proof -
  define s1 where "s1 = upd_act a (\<lambda>x. x\<lparr>status := status_terminated\<rparr>) s"
  have inv1: "kernel_inv A s1" unfolding s1_def by (rule upd_status_inv [OF inv])
  have lv1: "list_view s1 = list_view s" by (simp add: s1_def)
  have sel1: "event_ref s1 = event_ref s" "sched_pools s1 = sched_pools s" "msg_queue (acts s1 b) = msg_queue (acts s b)"
    "queue_mask (acts s1 b) = queue_mask (acts s b)" "msg_tsx (acts s1 b) = msg_tsx (acts s b)"
    "is_idle (acts s1 b) = is_idle (acts s b)" for b by (simp_all add: s1_def upd_act_def)
  note ring1 = ring_cong [OF sel1(3-5)] ring_budget_cong [OF sel1(3,4)]
  have ev1: "can_send A s1" using ev ring1 sel1(6) by (simp add: can_send_def sel1(1) split: option.splits)
  obtain s2 where s2: "send_event notify_terminate_port a s1 = Some s2" "kernel_inv A s2" "list_view s2 = list_view s1"
    "\<And>p. current_act (sched_pools s2 p) = current_act (sched_pools s1 p) \<and> idle_act (sched_pools s2 p) = idle_act (sched_pools s1 p)"
    "\<And>b. status (acts s2 b) = status (acts s1 b) \<and> is_idle (acts s2 b) = is_idle (acts s1 b)"
    "\<And>b. event_ref s1 = Some b \<Longrightarrow>
       ring_items (acts s2 b) = take (ring_cap (acts s1 b)) (ring_items (acts s1 b) @ [event_msg notify_terminate_port a])"
    by (rule send_event_ok [OF inv1 ev1]) blast
  have li2: "list_inv s2 (k # xs)" using li list_inv_view [of s2 s] s2(3) lv1 by simp
  obtain s3 where s3: "remove_from_list a s2 = Some s3" "act_list s3 (k # filter (\<lambda>b. b \<noteq> a \<and> unmarked s2 b) xs)"
    "\<not> act_list_lock s3" "\<forall>b. unmarked s3 b \<longleftrightarrow> unmarked s2 b \<and> b \<noteq> a" "list_frame s2 s3"
    using remove_ok [of s2 k xs a] li2 a(3) unfolding list_inv_def by blast
  have f: "filter (\<lambda>b. b \<noteq> a \<and> unmarked s2 b) xs = removeAll a xs"
    using li2 by (auto simp: list_inv_def removeAll_filter_not_eq intro!: filter_cong)
  have li3: "list_inv s3 (k # removeAll a xs)" using s3(2-4) li2 a(3) by (auto simp: list_inv_def f)
  have inv3: "kernel_inv A s3" by (rule kernel_inv_list [OF s2(2) s3(5)])
  note d = list_frameD [OF s3(5)] and i3 = ipc_viewD [OF list_frameD(4) [OF s3(5)]]
  have pools: "current_act (sched_pools s3 p) = current_act (sched_pools s p)" "idle_act (sched_pools s3 p) = idle_act (sched_pools s p)" for p
    using s2(4) [of p] by (simp_all add: d(6) sel1(2))
  have iff: "sched_status (acts s3 a) = sched_running \<longleftrightarrow> sched_status (acts s a) = sched_running"
    using kernel_invD(6-8) [OF inv3] kernel_invD(6-8) [OF inv] a(1) pools(1) by metis
  have run3: "a_pool s3 a = cpu \<and> idle_act (sched_pools s3 cpu) \<noteq> None" if r: "sched_status (acts s3 a) = sched_running"
  proof -
    have "current_act (sched_pools s (a_pool s3 a)) = Some a" using kernel_invD(8) [OF inv3 a(1) r] pools(1) by simp
    then have "a_pool s a = a_pool s3 a" using kernel_invD(7) [OF inv] by blast
    then show ?thesis using run r iff pools(2) by simp
  qed
  have ni: "\<not> is_idle (acts s3 a)" using a(2) i3(1) s2(5) by (simp add: sel1(6))
  obtain sw s4 where s4: "sched_delete cpu a s3 = Some (sw, s4)" "kernel_inv A s4" "sched_status (acts s4 a) = sched_terminated"
    "sched_status (acts s3 a) = sched_running \<Longrightarrow> \<exists>n. n \<noteq> a \<and> current_act (sched_pools s4 cpu) = Some n
        \<and> sw = (if status (acts s3 a) = status_terminated then DestroyAndSwitchTo n a else SwitchTo n)"
    "sched_status (acts s3 a) \<noteq> sched_running \<Longrightarrow> sw = NoSwitch"
    using delete_ok [OF inv3 a(1) ni run3] by blast
  note i4 = ipc_viewD [OF ipc_view_delete [OF s4(1)]] and l4 = list_view_delete [OF s4(1)]
  define r where "r = (if sw = NoSwitch then TermReturns (act_context (acts s4 a)) else TermSwitches sw)"
  have eq: "act_terminate cpu a s = Some (r, s4)"
    using s2(1) s3(1) s4(1) by (simp add: act_terminate_def r_def s1_def)
  have st: "status (acts s3 a) = status_terminated" using i3(2) s2(5) by (simp add: s1_def)
  have sw: "\<exists>n. n \<noteq> a \<and> r = TermSwitches (DestroyAndSwitchTo n a)" if "sched_status (acts s a) = sched_running"
    using s4(4) iff that st by (auto simp: r_def)
  have ctx: "act_context (acts s4 a) = act_context (acts s a)"
    using list_viewD(4) [OF l4] d(13) list_viewD(4) [OF s2(3)] list_viewD(4) [OF lv1] by simp
  have ret: "r = TermReturns (act_context (acts s a))" if "sched_status (acts s a) \<noteq> sched_running"
    using s4(5) iff that ctx by (simp add: r_def)
  have ring: "ring_items (acts s4 e) = ring_items (acts s2 e)" for e
    by (rule ring_cong(1)) (simp_all add: i4 i3)
  show thesis
  proof (rule that [OF eq s4(2) _ s4(3) _ sw ret])
    show "list_inv s4 (k # removeAll a xs)" using li3 list_inv_view [OF l4] by simp
    show "status (acts s4 a) = status_terminated" using st i4(2) by simp
    fix e assume "event_ref s = Some e"
    then show "ring_items (acts s4 e) = take (ring_cap (acts s e)) (ring_items (acts s e) @ [event_msg notify_terminate_port a])"
      using s2(6) ring1 by (simp add: ring sel1(1))
  qed
qed

text \<open>
  C10. Terminating an activation, by itself or by another one that does not run it on
  another core, removes it everywhere: it is terminated for the scheduler and for
  senders, it is off the list of activations, and the event service has been sent a
  message naming it if its queue had room. The call switches away from an activation
  that terminates itself, for its context to be destroyed, and otherwise returns and
  hands the context over.
\<close>

theorem act_terminate_ok:
  assumes "kernel_inv A s" "list_inv s (k # xs)" "a \<in> A" "\<not> is_idle (acts s a)" "a \<noteq> k" "can_send A s"
    and "sched_status (acts s a) = sched_running \<longrightarrow> a_pool s a = cpu \<and> idle_act (sched_pools s cpu) \<noteq> None"
  shows "\<exists>r s'. act_terminate cpu a s = Some (r, s') \<and> kernel_inv A s' \<and> list_inv s' (k # removeAll a xs)
    \<and> sched_status (acts s' a) = sched_terminated \<and> status (acts s' a) = status_terminated
    \<and> (if sched_status (acts s a) = sched_running then \<exists>n. n \<noteq> a \<and> r = TermSwitches (DestroyAndSwitchTo n a)
       else r = TermReturns (act_context (acts s a)))
    \<and> (\<forall>e. event_ref s = Some e \<longrightarrow> ring_items (acts s' e) =
         take (ring_cap (acts s e)) (ring_items (acts s e) @ [event_msg notify_terminate_port a]))"
proof (rule terminate_ok [OF assms])
  fix r s'
  assume h: "act_terminate cpu a s = Some (r, s')" "kernel_inv A s'" "list_inv s' (k # removeAll a xs)"
    "sched_status (acts s' a) = sched_terminated" "status (acts s' a) = status_terminated"
    "sched_status (acts s a) = sched_running \<Longrightarrow> \<exists>n. n \<noteq> a \<and> r = TermSwitches (DestroyAndSwitchTo n a)"
    "sched_status (acts s a) \<noteq> sched_running \<Longrightarrow> r = TermReturns (act_context (acts s a))"
    "\<And>e. event_ref s = Some e \<Longrightarrow>
       ring_items (acts s' e) = take (ring_cap (acts s e)) (ring_items (acts s e) @ [event_msg notify_terminate_port a])"
  show ?thesis by (intro exI [of _ r] exI [of _ s'] conjI h allI impI) (use h(6,7) in auto)
qed

subsection \<open>Memory for activations\<close>

text \<open>
  Two ways for an activation that registers another one to bring the kernel down:
  with no reservation (or one that the nanokernel refuses) once the static activations
  are used up, and with a reservation that is shorter than an activation, which
  \<open>try_take_res\<close> takes without reporting that it is too short.
\<close>

theorem register_panics:
  assumes "try_take_res (take_res env) res (sizeof_act env) = None \<and> kernel_next_act s \<ge> MAX_STATIC_ACTIVATIONS
    \<or> res \<noteq> CNull \<and> cap_otype res = Some RES_TYPE \<and> take_res env (cap_base res) = Some (d, len) \<and> len < sizeof_act env"
  shows "act_register env frame q name st base res s = None"
  using assms by (auto simp: act_register_def alloc_act_def alloc_static_act_def try_take_res_def)

text \<open>
  For the witnesses: a nanokernel that hands out the memory at address 6 for the
  reservation 50 and 64 bytes for the reservation 51, with activations of 1000 bytes.
\<close>

definition demo_env :: nano_env where
  "demo_env = \<lparr>take_res = (\<lambda>r. if r = 50 then Some (6, 2000) else if r = 51 then Some (7, 64) else None),
     split_context = (\<lambda>c. c), create_context = (\<lambda>_ _. 77), initial_indir = (\<lambda>a. 1000 + a), sizeof_act = 1000,
     kernel_acts = unat, internel_if = CNull, req_auth = CNull\<rparr>"

definition demo_queue :: user_queue where
  "demo_queue = \<lparr>uq_cap = Cap 90 0 None, uq_bytes = 32 + 2 * 128, uq_slots = [demo_msg 0, demo_msg 0]\<rparr>"

theorem register_panics_witness:
  "act_register demo_env zero_frame demo_queue None status_alive 0 (Cap 51 0 (Some RES_TYPE)) demo = None"
  by (rule register_panics [where d = 7 and len = 64]) (simp add: demo_env_def)

lemma demo_list_inv: "list_inv demo []"
  by (simp add: list_inv_def act_list_def unmarked_def demo_defs)

theorem act_create_ok_witness:
  "\<exists>f s'. act_register_create demo_env zero_frame demo_queue (Some ''new'') status_alive (Cap 50 0 (Some RES_TYPE)) 0 demo
       = Some (act_create_sealed_ctrl_ref 6, f, s')
     \<and> kernel_inv (insert 6 {1, 2, 3}) s' \<and> sched_status (acts s' 6) = sched_runnable \<and> may_call 6 s'"
proof -
  let ?res = "Cap 50 0 (Some RES_TYPE)"
  have alloc: "alloc_act demo_env (if ?res \<noteq> CNull then split_context demo_env ?res else ?res) demo = Some (6, 0, demo)"
    by (simp add: alloc_act_def try_take_res_def demo_env_def)
  have q: "queue_fits demo_queue"
    by (simp add: queue_fits_def demo_queue_def SIZEOF_HEADER_def SIZEOF_MSG_def is_power_2_def Let_def)
  have name: "copy_name (Some ''new'') \<noteq> ''idle.elf''" by (simp add: copy_name_def ACT_NAME_MAX_LEN_def)
  have pid: "(0 :: u8) = (if unat (0 :: u8) \<ge> smp_cores demo then of_nat (smp_cores demo - 1) else 0)"
    by (simp add: demo_defs)
  have "live_in {1, 2, 3} (unat (0 :: u8)) demo \<subseteq> {1, 2, 3}" by (auto simp: live_in_def)
  then have "card (live_in {1, 2, 3} (unat (0 :: u8)) demo) \<le> card {1, 2, 3 :: nat}" by (rule card_mono [rotated]) simp
  then have room: "card (live_in {1, 2, 3} (unat (0 :: u8)) demo) < SCHED_QUEUE_LENGTH" by (simp add: SCHED_QUEUE_LENGTH_def)
  have new: "6 \<notin> {1, 2, 3 :: nat}" "6 \<notin> set ([] :: nat list)" by simp_all
  from act_create_ok [OF demo_inv demo_list_inv alloc new q name pid room, of zero_frame] show ?thesis
    by (elim exE conjE) (intro exI conjI)
qed

text \<open>The booted kernel with its three activations in the list.\<close>

definition demo_listed :: kstate where
  "demo_listed = demo\<lparr>acts := (\<lambda>b. (acts demo b)\<lparr>list_next := (if b = 1 then Some 2 else if b = 2 then Some 3 else None),
       list_del_prog := False\<rparr>), act_list_start := Some 1, act_list_end := Some 3, act_list_lock := False\<rparr>"

lemma demo_listed_props:
  "kernel_inv {1, 2, 3} demo_listed" "list_inv demo_listed (1 # [2, 3])" "can_send {1, 2, 3} demo_listed"
  "\<not> is_idle (acts demo_listed 3)" "sched_status (acts demo_listed 3) \<noteq> sched_running"
proof -
  have "list_frame demo demo_listed" unfolding demo_listed_def list_frame_def by (intro exI) (rule refl)
  then show "kernel_inv {1, 2, 3} demo_listed" by (rule kernel_inv_list [OF demo_inv])
  show "list_inv demo_listed (1 # [2, 3])"
    by (simp add: list_inv_def act_list_def nexts_def unmarked_def demo_listed_def)
  show "can_send {1, 2, 3} demo_listed" by (simp add: can_send_def demo_listed_def demo_defs)
  show "\<not> is_idle (acts demo_listed 3)" "sched_status (acts demo_listed 3) \<noteq> sched_running"
    by (simp_all add: demo_listed_def demo_defs sched_status_defs)
qed

theorem act_terminate_ok_witness:
  "\<exists>s'. act_terminate 0 3 demo_listed = Some (TermReturns (act_context (acts demo_listed 3)), s')
     \<and> list_inv s' [1, 2] \<and> sched_status (acts s' 3) = sched_terminated"
proof -
  have "\<exists>r s'. act_terminate 0 3 demo_listed = Some (r, s') \<and> kernel_inv {1, 2, 3} s' \<and> list_inv s' (1 # removeAll 3 [2, 3])
    \<and> sched_status (acts s' 3) = sched_terminated \<and> status (acts s' 3) = status_terminated
    \<and> (if sched_status (acts demo_listed 3) = sched_running then \<exists>n. n \<noteq> 3 \<and> r = TermSwitches (DestroyAndSwitchTo n 3)
       else r = TermReturns (act_context (acts demo_listed 3)))
    \<and> (\<forall>e. event_ref demo_listed = Some e \<longrightarrow> ring_items (acts s' e) =
         take (ring_cap (acts demo_listed e)) (ring_items (acts demo_listed e) @ [event_msg notify_terminate_port 3]))"
    by (rule act_terminate_ok [OF demo_listed_props(1,2) _ demo_listed_props(4) _ demo_listed_props(3)])
       (simp_all add: demo_listed_props(5))
  then show ?thesis using demo_listed_props(5) by auto
qed

subsection \<open>Start-up\<close>

lemma upd_context_frame:
  "kernel_inv A s \<Longrightarrow> kernel_inv A (upd_act a (\<lambda>x. x\<lparr>act_context := c\<rparr>) s)"
  "list_inv (upd_act a (\<lambda>x. x\<lparr>act_context := c\<rparr>) s) xs = list_inv s xs"
proof -
  show "kernel_inv A s \<Longrightarrow> kernel_inv A (upd_act a (\<lambda>x. x\<lparr>act_context := c\<rparr>) s)"
    by (rule kernel_inv_view [where s = s])
       (auto intro: same_view_upd_act dest: kernel_invD(2) simp: act_view_def unlocked_but_def)
  let ?s = "upd_act a (\<lambda>x. x\<lparr>act_context := c\<rparr>) s"
  have "nexts ?s = nexts s" "unmarked ?s = unmarked s" "act_list_start ?s = act_list_start s" "act_list_end ?s = act_list_end s"
    "act_list_lock ?s = act_list_lock s" by (auto simp: nexts_def unmarked_def fun_eq_iff upd_act_def)
  then show "list_inv ?s xs = list_inv s xs" using act_list_cong [of ?s s xs] by (simp add: list_inv_def)
qed

text \<open>
  C20. The kernel boots: from memory in which no activation and no list exists,
  \<open>act_init\<close> returns, and leaves a kernel in which the scheduler's invariant holds for
  the kernel's own activation, which never runs, and for init, which is current on
  core 0; both are in the list, in this order.
\<close>

theorem act_init_boots:
  assumes "kernel_inv {} s" "list_inv s []" "kernel_acts env 0 \<noteq> kernel_acts env 1"
    and "queue_fits kq" "queue_fits iq" "0 < smp_cores s"
  shows "\<exists>c s'. act_init env own kq iq info tls pcc idef ipcc s = Some (c, s')
    \<and> kernel_inv {kernel_acts env 0, kernel_acts env 1} s' \<and> list_inv s' [kernel_acts env 0, kernel_acts env 1]
    \<and> current_act (sched_pools s' 0) = Some (kernel_acts env 1)
    \<and> sched_status (acts s' (kernel_acts env 0)) = sched_terminated"
proof -
  let ?k = "kernel_acts env 0" and ?i = "kernel_acts env 1"
  define s0 where "s0 = s\<lparr>kernel_next_act := 0\<rparr>"
  have "kernel_inv {} s0" using assms(1) kernel_inv_frame [of s0 s] by (simp add: s0_def)
  moreover have "list_inv s0 []" using assms(2) by (simp add: list_inv_def act_list_def unmarked_def s0_def)
  moreover have al: "alloc_act env CNull s0 = Some (?k, 0, s0\<lparr>kernel_next_act := 1\<rparr>)"
    by (simp add: alloc_act_def try_take_res_def alloc_static_act_def s0_def MAX_STATIC_ACTIVATIONS_def)
  ultimately obtain f s1 where s1: "act_register env zero_frame kq (Some ''kernel'') status_terminated pcc CNull s0 = Some (?k, f, s1)"
    "kernel_inv {} s1" "list_inv s1 [?k]" "ready_act ?k kq (Some ''kernel'') status_terminated s1" "smp_cores s1 = smp_cores s0"
    "kernel_next_act s1 = 1"
    using act_register_ok [of "{}" s0 "[]" env CNull ?k 0 _ kq zero_frame "Some ''kernel''" status_terminated pcc] assms(4)
    by auto
  define s2 where "s2 = upd_act ?k (\<lambda>x. x\<lparr>act_context := own\<rparr>) s1"
  have s2: "kernel_inv {} s2" "list_inv s2 [?k]" "smp_cores s2 = smp_cores s" "kernel_next_act s2 = 1" "status (acts s2 ?k) \<noteq> status_alive"
    using s1(2-6) upd_context_frame by (simp_all add: s2_def s0_def ready_act_def) (simp_all add: upd_act_def)
  obtain s3 where s3: "sched_create 0 ?k PRIO_HIGH s2 = Some s3" "kernel_inv (insert ?k {}) s3" "sched_status (acts s3 ?k) = sched_terminated"
    by (rule create_dead_ok [OF s2(1) _ s2(5), of 0 PRIO_HIGH]) simp
  note lv = list_view_create [OF s3(1)]
  have li3: "list_inv s3 [?k]" using s2(2) list_inv_view [OF lv] by simp
  have n3: "kernel_next_act s3 = 1" "smp_cores s3 = smp_cores s" using s2(3,4) list_viewD(9,10) [OF lv] by simp_all
  have al3: "alloc_act env (if CNull \<noteq> CNull then split_context env CNull else CNull) s3 = Some (?i, 1, s3\<lparr>kernel_next_act := 2\<rparr>)"
    by (simp add: alloc_act_def try_take_res_def alloc_static_act_def n3 MAX_STATIC_ACTIVATIONS_def word_le_nat_alt)
  have new: "?i \<notin> insert ?k {}" "?i \<notin> set [?k]" using assms(3) by auto
  have name: "copy_name (Some ''init'') \<noteq> ''idle.elf''" by (simp add: copy_name_def ACT_NAME_MAX_LEN_def)
  have pid: "0 = (if unat (0 :: u8) \<ge> smp_cores s3 then of_nat (smp_cores s3 - 1) else 0 :: u8)" using assms(6) n3(2) by simp
  have "card (live_in (insert ?k {}) (unat (0 :: u8)) s3) \<le> card (insert ?k {})" by (rule card_mono) (auto simp: live_in_def)
  then have room: "card (live_in (insert ?k {}) (unat (0 :: u8)) s3) < SCHED_QUEUE_LENGTH" by (simp add: SCHED_QUEUE_LENGTH_def)
  define fr where "fr = zero_frame\<lparr>cf_default := idef, cf_link := ipcc, cf_pcc := ipcc, cf_carg := info,
       cf_init_tls_base := 0x7000 + tls, cf_program_base := of_nat (cap_base ipcc)\<rparr>"
  obtain f4 s4 where s4: "act_register_create env fr iq (Some ''init'') status_alive CNull 0 s3 = Some (act_create_sealed_ctrl_ref ?i, f4, s4)"
    "kernel_inv (insert ?i (insert ?k {})) s4" "list_inv s4 ([?k] @ [?i])" "sched_status (acts s4 ?i) = sched_runnable"
    "a_pool s4 ?i = unat (0 :: u8)" "sched_status (acts s4 ?k) = sched_terminated"
    by (rule register_create_ok [OF s3(2) li3 al3 new assms(5) name pid room, of fr]) (use s3(3) assms(3) in auto)
  have cur: "current_act (sched_pools s4 (unat (0 :: u8))) = None"
  proof (rule ccontr)
    assume "current_act (sched_pools s4 (unat (0 :: u8))) \<noteq> None"
    then obtain c where c: "current_act (sched_pools s4 (unat (0 :: u8))) = Some c" by blast
    show False using kernel_invD(6,7) [OF s4(2) c] s4(4,6) by (auto simp: sched_status_defs)
  qed
  obtain s5 where s5: "sched_schedule 0 ?i s4 = Some s5" "kernel_inv (insert ?i (insert ?k {})) s5"
    "current_act (sched_pools s5 (unat (0 :: u8))) = Some ?i"
    by (rule boot_ok [OF s4(2) cur _ s4(5,4)]) simp
  have eq: "act_init env own kq iq info tls pcc idef ipcc s = Some (act_context (acts s5 ?i), s5)"
    using s1(1) s3(1) s4(1) s5(1) unfolding act_init_def Let_def namespace_num_init_def
    by (simp flip: s0_def s2_def fr_def)
  have k5: "sched_status (acts s5 ?k) = sched_terminated" "list_view s5 = list_view s4"
    using s5(1) s4(6) assms(3) by (auto simp: sched_schedule_def split: if_splits)
  have "list_inv s5 [?k, ?i]" using s4(3) list_inv_view [OF k5(2)] by simp
  moreover have "kernel_inv {?k, ?i} s5" using s5(2) by (simp add: insert_commute)
  ultimately show ?thesis using eq s5(3) k5(1) by auto
qed

theorem act_init_boots_witness:
  "\<exists>c s'. act_init demo_env 5 demo_queue demo_queue CNull 0 0 CNull (Cap 0 0 None) (sched_init (zero_state 1)) = Some (c, s')
     \<and> current_act (sched_pools s' 0) = Some 1"
proof -
  have "list_inv (sched_init (zero_state 1)) []"
    by (simp add: list_inv_def act_list_def unmarked_def sched_init_def zero_state_def zero_act_def)
  moreover have "kernel_inv {} (sched_init (zero_state 1))" by (rule init_inv [OF zero_state_zeroed])
  moreover have "queue_fits demo_queue"
    by (simp add: queue_fits_def demo_queue_def SIZEOF_HEADER_def SIZEOF_MSG_def is_power_2_def Let_def)
  moreover have "smp_cores (sched_init (zero_state 1)) = 1" by (simp add: sched_init_def zero_state_def)
  moreover have "kernel_acts demo_env = unat" by (simp add: demo_env_def)
  ultimately show ?thesis
    using act_init_boots [of "sched_init (zero_state 1)" demo_env demo_queue demo_queue 5 CNull 0 0 CNull "Cap 0 0 None"] by auto
qed

end
