(* ===== verification/Syscalls.thy ===== *)
theory Syscalls
  imports Act
begin

text \<open>
  The kernel's entry points for user space (\<open>cherios/kernel/src/syscalls.c\<close>). \<open>cpu\<close> is
  the core and \<open>count\<close> its cycle counter; calls that may give up the processor return
  the context switch. A reference that does not unseal traps. Printing, the debug
  statistics and the reboot of the machine have no state here.
\<close>

definition kernel_syscall_bench_start :: "nat \<Rightarrow> u32 \<Rightarrow> cpu_status \<times> kstate \<Rightarrow> u64 \<times> bool \<times> cpu_status \<times> kstate" where
  "kernel_syscall_bench_start cpu count c =
     (let (r, c) = kernel_interrupts_off cpu c;
          in_bench = True
      in (get_high_res_time cpu count (snd c), in_bench, c))"

definition kernel_syscall_bench_end :: "nat \<Rightarrow> u32 \<Rightarrow> cpu_status \<times> kstate \<Rightarrow> u64 \<times> bool \<times> cpu_status \<times> kstate" where
  "kernel_syscall_bench_end cpu count c =
     (let time = get_high_res_time cpu count (snd c);
          in_bench = False;
          (r, c) = kernel_interrupts_on cpu c
      in (time, in_bench, c))"

definition kernel_syscall_actlist_first :: "kstate \<Rightarrow> capability option" where
  "kernel_syscall_actlist_first s = map_option act_create_sealed_ctrl_ref (act_list_start s)"

definition kernel_syscall_actlist_next :: "capability \<Rightarrow> kstate \<Rightarrow> capability option" where
  "kernel_syscall_actlist_next act s = do {
     ctrl \<leftarrow> act_unseal_ctrl_ref act;
     Some (case list_next (acts s ctrl) of Some n \<Rightarrow> act_create_sealed_ctrl_ref n | None \<Rightarrow> CNull)
   }"

record act_info_t =
  info_name :: string
  info_sched_status :: sched_status_e
  info_status :: status_e
  info_cpu :: u8

definition kernel_syscall_act_info :: "capability \<Rightarrow> kstate \<Rightarrow> act_info_t option" where
  "kernel_syscall_act_info act s = do {
     ctrl \<leftarrow> act_unseal_ctrl_ref act;
     Some \<lparr>info_name = act_name (acts s ctrl), info_sched_status = sched_status (acts s ctrl),
       info_status = status (acts s ctrl), info_cpu = pool_id (acts s ctrl)\<rparr>
   }"

definition kernel_syscall_next_sync :: "res_ops \<Rightarrow> nat \<Rightarrow> kstate \<Rightarrow> kstate option" where
  "kernel_syscall_next_sync ops caller s = map_option snd (alloc_new_indir ops caller s)"

definition kernel_syscall_change_priority :: "capability \<Rightarrow> sched_prio \<Rightarrow> kstate \<Rightarrow> kstate option" where
  "kernel_syscall_change_priority ctrl prio s =
     (if prio > PRIO_HIGH then Some s
      else do {
        control \<leftarrow> act_unseal_ctrl_ref ctrl;
        sched_change_prio control prio s
      })"

definition kernel_sleep :: "nat \<Rightarrow> u32 \<Rightarrow> u64 \<Rightarrow> kstate \<Rightarrow> (switch \<times> kstate) option" where
  "kernel_sleep cpu count timeout s =
     (if timeout \<noteq> 0 then sched_block_until_event cpu count None None sched_runnable timeout False s
      else sched_reschedule cpu None False s)"

definition kernel_syscall_now :: "nat \<Rightarrow> u32 \<Rightarrow> kstate \<Rightarrow> u64" where
  "kernel_syscall_now cpu count s = get_high_res_time cpu count s"

definition kernel_syscall_vmem_notify :: "nat \<Rightarrow> capability \<Rightarrow> bool \<Rightarrow> kstate \<Rightarrow> (switch \<times> kstate) option" where
  "kernel_syscall_vmem_notify cpu waiter suggest_switch s = do {
     t \<leftarrow> act_unseal_ref act_ref_type waiter;
     let caller = sched_get_current_act cpu s;
     kassert (\<not> caller \<noteq> memgt_ref s);
     s \<leftarrow> sched_receive_event t sched_wait_commit s;
     if suggest_switch then sched_reschedule cpu (Some t) False s else Some (NoSwitch, s)
   }"

definition kernel_wait :: "nat \<Rightarrow> u32 \<Rightarrow> kstate \<Rightarrow> (switch \<times> kstate) option" where
  "kernel_wait cpu count s = sched_block_until_event cpu count None None sched_waiting 0 False s"

definition kernel_syscall_act_register :: "nano_env \<Rightarrow> reg_frame_t \<Rightarrow> string option \<Rightarrow> user_queue \<Rightarrow> capability \<Rightarrow> u8 \<Rightarrow>
    kstate \<Rightarrow> (capability \<times> reg_frame_t \<times> kstate) option" where
  "kernel_syscall_act_register env frame name queue res cpu_hint s =
     act_register_create env frame queue name status_alive res cpu_hint s"

definition kernel_syscall_act_ctrl_get_ref :: "capability \<Rightarrow> capability option" where
  "kernel_syscall_act_ctrl_get_ref ctrl = map_option act_create_sealed_ref (act_unseal_ctrl_ref ctrl)"

definition kernel_syscall_act_ctrl_get_status :: "capability \<Rightarrow> kstate \<Rightarrow> status_e option" where
  "kernel_syscall_act_ctrl_get_status ctrl s = map_option (\<lambda>a. act_get_status a s) (act_unseal_ctrl_ref ctrl)"

definition kernel_syscall_act_ctrl_get_sched_status :: "capability \<Rightarrow> kstate \<Rightarrow> sched_status_e option" where
  "kernel_syscall_act_ctrl_get_sched_status ctrl s = map_option (\<lambda>a. sched_status (acts s a)) (act_unseal_ctrl_ref ctrl)"

definition kernel_syscall_act_revoke :: "capability \<Rightarrow> kstate \<Rightarrow> (int \<times> kstate) option" where
  "kernel_syscall_act_revoke ctrl s = do {
     a \<leftarrow> act_unseal_ctrl_ref ctrl;
     act_revoke a s
   }"

definition kernel_syscall_act_terminate :: "nat \<Rightarrow> capability \<Rightarrow> kstate \<Rightarrow> (terminate_result \<times> kstate) option" where
  "kernel_syscall_act_terminate cpu ctrl s = do {
     a \<leftarrow> act_unseal_ctrl_ref ctrl;
     act_terminate cpu a s
   }"

definition kernel_syscall_interrupt_register :: "nat \<Rightarrow> int \<Rightarrow> capability \<Rightarrow> u64 \<Rightarrow> u64 \<Rightarrow> capability \<Rightarrow> kstate \<Rightarrow> (int \<times> kstate) option" where
  "kernel_syscall_interrupt_register cpu number ctrl v0 arg carg s = do {
     a \<leftarrow> act_unseal_ctrl_ref ctrl;
     kernel_interrupt_register cpu number a v0 arg carg s
   }"

definition kernel_syscall_interrupt_enable :: "nat \<Rightarrow> int \<Rightarrow> capability \<Rightarrow> kstate \<Rightarrow> (int \<times> kstate) option" where
  "kernel_syscall_interrupt_enable cpu number ctrl s = do {
     a \<leftarrow> act_unseal_ctrl_ref ctrl;
     Some (kernel_interrupt_enable cpu number a s)
   }"

text \<open>\<open>once\<close> is the static variable of the function: whether it has been called before.\<close>

definition kernel_syscall_register_act_event_registrar :: "capability \<Rightarrow> bool \<times> kstate \<Rightarrow> (bool \<times> kstate) option" where
  "kernel_syscall_register_act_event_registrar act c = (case c of (once, s) \<Rightarrow>
     if \<not> once then do {
       a \<leftarrow> act_unseal_ref act_ref_type act;
       Some (True, act_set_event_ref a s)
     } else Some (once, s))"

definition kernel_syscall_get_name :: "capability \<Rightarrow> kstate \<Rightarrow> string option" where
  "kernel_syscall_get_name act s = map_option (\<lambda>a. act_name (acts s a)) (act_unseal_ref act_ref_type act)"

definition kernel_syscall_act_ctrl_get_notify_ref :: "capability \<Rightarrow> capability option" where
  "kernel_syscall_act_ctrl_get_notify_ref ctrl =
     map_option (\<lambda>a. Cap a 0 (Some act_notify_ref_type)) (act_unseal_ctrl_ref ctrl)"

definition kernel_syscall_cond_wait :: "nat \<Rightarrow> u32 \<Rightarrow> bool \<Rightarrow> u64 \<Rightarrow> kstate \<Rightarrow> (switch \<times> kstate) option" where
  "kernel_syscall_cond_wait cpu count notify_on_message timeout s =
     (let events = sched_wait_notify;
          events = (if notify_on_message then events OR sched_waiting else events)
      in sched_block_until_event cpu count None None events timeout False s)"

definition kernel_syscall_cond_cancel :: "nat \<Rightarrow> kstate \<Rightarrow> kstate option" where
  "kernel_syscall_cond_cancel cpu s = do {
     a \<leftarrow> sched_get_current_act cpu s;
     Some (upd_act a (\<lambda>x. x\<lparr>early_notify := False\<rparr>) s)
   }"

definition kernel_syscall_cond_notify :: "capability \<Rightarrow> kstate \<Rightarrow> kstate option" where
  "kernel_syscall_cond_notify act s = do {
     a \<leftarrow> act_unseal_ref act_notify_ref_type act;
     sched_receive_event a sched_wait_notify s
   }"

subsection \<open>Calls keep the kernel's invariants\<close>

text \<open>The calls that change state, by the activation that runs on a core.\<close>

datatype user_call =
    Change_priority capability sched_prio
  | Sleep u64
  | Wait
  | Cond_wait bool u64
  | Cond_cancel
  | Cond_notify capability
  | Revoke capability
  | Terminate capability
  | Register nano_env reg_frame_t "string option" user_queue capability u8

fun exec_call :: "nat \<Rightarrow> u32 \<Rightarrow> user_call \<Rightarrow> kstate \<Rightarrow> kstate option" where
  "exec_call cpu count (Change_priority c prio) s = kernel_syscall_change_priority c prio s"
| "exec_call cpu count (Sleep t) s = map_option snd (kernel_sleep cpu count t s)"
| "exec_call cpu count Wait s = map_option snd (kernel_wait cpu count s)"
| "exec_call cpu count (Cond_wait b t) s = map_option snd (kernel_syscall_cond_wait cpu count b t s)"
| "exec_call cpu count Cond_cancel s = kernel_syscall_cond_cancel cpu s"
| "exec_call cpu count (Cond_notify c) s = kernel_syscall_cond_notify c s"
| "exec_call cpu count (Revoke c) s = map_option snd (kernel_syscall_act_revoke c s)"
| "exec_call cpu count (Terminate c) s = map_option snd (kernel_syscall_act_terminate cpu c s)"
| "exec_call cpu count (Register env f n q r h) s = map_option (snd \<circ> snd) (kernel_syscall_act_register env f n q r h s)"

text \<open>
  The kernel's activations and list: \<open>A\<close> are the activations that were created, \<open>xs\<close>
  those in the list, headed by the kernel's own.
\<close>

definition sys_inv :: "nat set \<Rightarrow> nat list \<Rightarrow> kstate \<Rightarrow> bool" where
  "sys_inv A xs s \<longleftrightarrow> kernel_inv A s \<and> list_inv s xs \<and> xs \<noteq> []"

definition user_act :: "nat set \<Rightarrow> kstate \<Rightarrow> nat \<Rightarrow> bool" where
  "user_act A s a \<longleftrightarrow> a \<in> A \<and> \<not> is_idle (acts s a)"

fun call_guard :: "nat set \<Rightarrow> nat list \<Rightarrow> nat \<Rightarrow> kstate \<Rightarrow> user_call \<Rightarrow> bool" where
  "call_guard A xs cpu s (Change_priority c prio) = (\<exists>a. c = act_create_sealed_ctrl_ref a \<and> user_act A s a)"
| "call_guard A xs cpu s (Sleep t) = (t > 0 \<longrightarrow> None \<in> set (sleeps s))"
| "call_guard A xs cpu s Wait = True"
| "call_guard A xs cpu s (Cond_wait b t) = (t > 0 \<longrightarrow> None \<in> set (sleeps s))"
| "call_guard A xs cpu s Cond_cancel = True"
| "call_guard A xs cpu s (Cond_notify c) = (\<exists>a. c = Cap a 0 (Some act_notify_ref_type) \<and> user_act A s a)"
| "call_guard A xs cpu s (Revoke c) = ((\<exists>a. c = act_create_sealed_ctrl_ref a) \<and> can_send A s)"
| "call_guard A xs cpu s (Terminate c) = (\<exists>a. c = act_create_sealed_ctrl_ref a \<and> user_act A s a \<and> a \<noteq> hd xs \<and> can_send A s
     \<and> (sched_status (acts s a) = sched_running \<longrightarrow> a_pool s a = cpu))"
| "call_guard A xs cpu s (Register env f n q r h) = (\<exists>a used s0.
     alloc_act env (if r \<noteq> CNull then split_context env r else r) s = Some (a, used, s0) \<and> a \<notin> A \<and> a \<notin> set xs \<and> queue_fits q
     \<and> copy_name n \<noteq> ''idle.elf''
     \<and> card (live_in A (unat (if unat h \<ge> smp_cores s then of_nat (smp_cores s - 1) else h)) s) < SCHED_QUEUE_LENGTH)"

fun call_result :: "kstate \<Rightarrow> user_call \<Rightarrow> nat set \<times> nat list \<Rightarrow> nat set \<times> nat list" where
  "call_result s (Terminate c) (A, xs) = (A, hd xs # removeAll (cap_base c) (tl xs))"
| "call_result s (Register env f n q r h) (A, xs) =
     (case alloc_act env (if r \<noteq> CNull then split_context env r else r) s of
        Some (a, _) \<Rightarrow> (insert a A, xs @ [a]) | None \<Rightarrow> (A, xs))"
| "call_result s _ (A, xs) = (A, xs)"

lemma list_view_start [simp]: "list_view (kernel_timer_start_count cpu count a s) = list_view s"
  by (simp add: kernel_timer_start_count_def list_view_def upd_act_def fun_eq_iff)

lemma list_view_subscribe:
  "kernel_timer_subscribe cpu count a t s = Some s' \<Longrightarrow> list_view s' = list_view s"
  "sched_block a st s = Some s' \<Longrightarrow> list_view s' = list_view s"
  by (auto simp: kernel_timer_subscribe_def sched_block_def kernel_timer_start_count_def list_view_def upd_act_def fun_eq_iff Let_def bind_Some_conv
      split: if_splits option.splits dest!: list_view_queue)

lemma list_view_block:
  "sched_block_until_event cpu count act hint ev t in_exc s = Some (sw, s') \<Longrightarrow> list_view s' = list_view s"
  by (auto simp: sched_block_until_event_def Let_def bind_Some_conv
      split: if_splits dest!: list_view_queue list_view_subscribe list_view_reschedule)

lemma list_view_prio: "sched_change_prio a prio s = Some s' \<Longrightarrow> list_view s' = list_view s"
  by (auto simp: sched_change_prio_def Let_def bind_Some_conv split: if_splits dest!: list_view_queue)

lemma unseal_ctrl [simp]: "act_unseal_ctrl_ref (act_create_sealed_ctrl_ref a) = Some a"
  by (simp add: act_unseal_ctrl_ref_def act_create_sealed_ctrl_ref_def)

lemma block_call:
  assumes "sys_inv A xs s" "current_act (sched_pools s cpu) = Some a" "\<not> is_idle (acts s a)" "idle_act (sched_pools s cpu) \<noteq> None"
    and "ev AND 0xF = 0" "ev AND sched_sem = 0" "ev \<noteq> 0 \<or> t > 0" "ev AND sched_wait_timeout = 0" "t > 0 \<longrightarrow> None \<in> set (sleeps s)"
  shows "\<exists>s'. map_option snd (sched_block_until_event cpu count None None ev t False s) = Some s' \<and> sys_inv A xs s'"
proof -
  have k: "kernel_inv A s" using assms(1) by (simp add: sys_inv_def)
  obtain sw s' where s': "sched_block_until_event cpu count None None ev t False s = Some (sw, s')" "kernel_inv A s'"
    by (rule block_ok [OF k assms(2,3) _ assms(4) _ assms(5-7) _ assms(9), of None None count False]) (use assms(8) in auto)
  then show ?thesis using assms(1) list_inv_view [OF list_view_block [OF s'(1)]] by (simp add: sys_inv_def)
qed

lemma revoke_inv:
  assumes k: "kernel_inv A s" "list_inv s xs" and ev: "can_send A s"
  obtains r s' where "act_revoke b s = Some (r, s')" "kernel_inv A s'" "list_inv s' xs"
proof (cases "status (acts s b) = status_terminated")
  case True
  then show thesis using that [of "-1" s] k by (simp add: act_revoke_def)
next
  case False
  define s1 where "s1 = upd_act b (\<lambda>x. x\<lparr>status := status_revoked\<rparr>) s"
  have k1: "kernel_inv A s1" unfolding s1_def by (rule upd_status_inv [OF k(1)])
  have sel: "event_ref s1 = event_ref s" "msg_queue (acts s1 c) = msg_queue (acts s c)" "queue_mask (acts s1 c) = queue_mask (acts s c)"
    "msg_tsx (acts s1 c) = msg_tsx (acts s c)" "is_idle (acts s1 c) = is_idle (acts s c)" for c
    by (simp_all add: s1_def upd_act_def)
  have cs: "can_send A s1" using ev ring_cong [OF sel(2-4)] ring_budget_cong [OF sel(2,3)] sel(5)
    by (simp add: can_send_def sel(1) split: option.splits)
  obtain s2 where s2: "send_event notify_revoke_port b s1 = Some s2" "kernel_inv A s2" "list_view s2 = list_view s1"
    by (rule send_event_ok [OF k1 cs, of notify_revoke_port b]) (rule that)
  have "list_view s1 = list_view s" by (simp add: s1_def)
  then have "list_inv s2 xs" using k(2) list_inv_view [of s2 s] s2(3) by simp
  then show thesis using that [of 0 s2] s2(1,2) False by (simp add: act_revoke_def s1_def)
qed

lemma exec_call_ok:
  assumes inv: "sys_inv A xs s" and cur: "current_act (sched_pools s cpu) = Some a" "\<not> is_idle (acts s a)"
    and idle: "idle_act (sched_pools s cpu) \<noteq> None" and g: "call_guard A xs cpu s call"
  shows "\<exists>s'. exec_call cpu count call s = Some s' \<and> (case call_result s call (A, xs) of (A', xs') \<Rightarrow> sys_inv A' xs' s')"
proof (cases call)
  case (Change_priority c prio)
  then obtain b where b: "c = act_create_sealed_ctrl_ref b" "b \<in> A" "\<not> is_idle (acts s b)" using g by (auto simp: user_act_def)
  have k: "kernel_inv A s" using inv by (simp add: sys_inv_def)
  obtain s' where s': "sched_change_prio b prio s = Some s'" "kernel_inv A s'" by (rule change_prio_ok [OF k b(2,3)])
  then have "sys_inv A xs s'" using inv list_inv_view [OF list_view_prio [OF s'(1)]] by (simp add: sys_inv_def)
  then show ?thesis using Change_priority b(1) s'(1) inv by (simp add: kernel_syscall_change_priority_def)
next
  case (Sleep t)
  show ?thesis
  proof (cases "t = 0")
    case True
    have k: "kernel_inv A s" using inv by (simp add: sys_inv_def)
    obtain sw s' where s': "sched_reschedule cpu None False s = Some (sw, s')" "kernel_inv A s'"
      by (rule reschedule_from_kernel_inv [where hint = None and in_exc = False, OF k cur(1) idle]) auto
    then have "sys_inv A xs s'" using inv list_inv_view [OF list_view_reschedule [OF s'(1)]] by (simp add: sys_inv_def)
    then show ?thesis using Sleep True s'(1) by (simp add: kernel_sleep_def)
  next
    case False
    then show ?thesis using block_call [OF inv cur idle, of sched_runnable t count] g Sleep
      by (simp add: kernel_sleep_def sched_status_defs word_neq_0_conv)
  qed
next
  case Wait
  then show ?thesis using block_call [OF inv cur idle, of sched_waiting 0 count]
    by (simp add: kernel_wait_def sched_status_defs)
next
  case (Cond_wait b t)
  define ev where "ev = (if b then sched_wait_notify OR sched_waiting else sched_wait_notify)"
  have ev: "ev AND 0xF = 0" "ev AND sched_sem = 0" "ev \<noteq> 0" "ev AND sched_wait_timeout = 0"
    by (simp_all add: ev_def sched_status_defs)
  then show ?thesis using block_call [OF inv cur idle, of ev t count] g Cond_wait
    by (simp add: kernel_syscall_cond_wait_def Let_def flip: ev_def)
next
  case Cond_cancel
  define s' where "s' = upd_act a (\<lambda>x. x\<lparr>early_notify := False\<rparr>) s"
  have v: "same_view s s'" unfolding s'_def by (rule same_view_upd_act) (simp add: act_view_def)
  have k: "kernel_inv A s" using inv by (simp add: sys_inv_def)
  have "unlocked s'" using kernel_invD(2) [OF k] by (auto simp: s'_def unlocked_but_def)
  then have "kernel_inv A s'" by (rule kernel_inv_view [OF k v])
  moreover have "list_view s' = list_view s" by (simp add: s'_def)
  ultimately have "sys_inv A xs s'" using inv list_inv_view [of s' s xs] by (simp add: sys_inv_def)
  then show ?thesis using Cond_cancel cur(1) by (simp add: kernel_syscall_cond_cancel_def sched_get_current_act_def s'_def)
next
  case (Cond_notify c)
  then obtain b where b: "c = Cap b 0 (Some act_notify_ref_type)" "b \<in> A" "\<not> is_idle (acts s b)" using g by (auto simp: user_act_def)
  have k: "kernel_inv A s" using inv by (simp add: sys_inv_def)
  obtain s' where s': "sched_receive_event b sched_wait_notify s = Some s'" "kernel_inv A s'"
    by (rule receive_ok [OF k b(2,3), of sched_wait_notify]) (simp_all add: sched_status_defs)
  then have "sys_inv A xs s'" using inv list_inv_view [OF list_view_receive [OF s'(1)]] by (simp add: sys_inv_def)
  then show ?thesis using Cond_notify b(1) s'(1) by (simp add: kernel_syscall_cond_notify_def act_unseal_ref_def)
next
  case (Revoke c)
  then obtain b where b: "c = act_create_sealed_ctrl_ref b" "can_send A s" using g by auto
  have k: "kernel_inv A s" "list_inv s xs" using inv by (simp_all add: sys_inv_def)
  obtain r s' where "act_revoke b s = Some (r, s')" "kernel_inv A s'" "list_inv s' xs" by (rule revoke_inv [OF k b(2)])
  then show ?thesis using Revoke b(1) inv by (simp add: kernel_syscall_act_revoke_def sys_inv_def)
next
  case (Terminate c)
  then obtain b where b: "c = act_create_sealed_ctrl_ref b" "b \<in> A" "\<not> is_idle (acts s b)" "b \<noteq> hd xs" "can_send A s"
    "sched_status (acts s b) = sched_running \<longrightarrow> a_pool s b = cpu" using g by (auto simp: user_act_def)
  have k: "kernel_inv A s" "list_inv s (hd xs # tl xs)" using inv by (simp_all add: sys_inv_def)
  have run: "sched_status (acts s b) = sched_running \<longrightarrow> a_pool s b = cpu \<and> idle_act (sched_pools s cpu) \<noteq> None"
    using b(6) idle by simp
  obtain r s' where s': "act_terminate cpu b s = Some (r, s')" "kernel_inv A s'" "list_inv s' (hd xs # removeAll b (tl xs))"
    using terminate_ok [OF k b(2-5) run] by blast
  moreover have "cap_base c = b" using b(1) by (simp add: act_create_sealed_ctrl_ref_def)
  ultimately show ?thesis using Terminate b(1) by (simp add: kernel_syscall_act_terminate_def sys_inv_def)
next
  case (Register env f n q r h)
  let ?pid = "if unat h \<ge> smp_cores s then of_nat (smp_cores s - 1) else h"
  obtain b used s0 where b: "alloc_act env (if r \<noteq> CNull then split_context env r else r) s = Some (b, used, s0)"
    "b \<notin> A" "b \<notin> set xs" "queue_fits q" "copy_name n \<noteq> ''idle.elf''" "card (live_in A (unat ?pid) s) < SCHED_QUEUE_LENGTH"
    using g Register by auto
  have k: "kernel_inv A s" "list_inv s xs" using inv by (simp_all add: sys_inv_def)
  obtain f' s' where "act_register_create env f q n status_alive r h s = Some (act_create_sealed_ctrl_ref b, f', s')"
    "kernel_inv (insert b A) s'" "list_inv s' (xs @ [b])"
    by (rule register_create_ok [OF k b(1-5) refl b(6), of f])
  then show ?thesis using Register b(1) by (simp add: kernel_syscall_act_register_def sys_inv_def)
qed

text \<open>
  C3. A well-formed call never brings the kernel down. Whatever state the kernel is
  in, a call by the activation that runs on a core returns and keeps the invariants of
  the scheduler and of the list of activations, for the activations and the list
  that the call leaves; \<open>call_guard\<close> says what well formed means: the references it
  passes are references to activations, a timeout finds a free slot, an activation that
  runs on another core is not terminated, and the memory and the queue of a new
  activation are usable, its pool has room and its name is not that of an idle activation.
\<close>

theorem calls_safe:
  assumes "sys_inv A xs s" "current_act (sched_pools s cpu) = Some a" "\<not> is_idle (acts s a)"
    and "idle_act (sched_pools s cpu) \<noteq> None" "call_guard A xs cpu s call" "call_result s call (A, xs) = (A', xs')"
  shows "\<exists>s'. exec_call cpu count call s = Some s' \<and> kernel_inv A' s' \<and> list_inv s' xs'"
  using exec_call_ok [OF assms(1-5), of count] unfolding assms(6) sys_inv_def prod.case by blast

lemma demo_listed_sys: "sys_inv {1, 2, 3} [1, 2, 3] demo_listed"
  using demo_listed_props by (simp add: sys_inv_def)

lemma demo_listed_cur:
  "current_act (sched_pools demo_listed 0) = Some 2" "\<not> is_idle (acts demo_listed 2)" "idle_act (sched_pools demo_listed 0) \<noteq> None"
  "None \<in> set (sleeps demo_listed)"
  by (simp_all add: demo_listed_def demo_defs MAX_WAITERS_def)

theorem calls_safe_witness:
  "\<exists>s'. exec_call 0 0 (Sleep 100) demo_listed = Some s' \<and> kernel_inv {1, 2, 3} s' \<and> list_inv s' [1, 2, 3]"
  using calls_safe [OF demo_listed_sys demo_listed_cur(1-3), of "Sleep 100"] demo_listed_cur(4) by simp

text \<open>
  The kernel panics when one activation more than there are slots wants to sleep:
  with all slots of the table of sleepers taken, a sleep with a timeout fails.
\<close>

theorem sleepers_exhausted_panics:
  assumes "None \<notin> set (sleeps s)" "t \<noteq> 0"
    and "current_act (sched_pools s cpu) = Some a" "\<not> sched_access_lock (acts s a)"
  shows "kernel_sleep cpu count t s = None"
proof -
  have got: "got_event_of (full_events sched_runnable t) (acts s a) = 0"
    using assms(2) by (simp add: got_event_of_def full_events_def sched_status_defs word_neq_0_conv)
  have sem: "full_events sched_runnable t AND sched_sem = 0"
    using assms(2) by (simp add: full_events_def sched_status_defs word_neq_0_conv)
  have act: "None = Some a \<or> None = None \<and> sched_get_current_act cpu s = Some a"
    using assms(3) by (simp add: sched_get_current_act_def)
  have "subscribed cpu count a t (upd_act a (polled (full_events sched_runnable t)) s) = None"
    using assms(1,2) free_slot_None [of "sleeps s" 0]
    by (simp add: subscribed_def kernel_timer_subscribe_def Let_def kernel_timer_start_count_def word_neq_0_conv)
  then show ?thesis using block_unfold(2) [OF assms(4) act sem got, of count None False] assms(2)
    by (simp add: kernel_sleep_def)
qed

theorem sleepers_exhausted_panics_witness:
  "kernel_sleep 0 0 100 (demo\<lparr>sleeps := replicate MAX_WAITERS (Some 3)\<rparr>) = None"
  by (rule sleepers_exhausted_panics [where a = 2]) (simp_all add: demo_defs)

end
