(* ===== verification/Net_Stream.thy ===== *)
theory Net_Stream
  imports Prelude
begin

text \<open>
  Byte streams over a socket, as the server and the client of the remote page store
  use them (\<open>read_full\<close>, \<open>write_full\<close> and \<open>send_hdr\<close> of
  \<open>ECS251_Disaggregated_Memory/disaggregatedMemory/memsrv_page.c\<close>, and the same
  functions of \<open>netmem_page.c\<close>). A connection is the list of what \<open>recv\<close> is going to
  return: pieces of data, interruptions by a signal, an error; at the end of the
  list the peer has closed it. The answers of \<open>send\<close> are given likewise, and after
  them it accepts all that is left.
\<close>

subsection \<open>Receiving\<close>

datatype recv_ev = Data "u8 list" | Eintr | Fail

datatype recv_result = Got "u8 list" | Closed | Interrupted | Failed

fun recv :: "nat \<Rightarrow> recv_ev list \<Rightarrow> recv_result \<times> recv_ev list" where
  "recv n [] = (Closed, [])"
| "recv n (Eintr # es) = (Interrupted, es)"
| "recv n (Fail # es) = (Failed, es)"
| "recv n (Data bs # es) =
     (if bs = [] then recv n es
      else (Got (take n bs), if drop n bs = [] then es else Data (drop n bs) # es))"

definition ev_size :: "recv_ev \<Rightarrow> nat" where
  "ev_size e = (case e of Data bs \<Rightarrow> Suc (length bs) | _ \<Rightarrow> 1)"

abbreviation in_size :: "recv_ev list \<Rightarrow> nat" where
  "in_size es \<equiv> sum_list (map ev_size es)"

lemma recv_size:
  assumes "recv n es = (r, es')" "0 < n" "r \<noteq> Closed"
  shows "in_size es' < in_size es"
  using assms
  by (induction n es rule: recv.induct) (auto simp: ev_size_def split: if_splits)

datatype read_status = RF_Ok | RF_Closed | RF_Error

text \<open>The status, the bytes that are in the buffer and the rest of the connection.\<close>

function read_loop :: "nat \<Rightarrow> u8 list \<Rightarrow> recv_ev list \<Rightarrow> read_status \<times> u8 list \<times> recv_ev list" where
  "read_loop n got es =
     (if length got < n then
        (case recv (n - length got) es of
           (Closed, es') \<Rightarrow> (RF_Closed, got, es')
         | (Failed, es') \<Rightarrow> (RF_Error, got, es')
         | (Interrupted, es') \<Rightarrow> read_loop n got es'
         | (Got bs, es') \<Rightarrow> read_loop n (got @ bs) es')
      else (RF_Ok, got, es))"
  by auto
termination
  by (relation "measure (\<lambda>(n, got, es). in_size es)") (auto dest!: sym [of "(_, _)"] recv_size)

declare read_loop.simps [simp del]

definition read_full :: "nat \<Rightarrow> recv_ev list \<Rightarrow> read_status \<times> u8 list \<times> recv_ev list" where
  "read_full n es = read_loop n [] es"

subsection \<open>Sending\<close>

datatype send_ev = Sent nat | Send_eintr | Send_fail

function write_loop :: "u8 list \<Rightarrow> u8 list \<Rightarrow> send_ev list \<Rightarrow> bool \<times> u8 list \<times> send_ev list" where
  "write_loop buf sent es =
     (if length sent < length buf then
        (case es of
           [] \<Rightarrow> (True, buf, [])
         | Sent k # es' \<Rightarrow>
             (if k = 0 then (False, sent, es')
              else write_loop buf (sent @ take k (drop (length sent) buf)) es')
         | Send_eintr # es' \<Rightarrow> write_loop buf sent es'
         | Send_fail # es' \<Rightarrow> (False, sent, es'))
      else (True, sent, es))"
  by auto
termination by (relation "measure (\<lambda>(buf, sent, es). length es)") auto

declare write_loop.simps [simp del]

text \<open>Whether all bytes were accepted, the bytes that the peer gets, and the rest of the answers.\<close>

definition write_full :: "u8 list \<Rightarrow> send_ev list \<Rightarrow> bool \<times> u8 list \<times> send_ev list" where
  "write_full buf es = write_loop buf [] es"

subsection \<open>Headers\<close>

record MsgHdr =
  hdr_op :: u32
  hdr_region :: u32
  hdr_page :: u32
  hdr_len :: u32

definition htonl :: "u32 \<Rightarrow> u8 list" where
  "htonl w = [ucast (drop_bit 24 w), ucast (drop_bit 16 w), ucast (drop_bit 8 w), ucast w]"

definition ntohl :: "u8 list \<Rightarrow> u32" where
  "ntohl bs = foldl (\<lambda>w b. push_bit 8 w OR ucast b) 0 (take 4 bs)"

definition hdr_bytes :: "MsgHdr \<Rightarrow> u8 list" where
  "hdr_bytes h = htonl (hdr_op h) @ htonl (hdr_region h) @ htonl (hdr_page h) @ htonl (hdr_len h)"

definition parse_hdr :: "u8 list \<Rightarrow> MsgHdr" where
  "parse_hdr bs = \<lparr>hdr_op = ntohl bs, hdr_region = ntohl (drop 4 bs), hdr_page = ntohl (drop 8 bs), hdr_len = ntohl (drop 12 bs)\<rparr>"

definition SIZEOF_MsgHdr :: nat where "SIZEOF_MsgHdr = 16"

lemma length_htonl [simp]: "length (htonl w) = 4"
  by (simp add: htonl_def)

lemma ntohl_htonl [simp]: "ntohl (htonl w @ bs) = w"
proof -
  have "ntohl (htonl w @ bs) = push_bit 8 (push_bit 8 (push_bit 8 (ucast (ucast (drop_bit 24 w) :: u8))
      OR ucast (ucast (drop_bit 16 w) :: u8)) OR ucast (ucast (drop_bit 8 w) :: u8)) OR ucast (ucast w :: u8)"
    by (simp add: ntohl_def htonl_def)
  also have "\<dots> = w" (is "?l = w")
  proof (rule bit_word_eqI)
    fix n assume "n < LENGTH(32)"
    then consider "n < 8" | "8 \<le> n" "n < 16" | "16 \<le> n" "n < 24" | "24 \<le> n" "n < 32" by (simp add: not_less) linarith
    then show "bit ?l n \<longleftrightarrow> bit w n"
      by cases (auto simp: bit_simps)
  qed
  finally show ?thesis .
qed

lemma length_hdr_bytes [simp]: "length (hdr_bytes h) = SIZEOF_MsgHdr"
  by (simp add: hdr_bytes_def SIZEOF_MsgHdr_def)

lemma parse_hdr_bytes [simp]: "parse_hdr (hdr_bytes h @ bs) = h"
proof -
  have "drop 8 (htonl a @ htonl b @ xs) = xs" "drop 12 (htonl a @ htonl b @ htonl c @ xs) = xs" for a b c xs by simp_all
  then show ?thesis by (simp add: parse_hdr_def hdr_bytes_def)
qed

subsection \<open>Pieces do not matter\<close>

text \<open>The bytes of a connection, up to the first error.\<close>

fun stream :: "recv_ev list \<Rightarrow> u8 list" where
  "stream [] = []"
| "stream (Data bs # es) = bs @ stream es"
| "stream (Eintr # es) = stream es"
| "stream (Fail # es) = []"

fun broken :: "recv_ev list \<Rightarrow> bool" where
  "broken [] = False"
| "broken (Fail # es) = True"
| "broken (_ # es) = broken es"

lemma recv_stream:
  assumes "recv n es = (r, es')" "0 < n"
  shows "(case r of Got bs \<Rightarrow> stream es = bs @ stream es' \<and> broken es' = broken es \<and> bs \<noteq> [] \<and> length bs \<le> n
    | Closed \<Rightarrow> stream es = [] \<and> \<not> broken es
    | Interrupted \<Rightarrow> stream es' = stream es \<and> broken es' = broken es
    | Failed \<Rightarrow> stream es = [] \<and> broken es)"
  using assms
  by (induction n es rule: recv.induct) (auto split: if_splits recv_result.splits)

lemma read_loop_stream:
  assumes "length got \<le> n" "read_loop n got es = (st, bs, es')"
  shows "if n \<le> length got + length (stream es)
    then st = RF_Ok \<and> bs = got @ take (n - length got) (stream es) \<and> stream es' = drop (n - length got) (stream es)
      \<and> broken es' = broken es
    else st = (if broken es then RF_Error else RF_Closed) \<and> bs = got @ stream es"
  using assms
proof (induction n got es arbitrary: st bs es' rule: read_loop.induct)
  case (1 n got es)
  show ?case
  proof (cases "length got < n")
    case False
    then show ?thesis using 1(3,4) by (subst (asm) read_loop.simps) auto
  next
    case True
    then have n: "0 < n - length got" by simp
    obtain r es1 where r: "recv (n - length got) es = (r, es1)" by force
    note rs = recv_stream [OF r n]
    show ?thesis
    proof (cases r)
      case (Got ds)
      then have "read_loop n (got @ ds) es1 = (st, bs, es')"
        using 1(4) True r by (subst (asm) read_loop.simps) simp
      moreover have "length (got @ ds) \<le> n" using rs Got True by auto
      ultimately have "if n \<le> length (got @ ds) + length (stream es1)
        then st = RF_Ok \<and> bs = (got @ ds) @ take (n - length (got @ ds)) (stream es1)
          \<and> stream es' = drop (n - length (got @ ds)) (stream es1) \<and> broken es' = broken es1
        else st = (if broken es1 then RF_Error else RF_Closed) \<and> bs = (got @ ds) @ stream es1"
        using 1(1) [OF True r [symmetric] Got] by blast
      then show ?thesis using rs Got n by (auto split: if_splits)
    next
      case Interrupted
      then have "read_loop n got es1 = (st, bs, es')"
        using 1(4) True r by (subst (asm) read_loop.simps) simp
      from 1(2) [OF True r [symmetric] Interrupted 1(3) this] show ?thesis using rs Interrupted by simp
    qed (use 1(4) True r rs in \<open>subst (asm) read_loop.simps; simp\<close>)+
  qed
qed

text \<open>
  C29. How the network cuts a stream into pieces, and signals that interrupt a read,
  do not matter: \<open>read_full\<close> on any two connections that carry the same bytes gives the
  same status and the same bytes, and on success leaves the same bytes to be read. It
  succeeds exactly when enough bytes arrive before the end or an error.
\<close>

theorem read_full_pieces:
  assumes "stream es1 = stream es2" "broken es1 = broken es2"
    and "read_full n es1 = (st1, bs1, r1)" "read_full n es2 = (st2, bs2, r2)"
  shows "st1 = st2 \<and> bs1 = bs2 \<and> (st1 = RF_Ok \<longleftrightarrow> n \<le> length (stream es1)) \<and> (st1 = RF_Ok \<longrightarrow> stream r1 = stream r2)"
proof -
  have n: "length [] \<le> n" by simp
  note r = read_loop_stream [OF n assms(3) [unfolded read_full_def]] read_loop_stream [OF n assms(4) [unfolded read_full_def]]
  show ?thesis
  proof (cases "n \<le> length (stream es1)")
    case True
    then show ?thesis using r assms(1) by simp
  next
    case False
    then show ?thesis using r assms(1,2) by simp
  qed
qed

theorem read_full_pieces_witness:
  "fst (read_full 3 [Data [1], Eintr, Data [2, 3, 4]]) = fst (read_full 3 [Data [1, 2, 3, 4]])"
proof -
  obtain st1 bs1 r1 where r1: "read_full 3 [Data [1], Eintr, Data [2, 3, 4]] = (st1, bs1, r1)" by (metis prod.exhaust)
  obtain st2 bs2 r2 where r2: "read_full 3 [Data [1, 2, 3, 4]] = (st2, bs2, r2)" by (metis prod.exhaust)
  have "st1 = st2" using read_full_pieces [OF _ _ r1 r2] by simp
  then show ?thesis by (simp add: r1 r2)
qed

lemma read_full_ok:
  assumes "n \<le> length (stream es)"
  obtains es' where "read_full n es = (RF_Ok, take n (stream es), es')" "stream es' = drop n (stream es)" "broken es' = broken es"
proof -
  obtain st bs es' where r: "read_loop n [] es = (st, bs, es')" by (cases "read_loop n [] es") auto
  have "length [] \<le> n" by simp
  from read_loop_stream [OF this r] show thesis using that r assms by (auto simp: read_full_def)
qed

lemma read_full_short:
  assumes "length (stream es) < n"
  obtains st es' where "read_full n es = (st, stream es, es')" "st \<noteq> RF_Ok"
proof -
  obtain st bs es' where r: "read_loop n [] es = (st, bs, es')" by (cases "read_loop n [] es") auto
  have "length [] \<le> n" by simp
  from read_loop_stream [OF this r] show thesis using that r assms by (auto simp: read_full_def split: if_splits)
qed

lemma write_loop_ok:
  assumes "write_loop buf sent es = (ok, out, es')" "sent = take (length sent) buf"
  shows "(\<exists>j. out = take j buf) \<and> (ok \<longrightarrow> out = buf)"
  using assms
proof (induction buf sent es arbitrary: ok out es' rule: write_loop.induct)
  case (1 buf sent es)
  show ?case
  proof (cases "length sent < length buf")
    case False
    then have "out = sent" "ok" using 1(3) by (subst (asm) write_loop.simps; simp)+
    moreover have "sent = buf" using False 1(4) by (metis not_less take_all)
    ultimately show ?thesis by (auto intro: exI [of _ "length buf"])
  next
    case lt: True
    show ?thesis
    proof (cases es)
      case Nil
      then have "out = buf" using 1(3) lt by (subst (asm) write_loop.simps) simp
      then show ?thesis by (auto intro: exI [of _ "length buf"])
    next
      case (Cons e es1)
      show ?thesis
      proof (cases e)
        case (Sent k)
        have step: "sent @ take k (drop (length sent) buf) = take (length sent + k) buf"
          using 1(4) by (metis take_add)
        show ?thesis
        proof (cases "k = 0")
          case True
          then show ?thesis using 1(3,4) lt Cons Sent by (subst (asm) write_loop.simps) auto
        next
          case False
          have "write_loop buf (sent @ take k (drop (length sent) buf)) es1 = (ok, out, es')"
            using 1(3) lt Cons Sent False by (subst (asm) write_loop.simps) simp
          then show ?thesis using 1(1) [OF lt Cons Sent False] step by (simp add: min_def)
        qed
      next
        case Send_eintr
        have "write_loop buf sent es1 = (ok, out, es')" using 1(3) lt Cons Send_eintr by (subst (asm) write_loop.simps) simp
        then show ?thesis using 1(2) [OF lt Cons Send_eintr] 1(4) by simp
      next
        case Send_fail
        then show ?thesis using 1(3,4) lt Cons by (subst (asm) write_loop.simps) auto
      qed
    qed
  qed
qed

end
