(* ===== verification/Page_Server.thy ===== *)
theory Page_Server
  imports Net_Stream
begin

text \<open>
  The server of the remote page store
  (\<open>ECS251_Disaggregated_Memory/disaggregatedMemory/memsrv_page.c\<close>): regions of pages,
  kept as lists with the newest first, and the loop that serves one client.
  \<open>alloc_ok\<close> says whether \<open>calloc\<close> gives memory in a state of the server. The main
  program, which listens and accepts, has no state of its own: it serves one client
  after the other on the same regions.
\<close>

definition OP_ALLOC_REGION :: u32 where "OP_ALLOC_REGION = 1"
definition OP_READ_PAGE :: u32 where "OP_READ_PAGE = 2"
definition OP_WRITE_PAGE :: u32 where "OP_WRITE_PAGE = 3"
definition PAGE_SZ :: u32 where "PAGE_SZ = 4096"

lemmas op_defs = OP_ALLOC_REGION_def OP_READ_PAGE_def OP_WRITE_PAGE_def

abbreviation zeros :: "u8 list" where "zeros \<equiv> replicate (unat PAGE_SZ) 0"

record Region =
  reg_id :: u32
  reg_bytes :: u64
  reg_num_pages :: u32
  reg_pages :: "(u32 \<times> u8 list) list"

record server =
  g_regions :: "Region list"
  g_next_region :: u32

text \<open>A connection: what is going to be received, the answers of \<open>send\<close>, and what the peer got.\<close>

record conn =
  conn_in :: "recv_ev list"
  conn_send :: "send_ev list"
  conn_out :: "u8 list"

definition find_region :: "u32 \<Rightarrow> server \<Rightarrow> Region option" where
  "find_region i srv = find (\<lambda>r. reg_id r = i) (g_regions srv)"

definition find_page :: "Region \<Rightarrow> u32 \<Rightarrow> u8 list option" where
  "find_page r page_idx = map_of (reg_pages r) page_idx"

definition get_or_create_page :: "bool \<Rightarrow> Region \<Rightarrow> u32 \<Rightarrow> Region option" where
  "get_or_create_page calloc_ok r page_idx =
     (case find_page r page_idx of
        Some d \<Rightarrow> Some r
      | None \<Rightarrow> if calloc_ok then Some (r\<lparr>reg_pages := (page_idx, zeros) # reg_pages r\<rparr>) else None)"

text \<open>Writing through the pointer to a page of a region.\<close>

fun store_page :: "u32 \<Rightarrow> (u8 list \<Rightarrow> u8 list) \<Rightarrow> (u32 \<times> u8 list) list \<Rightarrow> (u32 \<times> u8 list) list" where
  "store_page i f [] = []"
| "store_page i f ((j, d) # ps) = (if i = j then (j, f d) # ps else (j, d) # store_page i f ps)"

fun store_region :: "Region \<Rightarrow> Region list \<Rightarrow> Region list" where
  "store_region r [] = []"
| "store_region r (x # xs) = (if reg_id x = reg_id r then r # xs else x # store_region r xs)"

definition send_bytes :: "u8 list \<Rightarrow> conn \<Rightarrow> conn" where
  "send_bytes buf c = (let (ok, out, es) = write_full buf (conn_send c) in
     c\<lparr>conn_send := es, conn_out := conn_out c @ out\<rparr>)"

definition send_hdr :: "u32 \<Rightarrow> u32 \<Rightarrow> u32 \<Rightarrow> u32 \<Rightarrow> conn \<Rightarrow> conn" where
  "send_hdr op region page len c = send_bytes (hdr_bytes \<lparr>hdr_op = op, hdr_region = region, hdr_page = page, hdr_len = len\<rparr>) c"

text \<open>Reading and dropping the payload of a request that is refused.\<close>

function drain :: "u32 \<Rightarrow> recv_ev list \<Rightarrow> recv_ev list" where
  "drain remain es =
     (if remain \<noteq> 0 then
        (let chunk = (if remain > 512 then 512 else remain) in
         case read_full (unat chunk) es of
           (RF_Ok, bs, es') \<Rightarrow> drain (remain - chunk) es'
         | (_, bs, es') \<Rightarrow> es')
      else es)"
  by auto
termination
proof (relation "measure (\<lambda>(remain, es). unat remain)")
  fix remain :: u32 and es chunk x y xa ya
  assume "remain \<noteq> 0" "chunk = (if remain > 512 then 512 else remain)"
  then have "0 < unat chunk" "unat chunk \<le> unat remain"
    by (auto simp: word_less_nat_alt unat_gt_0)
  then have "unat (remain - chunk) < unat remain" by (simp add: unat_sub word_le_nat_alt)
  then show "((remain - chunk, ya), remain, es) \<in> measure (\<lambda>(remain, es). unat remain)" by simp
qed simp

declare drain.simps [simp del]

definition drain_payload :: "u32 \<Rightarrow> u32 \<Rightarrow> conn \<Rightarrow> conn" where
  "drain_payload op len c = (if op = OP_WRITE_PAGE \<and> len > 0 then c\<lparr>conn_in := drain len (conn_in c)\<rparr> else c)"

definition alloc_region :: "bool \<Rightarrow> u32 \<Rightarrow> u32 \<Rightarrow> server \<times> conn \<Rightarrow> server \<times> conn" where
  "alloc_region calloc_ok op len c = (case c of (srv, c) \<Rightarrow>
     let bytes = (ucast len :: u64);
         bytes = (if bytes = 0 then ucast PAGE_SZ else bytes)
     in if \<not> calloc_ok then (srv, send_hdr op 0 0 0 c)
        else let reg = \<lparr>reg_id = g_next_region srv, reg_bytes = bytes,
                 reg_num_pages = ucast ((bytes + ucast PAGE_SZ - 1) div ucast PAGE_SZ), reg_pages = []\<rparr>;
                 srv = srv\<lparr>g_next_region := g_next_region srv + 1, g_regions := reg # g_regions srv\<rparr>
             in (srv, send_hdr OP_ALLOC_REGION (reg_id reg) 0 0 c))"

definition read_page :: "Region \<Rightarrow> u32 \<Rightarrow> u32 \<Rightarrow> u32 \<Rightarrow> conn \<Rightarrow> conn" where
  "read_page reg op page len c =
     (if len \<noteq> PAGE_SZ then send_hdr op 0 0 0 c
      else let c = send_hdr OP_READ_PAGE (reg_id reg) page PAGE_SZ c
           in send_bytes (case find_page reg page of Some d \<Rightarrow> d | None \<Rightarrow> zeros) c)"

text \<open>The first component says whether the loop goes on. What arrives of a page is stored as it is read.\<close>

definition write_page :: "bool \<Rightarrow> Region \<Rightarrow> u32 \<Rightarrow> u32 \<Rightarrow> u32 \<Rightarrow> server \<times> conn \<Rightarrow> bool \<times> server \<times> conn" where
  "write_page calloc_ok reg op page len c = (case c of (srv, c) \<Rightarrow>
     if len \<noteq> PAGE_SZ then
       (let c = send_hdr op 0 0 0 c in (True, srv, c\<lparr>conn_in := drain len (conn_in c)\<rparr>))
     else case get_or_create_page calloc_ok reg page of
       None \<Rightarrow> (True, srv, send_hdr op 0 0 0 c)
     | Some reg \<Rightarrow>
         let (st, bs, es) = read_full (unat PAGE_SZ) (conn_in c);
             reg = reg\<lparr>reg_pages := store_page page (\<lambda>d. bs @ drop (length bs) d) (reg_pages reg)\<rparr>;
             srv = srv\<lparr>g_regions := store_region reg (g_regions srv)\<rparr>;
             c = c\<lparr>conn_in := es\<rparr>
         in if st = RF_Ok then (True, srv, send_hdr OP_WRITE_PAGE (reg_id reg) page 0 c) else (False, srv, c))"

text \<open>What the loop does with a header that has arrived, and one round of the loop.\<close>

definition serve :: "(server \<Rightarrow> bool) \<Rightarrow> MsgHdr \<Rightarrow> server \<times> conn \<Rightarrow> bool \<times> server \<times> conn" where
  "serve alloc_ok net c = (case c of (srv, c) \<Rightarrow>
     let op = hdr_op net; region = hdr_region net; page = hdr_page net; len = hdr_len net
     in if op = OP_ALLOC_REGION then (True, alloc_region (alloc_ok srv) op len (srv, c))
        else case find_region region srv of
          None \<Rightarrow> (True, srv, drain_payload op len (send_hdr op 0 0 0 c))
        | Some reg \<Rightarrow>
            if page \<ge> reg_num_pages reg then (True, srv, drain_payload op len (send_hdr op 0 0 0 c))
            else if op = OP_READ_PAGE then (True, srv, read_page reg op page len c)
            else if op = OP_WRITE_PAGE then write_page (alloc_ok srv) reg op page len (srv, c)
            else (True, srv, send_hdr op 0 0 0 c))"

definition handle_request :: "(server \<Rightarrow> bool) \<Rightarrow> server \<times> conn \<Rightarrow> bool \<times> server \<times> conn" where
  "handle_request alloc_ok c = (case c of (srv, c) \<Rightarrow>
     let (st, bs, es) = read_full SIZEOF_MsgHdr (conn_in c);
         c = c\<lparr>conn_in := es\<rparr>
     in if st \<noteq> RF_Ok then (False, srv, c) else serve alloc_ok (parse_hdr bs) (srv, c))"

subsection \<open>The loop ends with its input\<close>

lemma recv_size_le: "recv n es = (r, es') \<Longrightarrow> in_size es' \<le> in_size es"
  by (induction n es rule: recv.induct) (auto simp: ev_size_def split: if_splits)

lemma read_loop_size:
  assumes "read_loop n got es = (st, bs, es')"
  shows "in_size es' \<le> in_size es \<and> (length got < n \<longrightarrow> st = RF_Ok \<longrightarrow> in_size es' < in_size es)"
  using assms
proof (induction n got es arbitrary: st bs es' rule: read_loop.induct)
  case (1 n got es)
  show ?case
  proof (cases "length got < n")
    case False
    then show ?thesis using 1(3) by (subst (asm) read_loop.simps) simp
  next
    case True
    obtain r es1 where r: "recv (n - length got) es = (r, es1)" by force
    have n: "0 < n - length got" using True by simp
    show ?thesis
    proof (cases r)
      case (Got ds)
      then have "read_loop n (got @ ds) es1 = (st, bs, es')" using 1(3) True r by (subst (asm) read_loop.simps) simp
      then show ?thesis using 1(1) [OF True r [symmetric] Got] recv_size [OF r n] Got by fastforce
    next
      case Interrupted
      then have "read_loop n got es1 = (st, bs, es')" using 1(3) True r by (subst (asm) read_loop.simps) simp
      then show ?thesis using 1(2) [OF True r [symmetric] Interrupted] recv_size [OF r n] Interrupted by fastforce
    next
      case Closed
      then have "st = RF_Closed" "es' = es1" using 1(3) True r by (subst (asm) read_loop.simps; simp)+
      then show ?thesis using recv_size_le [OF r] by simp
    next
      case Failed
      then have "st = RF_Error" "es' = es1" using 1(3) True r by (subst (asm) read_loop.simps; simp)+
      then show ?thesis using recv_size_le [OF r] by simp
    qed
  qed
qed

lemma read_full_size:
  "read_full n es = (st, bs, es') \<Longrightarrow> in_size es' \<le> in_size es"
  "read_full n es = (RF_Ok, bs, es') \<Longrightarrow> 0 < n \<Longrightarrow> in_size es' < in_size es"
  unfolding read_full_def using read_loop_size [of n "[]" es] by force+

lemma drain_size: "in_size (drain remain es) \<le> in_size es"
proof (induction remain es rule: drain.induct)
  case (1 remain es)
  define chunk where "chunk = (if remain > 512 then 512 else remain)"
  obtain st bs es' where r: "read_full (unat chunk) es = (st, bs, es')" by (cases "read_full (unat chunk) es") auto
  have "remain \<noteq> 0 \<Longrightarrow> drain remain es = (case st of RF_Ok \<Rightarrow> drain (remain - chunk) es' | _ \<Rightarrow> es')"
    using r by (subst drain.simps) (simp add: chunk_def [symmetric] Let_def split: read_status.splits)
  moreover have "remain \<noteq> 0 \<Longrightarrow> st = RF_Ok \<Longrightarrow> in_size (drain (remain - chunk) es') \<le> in_size es'"
    using 1(1) [OF _ chunk_def] r by simp
  ultimately show ?case using read_full_size(1) [OF r]
    by (cases "remain = 0"; cases st) (auto simp: drain.simps [of 0])
qed

lemma send_in [simp]: "conn_in (send_bytes b c) = conn_in c" "conn_in (send_hdr a r p l c) = conn_in c"
  by (simp_all add: send_bytes_def send_hdr_def Let_def split: prod.splits)

lemma handle_request_size:
  assumes "handle_request alloc_ok (srv, c) = (True, srv', c')"
  shows "in_size (conn_in c') < in_size (conn_in c)"
proof -
  obtain st bs es where r: "read_full SIZEOF_MsgHdr (conn_in c) = (st, bs, es)" by (cases "read_full SIZEOF_MsgHdr (conn_in c)") auto
  have ok: "st = RF_Ok" using assms r by (auto simp: handle_request_def Let_def split: if_splits)
  then have lt: "in_size es < in_size (conn_in c)" using read_full_size(2) [of SIZEOF_MsgHdr] r by (simp add: SIZEOF_MsgHdr_def)
  have d: "in_size (conn_in (drain_payload op len x)) \<le> in_size (conn_in x)" for op len x
    by (simp add: drain_payload_def drain_size)
  have w: "in_size (conn_in x') \<le> in_size (conn_in x)" if "write_page k reg op page len (srv, x) = (True, srv', x')" for k reg op page len x x'
    using that read_full_size(1) drain_size
    by (auto simp: write_page_def Let_def split: if_splits option.splits prod.splits)
  have "in_size (conn_in c') \<le> in_size es"
    using assms r ok d [of _ _ "send_hdr _ 0 0 0 (c\<lparr>conn_in := es\<rparr>)"] w [of _ _ _ _ _ "c\<lparr>conn_in := es\<rparr>"]
    by (auto simp: handle_request_def serve_def alloc_region_def read_page_def Let_def split: if_splits option.splits)
  then show ?thesis using lt by simp
qed

function handle_client :: "(server \<Rightarrow> bool) \<Rightarrow> server \<times> conn \<Rightarrow> server \<times> conn" where
  "handle_client alloc_ok c =
     (case handle_request alloc_ok c of (go, c') \<Rightarrow> if go then handle_client alloc_ok c' else c')"
  by auto
termination
  by (relation "measure (\<lambda>(alloc_ok, c). in_size (conn_in (snd c)))") (auto dest!: sym [of "(_, _)"] handle_request_size)

declare handle_client.simps [simp del]

subsection \<open>The contract of the store\<close>

text \<open>
  The store as a client sees it: the next region number, and for each region the number
  of its pages and their contents. A request is a header with the payload of a write.
\<close>

type_synonym store = "u32 \<times> (u32 \<Rightarrow> (u32 \<times> (u32 \<Rightarrow> u8 list)) option)"
type_synonym request = "MsgHdr \<times> u8 list"

definition err_reply :: "u32 \<Rightarrow> u8 list" where
  "err_reply op = hdr_bytes \<lparr>hdr_op = op, hdr_region = 0, hdr_page = 0, hdr_len = 0\<rparr>"

definition pages_for :: "u32 \<Rightarrow> u32" where
  "pages_for len = (if len = 0 then 1 else ucast ((4095 + ucast len :: u64) div 4096))"

definition spec_request :: "request \<Rightarrow> store \<Rightarrow> u8 list \<times> store" where
  "spec_request q m = (case (q, m) of ((h, payload), (nx, regs)) \<Rightarrow>
     if hdr_op h = OP_ALLOC_REGION
     then (hdr_bytes \<lparr>hdr_op = OP_ALLOC_REGION, hdr_region = nx, hdr_page = 0, hdr_len = 0\<rparr>,
           nx + 1, regs(nx \<mapsto> (pages_for (hdr_len h), \<lambda>_. zeros)))
     else case regs (hdr_region h) of
       None \<Rightarrow> (err_reply (hdr_op h), m)
     | Some (n, d) \<Rightarrow>
         if hdr_page h \<ge> n \<or> hdr_len h \<noteq> PAGE_SZ \<and> hdr_op h \<in> {OP_READ_PAGE, OP_WRITE_PAGE}
            \<or> hdr_op h \<notin> {OP_READ_PAGE, OP_WRITE_PAGE} then (err_reply (hdr_op h), m)
         else if hdr_op h = OP_READ_PAGE
         then (hdr_bytes \<lparr>hdr_op = OP_READ_PAGE, hdr_region = hdr_region h, hdr_page = hdr_page h, hdr_len = PAGE_SZ\<rparr>
                 @ d (hdr_page h), m)
         else (hdr_bytes \<lparr>hdr_op = OP_WRITE_PAGE, hdr_region = hdr_region h, hdr_page = hdr_page h, hdr_len = 0\<rparr>,
               nx, regs(hdr_region h \<mapsto> (n, d(hdr_page h := payload)))))"

fun spec_requests :: "request list \<Rightarrow> store \<Rightarrow> u8 list \<times> store" where
  "spec_requests [] m = ([], m)"
| "spec_requests (q # qs) m = (let (r, m) = spec_request q m; (rs, m) = spec_requests qs m in (r @ rs, m))"

definition request_bytes :: "request \<Rightarrow> u8 list" where
  "request_bytes q = hdr_bytes (fst q) @ snd q"

definition request_ok :: "request \<Rightarrow> bool" where
  "request_ok q \<longleftrightarrow> length (snd q) = (if hdr_op (fst q) = OP_WRITE_PAGE then unat (hdr_len (fst q)) else 0)"

definition page_data :: "Region \<Rightarrow> u32 \<Rightarrow> u8 list" where
  "page_data r i = (case find_page r i of Some d \<Rightarrow> d | None \<Rightarrow> zeros)"

definition store_of :: "server \<Rightarrow> store" where
  "store_of srv = (g_next_region srv, \<lambda>i. map_option (\<lambda>r. (reg_num_pages r, page_data r)) (find_region i srv))"

definition srv_ok :: "server \<Rightarrow> bool" where
  "srv_ok srv \<longleftrightarrow> (\<forall>r \<in> set (g_regions srv). \<forall>(i, d) \<in> set (reg_pages r). length d = unat PAGE_SZ)"

lemma write_full_all [simp]: "write_full buf [] = (True, buf, [])"
  unfolding write_full_def by (subst write_loop.simps) simp

lemma send_all [simp]:
  "conn_send c = [] \<Longrightarrow> send_bytes b c = c\<lparr>conn_out := conn_out c @ b\<rparr>"
  by (simp add: send_bytes_def)

lemma drain_all:
  assumes "unat remain \<le> length (stream es)"
  shows "stream (drain remain es) = drop (unat remain) (stream es) \<and> broken (drain remain es) = broken es"
  using assms
proof (induction remain es rule: drain.induct)
  case (1 remain es)
  show ?case
  proof (cases "remain = 0")
    case True
    then show ?thesis by (subst (1 2) drain.simps) simp
  next
    case False
    define chunk where "chunk = (if remain > 512 then 512 else remain)"
    have le: "unat chunk \<le> unat remain" by (auto simp: chunk_def word_less_nat_alt)
    have sub: "unat (remain - chunk) = unat remain - unat chunk" using le by (simp add: unat_sub word_le_nat_alt)
    have "unat chunk \<le> length (stream es)" using le 1(2) by simp
    then obtain es' where r: "read_full (unat chunk) es = (RF_Ok, take (unat chunk) (stream es), es')"
      "stream es' = drop (unat chunk) (stream es)" "broken es' = broken es" by (rule read_full_ok)
    have d: "drain remain es = drain (remain - chunk) es'"
      using False r(1) by (subst drain.simps) (simp add: chunk_def [symmetric] Let_def)
    have "unat (remain - chunk) \<le> length (stream es')" using 1(2) sub r(2) by simp
    then have "stream (drain (remain - chunk) es') = drop (unat (remain - chunk)) (stream es')
        \<and> broken (drain (remain - chunk) es') = broken es'"
      using 1(1) [OF False chunk_def] r(1) by simp
    then show ?thesis using d sub r(2,3) le by (simp add: add.commute)
  qed
qed

lemma map_of_store_page: "map_of (store_page i f ps) j = (if i = j then map_option f (map_of ps j) else map_of ps j)"
  by (induction ps) auto

lemma find_store_region:
  assumes "find (\<lambda>x. reg_id x = reg_id r) rs \<noteq> None"
  shows "find (\<lambda>x. reg_id x = i) (store_region r rs) = (if i = reg_id r then Some r else find (\<lambda>x. reg_id x = i) rs)"
  using assms by (induction rs) auto

lemma set_store_page:
  "(j, d) \<in> set (store_page i f ps) \<Longrightarrow> (j, d) \<in> set ps \<or> (\<exists>d'. d = f d' \<and> (j, d') \<in> set ps)"
proof (induction ps)
  case (Cons p ps)
  then show ?case by (cases p; cases "i = fst p") (simp, blast)+
qed simp

lemma set_store_region: "set (store_region r rs) \<subseteq> insert r (set rs)"
  by (induction rs) auto

text \<open>Storing a page of the right length into a region that exists.\<close>

lemma store_write:
  assumes ok: "srv_ok srv" and reg: "find_region i srv = Some reg" and len: "length payload = unat PAGE_SZ"
    and reg': "get_or_create_page True reg page = Some reg1"
  defines "reg2 \<equiv> reg1\<lparr>reg_pages := store_page page (\<lambda>d. payload @ drop (length payload) d) (reg_pages reg1)\<rparr>"
  defines "srv' \<equiv> srv\<lparr>g_regions := store_region reg2 (g_regions srv)\<rparr>"
  shows "reg_id reg2 = i" "srv_ok srv'"
    "store_of srv' = (g_next_region srv, (snd (store_of srv))(i \<mapsto> (reg_num_pages reg, (page_data reg)(page := payload))))"
proof -
  have in_srv: "reg \<in> set (g_regions srv)" "reg_id reg = i"
    using reg by (auto simp: find_region_def find_Some_iff)
  have same: "reg_id reg1 = reg_id reg" "reg_num_pages reg1 = reg_num_pages reg"
    and pages: "map_of (reg_pages reg1) = (map_of (reg_pages reg))(page \<mapsto> (case find_page reg page of Some d \<Rightarrow> d | None \<Rightarrow> zeros))"
    and set: "set (reg_pages reg1) \<subseteq> insert (page, zeros) (set (reg_pages reg))"
    using reg' by (auto simp: get_or_create_page_def find_page_def fun_eq_iff split: option.splits if_splits)
  have l1: "\<forall>(j, d) \<in> set (reg_pages reg1). length d = unat PAGE_SZ"
    using ok in_srv(1) set by (fastforce simp: srv_ok_def)
  then have l2: "\<forall>(j, d) \<in> set (reg_pages reg2). length d = unat PAGE_SZ"
    using len by (auto simp: reg2_def dest!: set_store_page)
  show id2: "reg_id reg2 = i" using same in_srv by (simp add: reg2_def)
  show "srv_ok srv'" using ok l2 set_store_region [of reg2 "g_regions srv"] by (auto simp: srv_ok_def srv'_def)
  have find: "find_region j srv' = (if j = i then Some reg2 else find_region j srv)" for j
    using find_store_region [of reg2 "g_regions srv" j] reg id2 by (auto simp: find_region_def srv'_def)
  have n2: "reg_num_pages reg2 = reg_num_pages reg" "g_next_region srv' = g_next_region srv"
    using same by (simp_all add: reg2_def srv'_def)
  have "\<exists>d. map_of (reg_pages reg1) page = Some d \<and> length d = unat PAGE_SZ"
  proof -
    obtain d where d: "map_of (reg_pages reg1) page = Some d" using pages by simp
    from map_of_SomeD [OF this] show ?thesis using l1 d by auto
  qed
  then have "page_data reg2 = (page_data reg)(page := payload)"
    using len pages by (auto simp: page_data_def find_page_def reg2_def map_of_store_page fun_eq_iff)
  then show "store_of srv' = (g_next_region srv, (snd (store_of srv))(i \<mapsto> (reg_num_pages reg, (page_data reg)(page := payload))))"
    using n2 by (auto simp: store_of_def find fun_eq_iff)
qed

lemma ucast_u32_0 [simp]: "(ucast (w :: u32) :: u64) = 0 \<longleftrightarrow> w = 0"
  by (simp add: word_unat_eq_iff unsigned_ucast_eq take_bit_eq_mod less_trans [OF unsigned_less])

lemma store_alloc:
  assumes "srv_ok srv"
  shows "alloc_region True op len (srv, c) = (srv', c') \<Longrightarrow> conn_send c = [] \<Longrightarrow> srv_ok srv'
    \<and> c' = c\<lparr>conn_out := conn_out c @ hdr_bytes \<lparr>hdr_op = OP_ALLOC_REGION, hdr_region = g_next_region srv, hdr_page = 0, hdr_len = 0\<rparr>\<rparr>
    \<and> store_of srv' = (g_next_region srv + 1, (snd (store_of srv))(g_next_region srv \<mapsto> (pages_for len, \<lambda>_. zeros)))"
  using assms
  by (auto simp: alloc_region_def Let_def srv_ok_def store_of_def find_region_def page_data_def find_page_def send_hdr_def
      fun_eq_iff pages_for_def PAGE_SZ_def split: if_splits)

text \<open>The result of serving a request is the one of the contract, and the input is at the next request.\<close>

definition answers :: "request \<Rightarrow> u8 list \<Rightarrow> server \<Rightarrow> u8 list \<Rightarrow> bool \<times> server \<times> conn \<Rightarrow> bool" where
  "answers q rest srv out r \<longleftrightarrow> (case r of (go, srv', c') \<Rightarrow>
     go \<and> stream (conn_in c') = rest \<and> conn_send c' = [] \<and> srv_ok srv'
     \<and> conn_out c' = out @ fst (spec_request q (store_of srv)) \<and> store_of srv' = snd (spec_request q (store_of srv)))"

lemma payload_empty: "request_ok (h, payload) \<Longrightarrow> hdr_op h \<noteq> OP_WRITE_PAGE \<Longrightarrow> payload = []"
  by (simp add: request_ok_def)

lemma send_err: "conn_send c = [] \<Longrightarrow> send_hdr op 0 0 0 c = c\<lparr>conn_out := conn_out c @ err_reply op\<rparr>"
  by (simp add: send_hdr_def err_reply_def)

lemma drain_request:
  assumes "request_ok (h, payload)" "stream (conn_in c) = payload @ rest" "hdr_op h = OP_WRITE_PAGE"
  shows "stream (drain (hdr_len h) (conn_in c)) = rest"
  using drain_all [of "hdr_len h" "conn_in c"] assms by (simp add: request_ok_def)

lemma drain_0 [simp]: "drain 0 es = es" by (subst drain.simps) simp

lemma drain_payload_ok:
  assumes "request_ok (h, payload)" "stream (conn_in c) = payload @ rest"
  shows "stream (conn_in (drain_payload (hdr_op h) (hdr_len h) c)) = rest"
proof (cases "hdr_op h = OP_WRITE_PAGE")
  case True
  then show ?thesis using drain_request [OF assms] assms
    by (cases "hdr_len h = 0") (auto simp: drain_payload_def word_gt_0)
next
  case False
  then show ?thesis using payload_empty [OF assms(1)] assms(2) by (simp add: drain_payload_def)
qed

lemma drain_payload_out [simp]:
  "conn_send (drain_payload op len c) = conn_send c" "conn_out (drain_payload op len c) = conn_out c"
  by (simp_all add: drain_payload_def)

lemma serve_refused:
  assumes "srv_ok srv" "request_ok (h, payload)" "stream (conn_in c) = payload @ rest" "conn_send c = []"
    and "hdr_op h \<noteq> OP_ALLOC_REGION"
    and "case find_region (hdr_region h) srv of None \<Rightarrow> True | Some reg \<Rightarrow> hdr_page h \<ge> reg_num_pages reg"
  shows "answers (h, payload) rest srv (conn_out c) (serve (\<lambda>_. True) h (srv, c))"
proof -
  have "serve (\<lambda>_. True) h (srv, c) = (True, srv, drain_payload (hdr_op h) (hdr_len h) (send_hdr (hdr_op h) 0 0 0 c))"
    using assms(5,6) by (cases "find_region (hdr_region h) srv") (simp_all add: serve_def Let_def)
  moreover have "fst (spec_request (h, payload) (store_of srv)) = err_reply (hdr_op h)"
    "snd (spec_request (h, payload) (store_of srv)) = store_of srv"
    using assms(5,6) by (cases "find_region (hdr_region h) srv"; simp add: spec_request_def store_of_def)+
  ultimately show ?thesis using assms drain_payload_ok [OF assms(2), of "send_hdr (hdr_op h) 0 0 0 c" rest]
    by (simp add: answers_def send_err)
qed

lemma serve_read:
  assumes "srv_ok srv" "request_ok (h, payload)" "stream (conn_in c) = payload @ rest" "conn_send c = []"
    and "hdr_op h = OP_READ_PAGE" "find_region (hdr_region h) srv = Some reg" "\<not> hdr_page h \<ge> reg_num_pages reg"
  shows "answers (h, payload) rest srv (conn_out c) (serve (\<lambda>_. True) h (srv, c))"
proof -
  have rid: "reg_id reg = hdr_region h" using assms(6) by (auto simp: find_region_def find_Some_iff)
  have "payload = []" using payload_empty [OF assms(2)] assms(5) by (simp add: op_defs)
  then show ?thesis using assms rid
    by (cases "hdr_len h = PAGE_SZ")
       (simp_all add: answers_def serve_def spec_request_def store_of_def read_page_def Let_def page_data_def send_hdr_def err_reply_def op_defs)
qed

lemma serve_write:
  assumes "srv_ok srv" "request_ok (h, payload)" "stream (conn_in c) = payload @ rest" "conn_send c = []"
    and "hdr_op h = OP_WRITE_PAGE" "find_region (hdr_region h) srv = Some reg" "\<not> hdr_page h \<ge> reg_num_pages reg"
  shows "answers (h, payload) rest srv (conn_out c) (serve (\<lambda>_. True) h (srv, c))"
proof (cases "hdr_len h = PAGE_SZ")
  case False
  then show ?thesis using assms drain_request [OF assms(2,3,5)]
    by (simp add: answers_def serve_def spec_request_def store_of_def write_page_def Let_def send_err op_defs)
next
  case len: True
  then have pl: "length payload = unat PAGE_SZ" using assms(2,5) by (simp add: request_ok_def)
  have "unat PAGE_SZ \<le> length (stream (conn_in c))" using pl assms(3) by simp
  then obtain es2 where r2: "read_full (unat PAGE_SZ) (conn_in c) = (RF_Ok, take (unat PAGE_SZ) (stream (conn_in c)), es2)"
    "stream es2 = drop (unat PAGE_SZ) (stream (conn_in c))" by (rule read_full_ok)
  then have r3: "read_full (unat PAGE_SZ) (conn_in c) = (RF_Ok, payload, es2)" "stream es2 = rest"
    using pl assms(3) by simp_all
  obtain reg1 where reg1: "get_or_create_page True reg (hdr_page h) = Some reg1"
    by (cases "find_page reg (hdr_page h)") (auto simp: get_or_create_page_def)
  note w = store_write [OF assms(1,6) pl reg1]
  have spec: "spec_request (h, payload) (store_of srv) =
    (hdr_bytes \<lparr>hdr_op = OP_WRITE_PAGE, hdr_region = hdr_region h, hdr_page = hdr_page h, hdr_len = 0\<rparr>,
     g_next_region srv, (snd (store_of srv))(hdr_region h \<mapsto> (reg_num_pages reg, (page_data reg)(hdr_page h := payload))))"
    using assms(5-7) len by (simp add: spec_request_def store_of_def op_defs)
  show ?thesis using assms(4-7) len reg1 r3 w
    by (simp add: answers_def spec serve_def write_page_def Let_def op_defs send_hdr_def del: fun_upd_apply)
qed

lemma serve_ok:
  assumes "srv_ok srv" "request_ok (h, payload)" "stream (conn_in c) = payload @ rest" "conn_send c = []"
  shows "answers (h, payload) rest srv (conn_out c) (serve (\<lambda>_. True) h (srv, c))"
proof (cases "hdr_op h = OP_ALLOC_REGION")
  case True
  obtain srv' c' where a: "alloc_region True (hdr_op h) (hdr_len h) (srv, c) = (srv', c')" by force
  have "payload = []" using payload_empty [OF assms(2)] True by (simp add: op_defs)
  then show ?thesis using store_alloc [OF assms(1) a assms(4)] a True assms(3,4)
    by (simp add: answers_def serve_def spec_request_def store_of_def del: fun_upd_apply)
next
  case na: False
  show ?thesis
  proof (cases "find_region (hdr_region h) srv")
    case None
    then show ?thesis using serve_refused [OF assms na] by simp
  next
    case (Some reg)
    show ?thesis
    proof (cases "hdr_page h \<ge> reg_num_pages reg")
      case True
      then show ?thesis using serve_refused [OF assms na] Some by simp
    next
      case False
      show ?thesis
      proof (cases "hdr_op h \<in> {OP_READ_PAGE, OP_WRITE_PAGE}")
        case True
        then show ?thesis using serve_read [OF assms _ Some False] serve_write [OF assms _ Some False] by blast
      next
        case other: False
        then have "payload = []" using payload_empty [OF assms(2)] by simp
        then show ?thesis using assms na Some False other
          by (simp add: answers_def serve_def spec_request_def store_of_def send_err)
      qed
    qed
  qed
qed

lemma handle_request_ok:
  assumes "srv_ok srv" "request_ok q" "stream (conn_in c) = request_bytes q @ rest" "conn_send c = []"
  shows "answers q rest srv (conn_out c) (handle_request (\<lambda>_. True) (srv, c))"
proof -
  obtain h payload where q: "q = (h, payload)" by force
  have "SIZEOF_MsgHdr \<le> length (stream (conn_in c))" by (simp add: assms(3) request_bytes_def)
  then obtain es where es: "read_full SIZEOF_MsgHdr (conn_in c) = (RF_Ok, take SIZEOF_MsgHdr (stream (conn_in c)), es)"
    "stream es = drop SIZEOF_MsgHdr (stream (conn_in c))" by (rule read_full_ok)
  have rd: "read_full SIZEOF_MsgHdr (conn_in c) = (RF_Ok, hdr_bytes h, es)" "stream es = payload @ rest"
    using es by (simp_all add: assms(3) request_bytes_def q)
  have "parse_hdr (hdr_bytes h) = h" using parse_hdr_bytes [of h "[]"] by simp
  then show ?thesis using serve_ok [of srv h payload "c\<lparr>conn_in := es\<rparr>" rest] assms rd
    by (simp add: q handle_request_def)
qed

lemma handle_requests_ok:
  assumes "srv_ok srv" "list_all request_ok qs" "stream (conn_in c) = concat (map request_bytes qs)" "conn_send c = []"
    and "handle_client (\<lambda>_. True) (srv, c) = (srv', c')"
  shows "conn_out c' = conn_out c @ fst (spec_requests qs (store_of srv))
    \<and> store_of srv' = snd (spec_requests qs (store_of srv)) \<and> srv_ok srv'"
  using assms
proof (induction qs arbitrary: srv c)
  case Nil
  have "length (stream (conn_in c)) < SIZEOF_MsgHdr" using Nil.prems(3) by (simp add: SIZEOF_MsgHdr_def)
  then obtain st es where "read_full SIZEOF_MsgHdr (conn_in c) = (st, stream (conn_in c), es)" "st \<noteq> RF_Ok"
    by (rule read_full_short)
  then have "handle_client (\<lambda>_. True) (srv, c) = (srv, c\<lparr>conn_in := es\<rparr>)"
    by (subst handle_client.simps) (simp add: handle_request_def)
  then show ?case using Nil.prems by auto
next
  case (Cons q qs)
  obtain go srv1 c1 where 1: "handle_request (\<lambda>_. True) (srv, c) = (go, srv1, c1)" by (metis prod.exhaust)
  note a = handle_request_ok [of srv q c "concat (map request_bytes qs)", unfolded 1 answers_def prod.case]
  then have next1: "go" "stream (conn_in c1) = concat (map request_bytes qs)" "conn_send c1 = []" "srv_ok srv1"
    "conn_out c1 = conn_out c @ fst (spec_request q (store_of srv))" "store_of srv1 = snd (spec_request q (store_of srv))"
    using Cons.prems by simp_all
  have "handle_client (\<lambda>_. True) (srv1, c1) = (srv', c')"
    using Cons.prems(5) 1 next1(1) by (subst (asm) handle_client.simps) simp
  from Cons.IH [OF next1(4) _ next1(2,3) this] show ?case using Cons.prems(2) next1(5,6)
    by (simp add: Let_def split: prod.splits)
qed

text \<open>
  C21. The server implements the contract: for a client that sends well-formed requests,
  however the network cuts them into pieces, and as long as memory lasts, the bytes that
  the client gets back are the replies of the contract in the order of the requests, and
  the regions that are left for the next client are the ones of the contract.
\<close>

theorem server_refines:
  assumes "srv_ok srv" "list_all request_ok qs" "stream (conn_in c) = concat (map request_bytes qs)" "conn_send c = []"
    and "handle_client (\<lambda>_. True) (srv, c) = (srv', c')"
  shows "conn_out c' = conn_out c @ fst (spec_requests qs (store_of srv))
    \<and> store_of srv' = snd (spec_requests qs (store_of srv)) \<and> srv_ok srv'"
  using assms by (rule handle_requests_ok)

definition sample_requests :: "request list" where
  "sample_requests =
     [(\<lparr>hdr_op = OP_ALLOC_REGION, hdr_region = 0, hdr_page = 0, hdr_len = 8192\<rparr>, []),
      (\<lparr>hdr_op = OP_READ_PAGE, hdr_region = 1, hdr_page = 2, hdr_len = 4096\<rparr>, [])]"

definition sample_server :: server where "sample_server = \<lparr>g_regions = [], g_next_region = 1\<rparr>"

definition sample_conn :: conn where
  "sample_conn = \<lparr>conn_in = [Data (concat (map request_bytes sample_requests))], conn_send = [], conn_out = []\<rparr>"

theorem server_refines_witness:
  "\<exists>srv' c'. handle_client (\<lambda>_. True) (sample_server, sample_conn) = (srv', c')
     \<and> conn_out c' = hdr_bytes \<lparr>hdr_op = OP_ALLOC_REGION, hdr_region = 1, hdr_page = 0, hdr_len = 0\<rparr> @ err_reply OP_READ_PAGE"
proof -
  obtain srv' c' where r: "handle_client (\<lambda>_. True) (sample_server, sample_conn) = (srv', c')" by force
  have "conn_out c' = fst (spec_requests sample_requests (store_of sample_server))"
    using server_refines [OF _ _ _ _ r, of sample_requests]
    by (simp add: sample_server_def sample_conn_def sample_requests_def srv_ok_def request_ok_def op_defs)
  then show ?thesis using r
    by (simp add: sample_server_def sample_requests_def spec_request_def store_of_def op_defs pages_for_def find_region_def)
qed

end
