(* ===== verification/Netmem.thy ===== *)
theory Netmem
  imports Page_Server
begin

text \<open>
  The client of the remote page store
  (\<open>ECS251_Disaggregated_Memory/disaggregatedMemory/netmem_page.c\<close>) and its composition
  with the server over a pair of connections. A descriptor is an integer, as in the
  source; the connection it stands for is passed beside the record \<open>netmem_t\<close>. The result
  of a call is True when the source returns 0.
\<close>

definition NETMEM_PAGE_SZ :: u64 where "NETMEM_PAGE_SZ = 4096"

record netmem_t =
  fd :: int
  region_id :: u32
  region_bytes :: u64
  num_pages :: u32

text \<open>The answers of \<open>socket\<close>, \<open>inet_pton\<close> and \<open>connect\<close> are arguments.\<close>

definition netmem_connect :: "int \<Rightarrow> int \<Rightarrow> int \<Rightarrow> bool \<times> netmem_t" where
  "netmem_connect sock pton con =
     (let nm = \<lparr>fd = sock, region_id = 0, region_bytes = 0, num_pages = 0\<rparr>
      in if sock < 0 then (False, nm) else if pton \<noteq> 1 then (False, nm) else if con < 0 then (False, nm) else (True, nm))"

text \<open>Writing a buffer and reading a header, both of which may fail.\<close>

definition put :: "u8 list \<Rightarrow> conn \<Rightarrow> bool \<times> conn" where
  "put buf c = (let (ok, out, es) = write_full buf (conn_send c) in (ok, c\<lparr>conn_send := es, conn_out := conn_out c @ out\<rparr>))"

definition get :: "nat \<Rightarrow> conn \<Rightarrow> u8 list option \<times> conn" where
  "get n c = (let (st, bs, es) = read_full n (conn_in c) in (if st = RF_Ok then Some bs else None, c\<lparr>conn_in := es\<rparr>))"

definition netmem_alloc_region :: "u64 \<Rightarrow> netmem_t \<times> conn \<Rightarrow> bool \<times> netmem_t \<times> conn" where
  "netmem_alloc_region bytes c = (case c of (nm, c) \<Rightarrow>
     let bytes = (if bytes = 0 then NETMEM_PAGE_SZ else bytes)
     in if bytes > 0xFFFFFFFF then (False, nm, c)
        else let (ok, c) = put (hdr_bytes \<lparr>hdr_op = OP_ALLOC_REGION, hdr_region = 0, hdr_page = 0, hdr_len = ucast bytes\<rparr>) c
        in if \<not> ok then (False, nm, c)
        else let (r, c) = get SIZEOF_MsgHdr c
        in case r of
             None \<Rightarrow> (False, nm, c)
           | Some bs \<Rightarrow>
               let rep = parse_hdr bs; op = hdr_op rep; rid = hdr_region rep
               in if op \<noteq> OP_ALLOC_REGION \<or> rid = 0 then (False, nm, c)
                  else (True, nm\<lparr>region_id := rid, region_bytes := bytes,
                          num_pages := ucast ((bytes + NETMEM_PAGE_SZ - 1) div NETMEM_PAGE_SZ)\<rparr>, c))"

text \<open>The second component is what is stored in the caller's buffer.\<close>

definition netmem_read_page :: "netmem_t \<Rightarrow> u32 \<Rightarrow> conn \<Rightarrow> u8 list option \<times> conn" where
  "netmem_read_page nm page_idx c =
     (if fd nm \<le> 0 \<or> region_id nm = 0 then (None, c)
      else if page_idx \<ge> num_pages nm then (None, c)
      else let (ok, c) = put (hdr_bytes \<lparr>hdr_op = OP_READ_PAGE, hdr_region = region_id nm, hdr_page = page_idx,
                                hdr_len = ucast NETMEM_PAGE_SZ\<rparr>) c
      in if \<not> ok then (None, c)
      else let (r, c) = get SIZEOF_MsgHdr c
      in case r of
           None \<Rightarrow> (None, c)
         | Some bs \<Rightarrow>
             let rep = parse_hdr bs; op = hdr_op rep; rid = hdr_region rep; pg = hdr_page rep; len = hdr_len rep
             in if op \<noteq> OP_READ_PAGE \<or> rid \<noteq> region_id nm \<or> pg \<noteq> page_idx \<or> len \<noteq> ucast NETMEM_PAGE_SZ then (None, c)
                else get (unat NETMEM_PAGE_SZ) c)"

definition netmem_write_page :: "netmem_t \<Rightarrow> u32 \<Rightarrow> u8 list \<Rightarrow> conn \<Rightarrow> bool \<times> conn" where
  "netmem_write_page nm page_idx data c =
     (if fd nm \<le> 0 \<or> region_id nm = 0 then (False, c)
      else if page_idx \<ge> num_pages nm then (False, c)
      else let (ok, c) = put (hdr_bytes \<lparr>hdr_op = OP_WRITE_PAGE, hdr_region = region_id nm, hdr_page = page_idx,
                                hdr_len = ucast NETMEM_PAGE_SZ\<rparr>) c
      in if \<not> ok then (False, c)
      else let (ok, c) = put data c
      in if \<not> ok then (False, c)
      else let (r, c) = get SIZEOF_MsgHdr c
      in case r of
           None \<Rightarrow> (False, c)
         | Some bs \<Rightarrow>
             let rep = parse_hdr bs; op = hdr_op rep; rid = hdr_region rep; pg = hdr_page rep
             in (op = OP_WRITE_PAGE \<and> rid = region_id nm \<and> pg = page_idx, c))"

text \<open>Whether the descriptor is closed, and the record after that.\<close>

definition netmem_close :: "netmem_t \<Rightarrow> bool \<times> netmem_t" where
  "netmem_close nm = (fd nm > 0, nm\<lparr>fd := -1, region_id := 0\<rparr>)"

subsection \<open>A session of a client\<close>

text \<open>
  A program that uses one region: a sequence of page reads and writes, with their
  results. The contract is an array of pages.
\<close>

datatype page_op = Rd u32 | Wr u32 "u8 list"
datatype page_res = Page "u8 list option" | Done bool

fun session :: "netmem_t \<Rightarrow> page_op list \<Rightarrow> conn \<Rightarrow> page_res list \<times> conn" where
  "session nm [] c = ([], c)"
| "session nm (Rd i # ps) c = (let (d, c) = netmem_read_page nm i c; (rs, c) = session nm ps c in (Page d # rs, c))"
| "session nm (Wr i d # ps) c = (let (ok, c) = netmem_write_page nm i d c; (rs, c) = session nm ps c in (Done ok # rs, c))"

fun array_session :: "u32 \<Rightarrow> page_op list \<Rightarrow> (u32 \<Rightarrow> u8 list) \<Rightarrow> page_res list \<times> (u32 \<Rightarrow> u8 list)" where
  "array_session n [] m = ([], m)"
| "array_session n (Rd i # ps) m = (let (rs, m') = array_session n ps m in (Page (if i < n then Some (m i) else None) # rs, m'))"
| "array_session n (Wr i d # ps) m =
     (let (rs, m') = array_session n ps (if i < n then m(i := d) else m) in (Done (i < n) # rs, m'))"

definition op_ok :: "page_op \<Rightarrow> bool" where
  "op_ok p = (case p of Rd i \<Rightarrow> True | Wr i d \<Rightarrow> length d = unat NETMEM_PAGE_SZ)"

definition op_page :: "page_op \<Rightarrow> u32" where
  "op_page p = (case p of Rd i \<Rightarrow> i | Wr i d \<Rightarrow> i)"

text \<open>The request that a call sends; a call with a page out of range sends nothing.\<close>

definition op_request :: "netmem_t \<Rightarrow> page_op \<Rightarrow> request" where
  "op_request nm p = (case p of
     Rd i \<Rightarrow> (\<lparr>hdr_op = OP_READ_PAGE, hdr_region = region_id nm, hdr_page = i, hdr_len = PAGE_SZ\<rparr>, [])
   | Wr i d \<Rightarrow> (\<lparr>hdr_op = OP_WRITE_PAGE, hdr_region = region_id nm, hdr_page = i, hdr_len = PAGE_SZ\<rparr>, d))"

definition op_requests :: "netmem_t \<Rightarrow> page_op list \<Rightarrow> request list" where
  "op_requests nm ps = map (op_request nm) (filter (\<lambda>p. op_page p < num_pages nm) ps)"

definition nm_ok :: "netmem_t \<Rightarrow> bool" where
  "nm_ok nm \<longleftrightarrow> fd nm > 0 \<and> region_id nm \<noteq> 0"

lemma page_sz [simp]: "ucast NETMEM_PAGE_SZ = PAGE_SZ" "unat NETMEM_PAGE_SZ = unat PAGE_SZ"
  by (simp_all add: NETMEM_PAGE_SZ_def PAGE_SZ_def)

lemma put_all [simp]: "conn_send c = [] \<Longrightarrow> put b c = (True, c\<lparr>conn_out := conn_out c @ b\<rparr>)"
  by (simp add: put_def)

lemma get_frame: "get n c = (r, c') \<Longrightarrow> conn_send c' = conn_send c \<and> conn_out c' = conn_out c"
  by (auto simp: get_def split: prod.splits)

lemma get_ok:
  assumes "stream (conn_in c) = bs @ rest"
  obtains es where "get (length bs) c = (Some bs, c\<lparr>conn_in := es\<rparr>)" "stream es = rest"
proof -
  have "length bs \<le> length (stream (conn_in c))" using assms by simp
  then obtain es where "read_full (length bs) (conn_in c) = (RF_Ok, take (length bs) (stream (conn_in c)), es)"
    "stream es = drop (length bs) (stream (conn_in c))" by (rule read_full_ok)
  then show thesis using assms by (intro that [of es]) (simp_all add: get_def)
qed

lemma read_page_out:
  assumes "conn_send c = []" "nm_ok nm" "netmem_read_page nm i c = (d, c')"
  shows "conn_send c' = [] \<and> conn_out c' = conn_out c @ concat (map request_bytes (op_requests nm [Rd i]))"
  using assms
  by (simp add: netmem_read_page_def nm_ok_def op_requests_def op_request_def op_page_def request_bytes_def Let_def not_le)
     (auto simp: Let_def dest!: get_frame split: prod.splits option.splits if_splits)

lemma write_page_out:
  assumes "conn_send c = []" "nm_ok nm" "netmem_write_page nm i data c = (ok, c')"
  shows "conn_send c' = [] \<and> conn_out c' = conn_out c @ concat (map request_bytes (op_requests nm [Wr i data]))"
  using assms
  by (simp add: netmem_write_page_def nm_ok_def op_requests_def op_request_def op_page_def request_bytes_def Let_def not_le)
     (auto simp: Let_def dest!: get_frame split: prod.splits option.splits if_splits)

lemma op_requests_Cons: "op_requests nm (p # ps) = op_requests nm [p] @ op_requests nm ps"
  by (simp add: op_requests_def)

lemma session_Cons:
  "session nm (p # ps) c = (let (r, c) = session nm [p] c; (rs, c) = session nm ps c in (r @ rs, c))"
  by (cases p) (simp_all add: split_beta Let_def)

text \<open>What a client sends does not depend on what it receives.\<close>

lemma session_out:
  assumes "conn_send c = []" "nm_ok nm" "session nm ps c = (rs, c')"
  shows "conn_send c' = [] \<and> conn_out c' = conn_out c @ concat (map request_bytes (op_requests nm ps))"
  using assms
proof (induction ps arbitrary: c rs)
  case Nil
  then show ?case by (simp add: op_requests_def)
next
  case (Cons p ps)
  obtain rs1 c1 where 1: "session nm [p] c = (rs1, c1)" by force
  have c1: "conn_send c1 = []" "conn_out c1 = conn_out c @ concat (map request_bytes (op_requests nm [p]))"
    using 1 read_page_out [OF Cons.prems(1,2)] write_page_out [OF Cons.prems(1,2)]
    by (cases p; simp split: prod.splits)+
  obtain rs2 where 2: "session nm ps c1 = (rs2, c')"
    using Cons.prems(3) 1 by (subst (asm) session_Cons) (auto split: prod.splits)
  from Cons.IH [OF c1(1) Cons.prems(2) 2] c1(2) show ?case by (subst op_requests_Cons) simp
qed

subsection \<open>The client against the contract\<close>

lemma read_page_in:
  assumes "conn_send c = []" "nm_ok nm" "i < num_pages nm" "length d = unat PAGE_SZ"
    and "stream (conn_in c) = hdr_bytes \<lparr>hdr_op = OP_READ_PAGE, hdr_region = region_id nm, hdr_page = i, hdr_len = PAGE_SZ\<rparr> @ d @ rest"
  shows "\<exists>c'. netmem_read_page nm i c = (Some d, c') \<and> stream (conn_in c') = rest"
proof -
  let ?h = "\<lparr>hdr_op = OP_READ_PAGE, hdr_region = region_id nm, hdr_page = i, hdr_len = PAGE_SZ\<rparr>"
  let ?c = "c\<lparr>conn_out := conn_out c @ hdr_bytes ?h\<rparr>"
  have "stream (conn_in ?c) = hdr_bytes ?h @ d @ rest" using assms(5) by simp
  then obtain es where g1: "get SIZEOF_MsgHdr ?c = (Some (hdr_bytes ?h), ?c\<lparr>conn_in := es\<rparr>)" "stream es = d @ rest"
    using get_ok [of ?c "hdr_bytes ?h" "d @ rest"] by auto
  have "stream (conn_in (?c\<lparr>conn_in := es\<rparr>)) = d @ rest" using g1(2) by simp
  then obtain es' where g2: "get (unat PAGE_SZ) (?c\<lparr>conn_in := es\<rparr>) = (Some d, ?c\<lparr>conn_in := es\<rparr>\<lparr>conn_in := es'\<rparr>)" "stream es' = rest"
    using get_ok [of "?c\<lparr>conn_in := es\<rparr>" d rest] assms(4) by auto
  have "parse_hdr (hdr_bytes ?h) = ?h" using parse_hdr_bytes [of ?h "[]"] by simp
  then show ?thesis using assms(1-3) g1(1) g2 by (simp add: netmem_read_page_def nm_ok_def Let_def not_le)
qed

lemma write_page_in:
  assumes "conn_send c = []" "nm_ok nm" "i < num_pages nm"
    and "stream (conn_in c) = hdr_bytes \<lparr>hdr_op = OP_WRITE_PAGE, hdr_region = region_id nm, hdr_page = i, hdr_len = 0\<rparr> @ rest"
  shows "\<exists>c'. netmem_write_page nm i d c = (True, c') \<and> stream (conn_in c') = rest"
proof -
  let ?h = "\<lparr>hdr_op = OP_WRITE_PAGE, hdr_region = region_id nm, hdr_page = i, hdr_len = 0\<rparr>"
  let ?c = "c\<lparr>conn_out := conn_out c @ hdr_bytes (?h\<lparr>hdr_len := PAGE_SZ\<rparr>) @ d\<rparr>"
  have "stream (conn_in ?c) = hdr_bytes ?h @ rest" using assms(4) by simp
  then obtain es where g1: "get SIZEOF_MsgHdr ?c = (Some (hdr_bytes ?h), ?c\<lparr>conn_in := es\<rparr>)" "stream es = rest"
    using get_ok [of ?c "hdr_bytes ?h" rest] by auto
  have "parse_hdr (hdr_bytes ?h) = ?h" using parse_hdr_bytes [of ?h "[]"] by simp
  then show ?thesis using assms(1-3) g1 by (simp add: netmem_write_page_def nm_ok_def Let_def not_le)
qed

text \<open>The region of a client in the contract: its number of pages and their contents.\<close>

definition holds_region :: "netmem_t \<Rightarrow> (u32 \<Rightarrow> u8 list) \<Rightarrow> store \<Rightarrow> bool" where
  "holds_region nm m st \<longleftrightarrow> snd st (region_id nm) = Some (num_pages nm, m) \<and> (\<forall>i. length (m i) = unat PAGE_SZ)"

lemma session_in:
  assumes "conn_send c = []" "nm_ok nm" "list_all op_ok ps" "holds_region nm m st"
    and "stream (conn_in c) = fst (spec_requests (op_requests nm ps) st) @ rest"
  shows "fst (session nm ps c) = fst (array_session (num_pages nm) ps m)
    \<and> holds_region nm (snd (array_session (num_pages nm) ps m)) (snd (spec_requests (op_requests nm ps) st))"
  using assms
proof (induction ps arbitrary: c m st)
  case Nil
  then show ?case by (simp add: op_requests_def)
next
  case (Cons p ps)
  show ?case
  proof (cases p)
    case (Rd i)
    show ?thesis
    proof (cases "i < num_pages nm")
      case True
      have "spec_requests (op_requests nm (p # ps)) st =
          (let (rs, s) = spec_requests (op_requests nm ps) st in
           (hdr_bytes \<lparr>hdr_op = OP_READ_PAGE, hdr_region = region_id nm, hdr_page = i, hdr_len = PAGE_SZ\<rparr> @ m i @ rs, s))"
        using True True [folded not_le] Cons.prems(4) Rd
        by (cases st) (simp add: op_requests_def op_page_def op_request_def spec_request_def holds_region_def op_defs split_beta)
      then obtain c1 where c1: "netmem_read_page nm i c = (Some (m i), c1)"
          "stream (conn_in c1) = fst (spec_requests (op_requests nm ps) st) @ rest"
          "snd (spec_requests (op_requests nm (p # ps)) st) = snd (spec_requests (op_requests nm ps) st)"
        using read_page_in [OF Cons.prems(1,2) True, of "m i"] Cons.prems(4,5) by (auto simp: holds_region_def split_beta)
      have "conn_send c1 = []" using read_page_out [OF Cons.prems(1,2) c1(1)] by simp
      from Cons.IH [OF this Cons.prems(2) _ Cons.prems(4) c1(2)] show ?thesis
        using Cons.prems(3) Rd True c1 by (simp add: split_beta)
    next
      case False
      have "netmem_read_page nm i c = (None, c)" "op_requests nm (p # ps) = op_requests nm ps"
        using Rd False False [unfolded not_less] by (simp_all add: netmem_read_page_def op_requests_def op_page_def)
      then show ?thesis using Cons.IH [OF Cons.prems(1,2) _ Cons.prems(4)] Cons.prems(3,5) Rd False by (simp add: split_beta)
    qed
  next
    case (Wr i d)
    show ?thesis
    proof (cases "i < num_pages nm")
      case True
      obtain nx regs where st: "st = (nx, regs)" by force
      define st' where "st' = (nx, regs(region_id nm \<mapsto> (num_pages nm, m(i := d))))"
      have "spec_requests (op_requests nm (p # ps)) st =
          (let (rs, s) = spec_requests (op_requests nm ps) st' in
           (hdr_bytes \<lparr>hdr_op = OP_WRITE_PAGE, hdr_region = region_id nm, hdr_page = i, hdr_len = 0\<rparr> @ rs, s))"
        using True True [folded not_le] Cons.prems(4) Wr
        by (simp add: st st'_def op_requests_def op_page_def op_request_def spec_request_def holds_region_def op_defs split_beta)
      then obtain c1 where c1: "netmem_write_page nm i d c = (True, c1)"
          "stream (conn_in c1) = fst (spec_requests (op_requests nm ps) st') @ rest"
          "snd (spec_requests (op_requests nm (p # ps)) st) = snd (spec_requests (op_requests nm ps) st')"
        using write_page_in [OF Cons.prems(1,2) True, of _ d] Cons.prems(5) by (auto simp: split_beta)
      have "conn_send c1 = []" using write_page_out [OF Cons.prems(1,2) c1(1)] by simp
      moreover have "holds_region nm (m(i := d)) st'"
        using Cons.prems(3,4) Wr by (simp add: holds_region_def st'_def op_ok_def)
      ultimately show ?thesis using Cons.IH [OF _ Cons.prems(2) _ _ c1(2)] Cons.prems(3) Wr True c1 by (simp add: split_beta)
    next
      case False
      have "netmem_write_page nm i d c = (False, c)" "op_requests nm (p # ps) = op_requests nm ps"
        using Wr False False [unfolded not_less] by (simp_all add: netmem_write_page_def op_requests_def op_page_def)
      then show ?thesis using Cons.IH [OF Cons.prems(1,2) _ Cons.prems(4)] Cons.prems(3,5) Wr False by (simp add: split_beta)
    qed
  qed
qed

text \<open>Client and server agree on the number of pages of a new region.\<close>

lemma alloc_agrees:
  assumes "netmem_alloc_region bytes (nm, c) = (True, nm', c')"
  shows "num_pages nm' = pages_for (ucast bytes)"
proof (cases "bytes = 0")
  case True
  then show ?thesis using assms
    by (auto simp: netmem_alloc_region_def Let_def NETMEM_PAGE_SZ_def pages_for_def split: prod.splits if_splits option.splits)
next
  case False
  have le: "\<not> bytes > 0xFFFFFFFF" using assms False by (auto simp: netmem_alloc_region_def Let_def split: if_splits)
  then have "unat bytes < 2 ^ 32" by (simp add: word_less_nat_alt)
  then have u: "ucast (ucast bytes :: u32) = bytes" "(ucast bytes :: u32) \<noteq> 0"
    using False by (auto simp: word_unat_eq_iff unsigned_ucast_eq take_bit_eq_mod unat_mod)
  have "num_pages nm' = ucast ((bytes + NETMEM_PAGE_SZ - 1) div NETMEM_PAGE_SZ)"
    using assms False le by (auto simp: netmem_alloc_region_def Let_def split: prod.splits if_splits option.splits)
  then show ?thesis using u by (simp add: pages_for_def NETMEM_PAGE_SZ_def)
qed

lemma requests_ok: "list_all op_ok ps \<Longrightarrow> list_all request_ok (op_requests nm ps)"
  by (auto simp: op_requests_def list_all_iff op_request_def request_ok_def op_ok_def op_defs split: page_op.splits)

lemma region_pages: "srv_ok srv \<Longrightarrow> find_region i srv = Some reg \<Longrightarrow> length (page_data reg j) = unat PAGE_SZ"
  by (fastforce simp: srv_ok_def find_region_def find_Some_iff page_data_def find_page_def split: option.splits
      dest: map_of_SomeD nth_mem)

text \<open>
  C13. Client and server together are an array of pages: when each end of a connection
  receives the bytes that the other end sent, cut and interrupted in any way, every read
  and write of a session returns what it returns on the array of the pages of the region
  (a page read is the last page written, a page out of range is refused), and the server
  ends with the pages of that array.
\<close>

theorem remote_pages:
  assumes "nm_ok nm" "srv_ok srv" "find_region (region_id nm) srv = Some reg" "reg_num_pages reg = num_pages nm"
    and "list_all op_ok ps" "conn_send c = []" "conn_out c = []" "conn_send sc = []" "conn_out sc = []"
    and "session nm ps c = (rs, c')" "handle_client (\<lambda>_. True) (srv, sc) = (srv', sc')"
    and "stream (conn_in sc) = conn_out c'" "stream (conn_in c) = conn_out sc'"
  shows "rs = fst (array_session (num_pages nm) ps (page_data reg))
    \<and> (\<exists>reg'. find_region (region_id nm) srv' = Some reg' \<and> reg_num_pages reg' = num_pages nm
         \<and> page_data reg' = snd (array_session (num_pages nm) ps (page_data reg)))"
proof -
  have "conn_out c' = concat (map request_bytes (op_requests nm ps))"
    using session_out [OF assms(6,1,10)] assms(7) by simp
  then have sv: "conn_out sc' = fst (spec_requests (op_requests nm ps) (store_of srv))"
    "store_of srv' = snd (spec_requests (op_requests nm ps) (store_of srv))"
    using handle_requests_ok [OF assms(2) requests_ok [OF assms(5)] _ assms(8,11)] assms(9,12) by simp_all
  have "holds_region nm (page_data reg) (store_of srv)"
    using assms(3,4) region_pages [OF assms(2,3)] by (simp add: holds_region_def store_of_def)
  from session_in [OF assms(6,1,5) this, of "[]"]
  have r: "rs = fst (array_session (num_pages nm) ps (page_data reg))"
    and "holds_region nm (snd (array_session (num_pages nm) ps (page_data reg))) (store_of srv')"
    using assms(10,13) sv by simp_all
  then show ?thesis by (auto simp: holds_region_def store_of_def)
qed

definition sample_nm :: netmem_t where "sample_nm = \<lparr>fd = 3, region_id = 1, region_bytes = 4096, num_pages = 1\<rparr>"
definition sample_region :: Region where
  "sample_region = \<lparr>reg_id = 1, reg_bytes = 4096, reg_num_pages = 1, reg_pages = []\<rparr>"
definition sample_store :: server where "sample_store = \<lparr>g_regions = [sample_region], g_next_region = 2\<rparr>"
definition sample_ops :: "page_op list" where "sample_ops = [Rd 0, Wr 0 (replicate 4096 7), Wr 1 (replicate 4096 8), Rd 0]"

theorem remote_pages_witness:
  "\<exists>c c' sc sc' srv' rs. session sample_nm sample_ops c = (rs, c') \<and> handle_client (\<lambda>_. True) (sample_store, sc) = (srv', sc')
     \<and> stream (conn_in sc) = conn_out c' \<and> stream (conn_in c) = conn_out sc'
     \<and> rs = [Page (Some (replicate 4096 0)), Done True, Done False, Page (Some (replicate 4096 7))]"
proof -
  define reqs where "reqs = concat (map request_bytes (op_requests sample_nm sample_ops))"
  define sc where "sc = \<lparr>conn_in = [Data reqs], conn_send = [], conn_out = []\<rparr>"
  obtain srv' sc' where s: "handle_client (\<lambda>_. True) (sample_store, sc) = (srv', sc')" by force
  define c where "c = \<lparr>conn_in = [Data (conn_out sc')], conn_send = [], conn_out = []\<rparr>"
  obtain rs c' where r: "session sample_nm sample_ops c = (rs, c')" by force
  have nm: "nm_ok sample_nm" by (simp add: nm_ok_def sample_nm_def)
  have out: "conn_out c' = reqs" using session_out [OF _ nm r] by (simp add: c_def reqs_def)
  have str: "stream (conn_in sc) = conn_out c'" "stream (conn_in c) = conn_out sc'" by (simp_all add: out sc_def c_def)
  have "rs = fst (array_session (num_pages sample_nm) sample_ops (page_data sample_region))"
    using remote_pages [OF nm _ _ _ _ _ _ _ _ r s str, of sample_region]
    by (simp add: c_def sc_def srv_ok_def sample_store_def sample_region_def sample_nm_def find_region_def sample_ops_def op_ok_def
        NETMEM_PAGE_SZ_def)
  then have "rs = [Page (Some (replicate 4096 0)), Done True, Done False, Page (Some (replicate 4096 7))]"
    by (simp add: sample_ops_def sample_nm_def sample_region_def page_data_def find_page_def PAGE_SZ_def)
  then show ?thesis using r s str by blast
qed

end
