(* ===== verification/Pager.thy ===== *)
theory Pager
  imports Netmem
begin

text \<open>
  The pager of the remote memory
  (\<open>ECS251_Disaggregated_Memory/disaggregatedMemory/disagg_pager.c\<close>). The process is the
  pager, the protection and the contents of the pages of the mapping, and the connection
  to the server. A store to a page that its protection forbids runs the signal handler,
  also inside the handler itself (\<open>SA_NODEFER\<close>), and is tried again when it returns; since
  this need not end, handler and store are one partial function on the option type.
  The answers of the operating system are arguments.
\<close>

datatype prot = PROT_NONE | PROT_READ | PROT_RW

record page_meta_t =
  resident :: bool
  dirty :: bool
  writable :: bool

text \<open>What \<open>sigaction\<close> returned for the handler that was installed before.\<close>

datatype old_action = Old_siginfo bool | Old_dfl | Old_ign | Old_handler bool

record disagg_pager =
  pg_nm :: netmem_t
  pg_base :: u64
  pg_bytes :: u64
  pg_num_pages :: u32
  pg_meta :: "page_meta_t list"
  pg_old_segv :: old_action

record process =
  g_pager :: "disagg_pager option"
  prots :: "prot list"
  pages :: "u8 list list"
  remote :: conn

text \<open>How a handler ends: it returns, the process exits with code 127, is killed by the default action, or another handler runs.\<close>

datatype outcome = Resume process | Exit_127 | Default_action | Other_handler

definition align_down :: "u64 \<Rightarrow> u64 \<Rightarrow> u64" where
  "align_down x a = x AND NOT (a - 1)"

definition chain_old :: "process \<Rightarrow> outcome" where
  "chain_old w = (case g_pager w of
     None \<Rightarrow> Default_action
   | Some p \<Rightarrow> (case pg_old_segv p of
       Old_siginfo f \<Rightarrow> if f then Other_handler else Resume w
     | Old_dfl \<Rightarrow> Default_action
     | Old_ign \<Rightarrow> Resume w
     | Old_handler f \<Rightarrow> if f then Other_handler else Resume w))"

definition upd_meta :: "nat \<Rightarrow> (page_meta_t \<Rightarrow> page_meta_t) \<Rightarrow> process \<Rightarrow> process" where
  "upd_meta i f w = w\<lparr>g_pager := map_option (\<lambda>p. p\<lparr>pg_meta := (pg_meta p)[i := f (pg_meta p ! i)]\<rparr>) (g_pager w)\<rparr>"

text \<open>The page of an address in the mapping.\<close>

definition fault_page :: "disagg_pager \<Rightarrow> u64 \<Rightarrow> nat option" where
  "fault_page p addr =
     (if addr \<noteq> 0 \<and> addr \<ge> pg_base p \<and> addr < pg_base p + pg_bytes p
      then let page_off = align_down (addr - pg_base p) NETMEM_PAGE_SZ
           in Some (unat (ucast (page_off div NETMEM_PAGE_SZ) :: u32))
      else None)"

datatype step = Segv u64 | Memcpy nat "u8 list"

text \<open>
  \<open>Segv\<close> is \<open>segv_handler\<close>, \<open>Memcpy\<close> the copying of a page; \<open>mprotect_ok\<close> is the
  answer of \<open>mprotect\<close>.
\<close>

partial_function (option) run :: "(process \<Rightarrow> nat \<Rightarrow> prot \<Rightarrow> bool) \<Rightarrow> step \<Rightarrow> process \<Rightarrow> outcome option" where
  "run mprotect_ok x w = (case x of
     Segv addr \<Rightarrow>
       (case g_pager w of
          None \<Rightarrow> Some (chain_old w)
        | Some p \<Rightarrow> (case fault_page p addr of
            None \<Rightarrow> Some (chain_old w)
          | Some i \<Rightarrow>
              if \<not> i < length (pg_meta p) then None
              else if \<not> resident (pg_meta p ! i) then
                (case netmem_read_page (pg_nm p) (of_nat i) (remote w) of
                   (None, c) \<Rightarrow> Some Exit_127
                 | (Some buf, c) \<Rightarrow>
                     let w = w\<lparr>remote := c\<rparr>
                     in if \<not> mprotect_ok w i PROT_READ then Some Exit_127
                        else Option.bind (run mprotect_ok (Memcpy i buf) (w\<lparr>prots := (prots w)[i := PROT_READ]\<rparr>))
                          (\<lambda>r. case r of
                             Resume w \<Rightarrow> Some (Resume (upd_meta i (\<lambda>m. m\<lparr>resident := True, writable := False\<rparr>) w))
                           | _ \<Rightarrow> Some r))
              else if \<not> writable (pg_meta p ! i) then
                (if \<not> mprotect_ok w i PROT_RW then Some Exit_127
                 else Some (Resume (upd_meta i (\<lambda>m. m\<lparr>writable := True, dirty := True\<rparr>) (w\<lparr>prots := (prots w)[i := PROT_RW]\<rparr>))))
              else Some (chain_old w)))
   | Memcpy i buf \<Rightarrow>
       if prots w ! i = PROT_RW then Some (Resume (w\<lparr>pages := (pages w)[i := buf]\<rparr>))
       else (case g_pager w of
          None \<Rightarrow> Some Default_action
        | Some p \<Rightarrow>
            Option.bind (run mprotect_ok (Segv (pg_base p + of_nat i * NETMEM_PAGE_SZ)) w)
              (\<lambda>r. case r of Resume w \<Rightarrow> run mprotect_ok (Memcpy i buf) w | _ \<Rightarrow> Some r)))"

abbreviation segv_handler :: "(process \<Rightarrow> nat \<Rightarrow> prot \<Rightarrow> bool) \<Rightarrow> u64 \<Rightarrow> process \<Rightarrow> outcome option" where
  "segv_handler mprotect_ok addr w \<equiv> run mprotect_ok (Segv addr) w"

subsection \<open>Opening, flushing and closing\<close>

record os_answers =
  calloc_pager :: bool
  os_socket :: int
  os_pton :: int
  os_connect :: int
  calloc_meta :: bool
  os_mmap :: "u64 option"
  os_sigaction :: "old_action option"

definition clean_meta :: page_meta_t where
  "clean_meta = \<lparr>resident = False, dirty = False, writable = False\<rparr>"

definition disagg_open :: "os_answers \<Rightarrow> u64 \<Rightarrow> process \<Rightarrow> bool \<times> process" where
  "disagg_open os bytes w =
     (if \<not> calloc_pager os then (False, w)
      else let (ok, nm) = netmem_connect (os_socket os) (os_pton os) (os_connect os)
      in if \<not> ok then (False, w)
      else let (ok, nm, c) = netmem_alloc_region bytes (nm, remote w); w = w\<lparr>remote := c\<rparr>
      in if \<not> ok then (False, w)
      else if \<not> calloc_meta os then (False, w)
      else case os_mmap os of
        None \<Rightarrow> (False, w)
      | Some base \<Rightarrow>
          (case os_sigaction os of
             None \<Rightarrow> (False, w\<lparr>g_pager := None\<rparr>)
           | Some old \<Rightarrow>
               (True, w\<lparr>g_pager := Some \<lparr>pg_nm = nm, pg_base = base, pg_bytes = region_bytes nm, pg_num_pages = num_pages nm,
                           pg_meta = replicate (unat (num_pages nm)) clean_meta, pg_old_segv = old\<rparr>,
                        prots := replicate (unat (num_pages nm)) PROT_NONE,
                        pages := replicate (unat (num_pages nm)) zeros\<rparr>)))"

text \<open>The loop of \<open>disagg_flush\<close> over the given pages; the first failing write ends it.\<close>

fun flush_loop :: "nat list \<Rightarrow> disagg_pager \<times> process \<Rightarrow> bool \<times> disagg_pager \<times> process" where
  "flush_loop [] (p, w) = (True, p, w)"
| "flush_loop (i # js) (p, w) =
     (if resident (pg_meta p ! i) \<and> dirty (pg_meta p ! i) then
        (case netmem_write_page (pg_nm p) (of_nat i) (pages w ! i) (remote w) of (ok, c) \<Rightarrow>
          if \<not> ok then (False, p, w\<lparr>remote := c\<rparr>)
          else flush_loop js (p\<lparr>pg_meta := (pg_meta p)[i := (pg_meta p ! i)\<lparr>dirty := False\<rparr>]\<rparr>, w\<lparr>remote := c\<rparr>))
      else flush_loop js (p, w))"

definition disagg_flush :: "process \<Rightarrow> bool \<times> process" where
  "disagg_flush w = (case g_pager w of
     None \<Rightarrow> (False, w)
   | Some p \<Rightarrow> (case flush_loop [0..<unat (pg_num_pages p)] (p, w) of (ok, p, w) \<Rightarrow> (ok, w\<lparr>g_pager := Some p\<rparr>)))"

definition disagg_close :: "process \<Rightarrow> bool \<times> process" where
  "disagg_close w = (case g_pager w of
     None \<Rightarrow> (False, w)
   | Some p \<Rightarrow> let (ok, w) = disagg_flush w in (True, w\<lparr>g_pager := None, prots := [], pages := []\<rparr>))"

subsection \<open>The handler on a page that is not there\<close>

definition pager_ok :: "disagg_pager \<Rightarrow> bool" where
  "pager_ok p \<longleftrightarrow> pg_base p \<noteq> 0 \<and> unat (pg_base p) + unat (pg_bytes p) < 2 ^ 64 \<and> unat (pg_bytes p) < 2 ^ 32
     \<and> length (pg_meta p) = unat (pg_num_pages p)"

lemma align_down_page: "align_down x NETMEM_PAGE_SZ div NETMEM_PAGE_SZ = x div NETMEM_PAGE_SZ"
proof -
  have "(x AND NOT (mask 12)) div 2 ^ 12 = x div (2 ^ 12 :: u64)"
    unfolding drop_bit_eq_div [symmetric] by (rule bit_word_eqI) (auto simp: bit_simps dest: bit_imp_le_length)
  then show ?thesis by (simp add: align_down_def NETMEM_PAGE_SZ_def mask_eq_exp_minus_1)
qed

lemma fault_page_nat:
  assumes "pager_ok p"
  shows "fault_page p addr =
    (if unat (pg_base p) \<le> unat addr \<and> unat addr < unat (pg_base p) + unat (pg_bytes p)
     then Some ((unat addr - unat (pg_base p)) div 4096) else None)"
proof -
  have sum: "unat (pg_base p + pg_bytes p) = unat (pg_base p) + unat (pg_bytes p)"
    using assms by (simp add: pager_ok_def unat_word_ariths)
  have b: "0 < unat (pg_base p)" using assms by (simp add: pager_ok_def unat_gt_0)
  show ?thesis
  proof (cases "unat (pg_base p) \<le> unat addr \<and> unat addr < unat (pg_base p) + unat (pg_bytes p)")
    case True
    then have off: "unat (addr - pg_base p) = unat addr - unat (pg_base p)" by (simp add: unat_sub word_le_nat_alt)
    have "unat addr \<noteq> 0" using True b by linarith
    then have "addr \<noteq> 0" by auto
    moreover have "unat ((addr - pg_base p) div 4096) = (unat addr - unat (pg_base p)) div 4096"
      by (simp add: unat_div off)
    moreover have "(unat addr - unat (pg_base p)) div 4096 < 2 ^ 32"
      using True assms by (auto simp: pager_ok_def intro: le_less_trans [OF div_le_dividend])
    ultimately show ?thesis using True sum
      by (simp add: fault_page_def Let_def align_down_page word_le_nat_alt word_less_nat_alt unsigned_ucast_eq take_bit_eq_mod)
         (simp add: NETMEM_PAGE_SZ_def)
  next
    case False
    then show ?thesis using sum by (auto simp: fault_page_def word_le_nat_alt word_less_nat_alt)
  qed
qed

lemma fault_page_start:
  assumes "pager_ok p" "fault_page p addr = Some i"
  shows "fault_page p (pg_base p + of_nat i * NETMEM_PAGE_SZ) = Some i"
proof -
  have i: "i = (unat addr - unat (pg_base p)) div 4096" "unat (pg_base p) \<le> unat addr" "unat addr < unat (pg_base p) + unat (pg_bytes p)"
    using assms(2) by (simp_all add: fault_page_nat [OF assms(1)] split: if_splits)
  then have le: "unat (pg_base p) + i * 4096 \<le> unat addr"
    using div_times_less_eq_dividend [of "unat addr - unat (pg_base p)" 4096] by linarith
  have lt: "unat addr < 2 ^ 64" using unsigned_less [of addr] by simp
  have "unat (of_nat (i * 4096) :: u64) = i * 4096" using le lt by (subst unat_of_nat) (simp add: take_bit_nat_eq_self)
  then have "unat (pg_base p + of_nat i * NETMEM_PAGE_SZ) = unat (pg_base p) + i * 4096"
    using le lt by (simp add: NETMEM_PAGE_SZ_def unat_word_ariths)
  then show ?thesis using le i(3) by (simp add: fault_page_nat [OF assms(1)])
qed

definition absent :: "nat \<Rightarrow> process \<Rightarrow> bool" where
  "absent i w \<longleftrightarrow> (\<exists>p. g_pager w = Some p \<and> pager_ok p \<and> i < length (pg_meta p) \<and> \<not> resident (pg_meta p ! i)
     \<and> i < length (prots w) \<and> fault_page p (pg_base p + of_nat i * NETMEM_PAGE_SZ) = Some i)"

fun stuck_at :: "step \<Rightarrow> process \<Rightarrow> bool" where
  "stuck_at (Segv addr) w = (\<exists>p i. g_pager w = Some p \<and> fault_page p addr = Some i \<and> absent i w)"
| "stuck_at (Memcpy i buf) w = (absent i w \<and> prots w ! i \<noteq> PROT_RW)"

lemma run_stuck:
  assumes "run mp x w = Some r"
  shows "stuck_at x w \<longrightarrow> (\<forall>w'. r \<noteq> Resume w')"
proof (rule run.raw_induct [where P = "\<lambda>mp x w r. stuck_at x w \<longrightarrow> (\<forall>w'. r \<noteq> Resume w')" and xa = "((mp, x), w)" and y = r,
      unfolded prod.case, OF _ assms], goal_cases)
  case (1 run mp x w r)
  note IH = 1(1) and body = 1(2)
  show ?case
  proof (cases x)
    case (Segv addr)
    have "\<forall>w'. r \<noteq> Resume w'" if p: "g_pager w = Some p" "fault_page p addr = Some i" "absent i w" for p i
    proof -
      have i: "i < length (pg_meta p)" "\<not> resident (pg_meta p ! i)" using p by (auto simp: absent_def)
      have st: "stuck_at (Memcpy i buf) (w\<lparr>remote := c, prots := (prots w)[i := PROT_READ]\<rparr>)" for buf c
        using p(3) by (auto simp: absent_def)
      obtain d c where rd: "netmem_read_page (pg_nm p) (of_nat i) (remote w) = (d, c)" by force
      have "r = Exit_127 \<or> (\<exists>buf r'. run mp (Memcpy i buf) (w\<lparr>remote := c, prots := (prots w)[i := PROT_READ]\<rparr>) = Some r'
          \<and> (case r' of Resume w \<Rightarrow> Some (Resume (upd_meta i (\<lambda>m. m\<lparr>resident := True, writable := False\<rparr>) w)) | _ \<Rightarrow> Some r') = Some r)"
        using body p i rd by (cases d) (auto simp: Segv Let_def bind_eq_Some_conv split: if_splits)
      then show ?thesis
      proof (elim disjE exE conjE)
        fix buf r'
        assume r': "run mp (Memcpy i buf) (w\<lparr>remote := c, prots := (prots w)[i := PROT_READ]\<rparr>) = Some r'"
          and r: "(case r' of Resume w \<Rightarrow> Some (Resume (upd_meta i (\<lambda>m. m\<lparr>resident := True, writable := False\<rparr>) w)) | _ \<Rightarrow> Some r') = Some r"
        have "\<forall>w'. r' \<noteq> Resume w'" using IH [OF r'] st by blast
        then show ?thesis using r by (cases r') auto
      qed simp
    qed
    then show ?thesis using Segv by auto
  next
    case (Memcpy i buf)
    have "\<forall>w'. r \<noteq> Resume w'" if s: "absent i w" "prots w ! i \<noteq> PROT_RW"
    proof -
      obtain p where p: "g_pager w = Some p" "fault_page p (pg_base p + of_nat i * NETMEM_PAGE_SZ) = Some i"
        using s(1) by (auto simp: absent_def)
      then have st: "stuck_at (Segv (pg_base p + of_nat i * NETMEM_PAGE_SZ)) w" using s(1) by auto
      obtain r' where r': "run mp (Segv (pg_base p + of_nat i * NETMEM_PAGE_SZ)) w = Some r'"
        and r: "(case r' of Resume w \<Rightarrow> run mp (Memcpy i buf) w | _ \<Rightarrow> Some r') = Some r"
        using body p s(2) by (auto simp: Memcpy bind_eq_Some_conv)
      have "\<forall>w'. r' \<noteq> Resume w'" using IH [OF r'] st by blast
      then show ?thesis using r by (cases r') auto
    qed
    then show ?thesis using Memcpy by simp
  qed
qed

lemma open_pager:
  assumes "disagg_open os bytes w = (True, w')" "os_mmap os = Some base" "base \<noteq> 0" "unat base + unat bytes + 4096 < 2 ^ 64"
    and "g_pager w' = Some p"
  shows "pager_ok p" "pg_base p = base" "pg_meta p = replicate (unat (pg_num_pages p)) clean_meta"
    "prots w' = replicate (unat (pg_num_pages p)) PROT_NONE" "pg_num_pages p = ucast ((4095 + pg_bytes p) div 4096)"
proof -
  let ?b = "if bytes = 0 then 4096 else bytes"
  obtain nm c nm0 c0 where nm: "netmem_alloc_region bytes (nm0, c0) = (True, nm, c)"
    and p: "p = \<lparr>pg_nm = nm, pg_base = base, pg_bytes = region_bytes nm, pg_num_pages = num_pages nm,
      pg_meta = replicate (unat (num_pages nm)) clean_meta, pg_old_segv = pg_old_segv p\<rparr>"
    and pr: "prots w' = replicate (unat (num_pages nm)) PROT_NONE"
    using assms by (auto simp: disagg_open_def Let_def split: if_splits prod.splits option.splits)
  have b: "region_bytes nm = ?b" "\<not> ?b > 0xFFFFFFFF" "num_pages nm = ucast ((4095 + region_bytes nm) div 4096)"
    using nm by (auto simp: netmem_alloc_region_def NETMEM_PAGE_SZ_def Let_def split: if_splits prod.splits option.splits)
  then have "unat (region_bytes nm) < 2 ^ 32" "unat (region_bytes nm) \<le> unat bytes + 4096"
    by (auto simp: word_less_nat_alt)
  moreover have sel: "pg_base p = base" "pg_bytes p = region_bytes nm" "pg_num_pages p = num_pages nm"
    "pg_meta p = replicate (unat (num_pages nm)) clean_meta" by (subst p, simp)+
  ultimately show "pager_ok p" using assms(3,4) by (simp add: pager_ok_def)
  show "pg_base p = base" "pg_meta p = replicate (unat (pg_num_pages p)) clean_meta"
    "prots w' = replicate (unat (pg_num_pages p)) PROT_NONE" "pg_num_pages p = ucast ((4095 + pg_bytes p) div 4096)"
    using pr b(3) sel by simp_all
qed

lemma open_absent:
  assumes "disagg_open os bytes w = (True, w')" "os_mmap os = Some base" "base \<noteq> 0" "unat base + unat bytes + 4096 < 2 ^ 64"
    and "g_pager w' = Some p" "unat base \<le> unat addr" "unat addr < unat base + unat (pg_bytes p)"
  shows "stuck_at (Segv addr) w'"
proof -
  note o = open_pager [OF assms(1-5)]
  define i where "i = (unat addr - unat base) div 4096"
  have f: "fault_page p addr = Some i" using assms(6,7) o(2) by (simp add: fault_page_nat [OF o(1)] i_def)
  have b: "unat (pg_bytes p) < 2 ^ 32" using o(1) by (simp add: pager_ok_def)
  have s: "unat (4095 + pg_bytes p) = 4095 + unat (pg_bytes p)" using b by (simp add: unat_word_ariths)
  have "unat ((4095 + pg_bytes p) div 4096) = (4095 + unat (pg_bytes p)) div 4096" using s by (simp add: unat_div)
  moreover have "(4095 + unat (pg_bytes p)) div 4096 < 2 ^ 32" using b by simp
  ultimately have n: "unat (pg_num_pages p) = (4095 + unat (pg_bytes p)) div 4096"
    unfolding o(5) by (simp add: unsigned_ucast_eq take_bit_eq_mod)
  have "unat addr - unat base < unat (pg_bytes p)" using assms(6,7) by linarith
  then have "i < unat (pg_num_pages p)" unfolding n i_def by simp
  then have "absent i w'" using assms(5) o fault_page_start [OF o(1) f] by (auto simp: absent_def clean_meta_def)
  then show ?thesis using assms(5) f by auto
qed

text \<open>
  C34. The first access to a page of a fresh mapping never completes: the handler makes
  the page read-only before it copies the contents into it, the copy faults, and the
  nested handler finds the page still not resident. Whatever the server answers, the
  handler does not return to the faulting instruction.
\<close>

theorem first_touch_stuck:
  assumes "disagg_open os bytes w = (True, w')" "os_mmap os = Some base" "base \<noteq> 0" "unat base + unat bytes + 4096 < 2 ^ 64"
    and "g_pager w' = Some p" "unat base \<le> unat addr" "unat addr < unat base + unat (pg_bytes p)"
  shows "\<nexists>w''. segv_handler mprotect_ok addr w' = Some (Resume w'')"
  using run_stuck open_absent [OF assms] by blast

definition sample_os :: os_answers where
  "sample_os = \<lparr>calloc_pager = True, os_socket = 3, os_pton = 1, os_connect = 0, calloc_meta = True,
     os_mmap = Some 0x10000, os_sigaction = Some Old_dfl\<rparr>"

definition sample_reply :: MsgHdr where
  "sample_reply = \<lparr>hdr_op = OP_ALLOC_REGION, hdr_region = 1, hdr_page = 0, hdr_len = 0\<rparr>"

definition sample_process :: process where
  "sample_process = \<lparr>g_pager = None, prots = [], pages = [],
     remote = \<lparr>conn_in = [Data (hdr_bytes sample_reply)], conn_send = [], conn_out = []\<rparr>\<rparr>"

lemma sample_open:
  obtains w' p where "disagg_open sample_os 5000 sample_process = (True, w')" "g_pager w' = Some p" "pg_bytes p = 5000"
proof -
  let ?req = "hdr_bytes \<lparr>hdr_op = OP_ALLOC_REGION, hdr_region = 0, hdr_page = 0, hdr_len = 5000\<rparr>"
  let ?c = "(remote sample_process)\<lparr>conn_out := conn_out (remote sample_process) @ ?req\<rparr>"
  obtain es where g: "get SIZEOF_MsgHdr ?c = (Some (hdr_bytes sample_reply), ?c\<lparr>conn_in := es\<rparr>)"
    using get_ok [of ?c "hdr_bytes sample_reply" "[]"] by (auto simp: sample_process_def)
  have "parse_hdr (hdr_bytes sample_reply) = sample_reply" using parse_hdr_bytes [of sample_reply "[]"] by simp
  moreover have "put ?req (remote sample_process) = (True, ?c)" by (simp add: sample_process_def)
  ultimately have "\<exists>w' p. disagg_open sample_os 5000 sample_process = (True, w') \<and> g_pager w' = Some p \<and> pg_bytes p = 5000"
    using g by (simp add: disagg_open_def sample_os_def netmem_connect_def netmem_alloc_region_def Let_def NETMEM_PAGE_SZ_def sample_reply_def)
  then show thesis using that by blast
qed

theorem first_touch_stuck_witness:
  "\<exists>w' p. disagg_open sample_os 5000 sample_process = (True, w') \<and> g_pager w' = Some p
     \<and> (\<nexists>w''. segv_handler (\<lambda>_ _ _. True) 0x11000 w' = Some (Resume w''))"
proof -
  obtain w' p where o: "disagg_open sample_os 5000 sample_process = (True, w')" "g_pager w' = Some p" "pg_bytes p = 5000"
    by (rule sample_open)
  then show ?thesis using first_touch_stuck [OF o(1) _ _ _ o(2), of "0x10000" "0x11000"] by (simp add: sample_os_def)
qed

subsection \<open>Writing back\<close>

definition needs_flush :: "page_meta_t \<Rightarrow> bool" where
  "needs_flush m \<longleftrightarrow> resident m \<and> dirty m"

definition flush_writes :: "disagg_pager \<Rightarrow> process \<Rightarrow> nat list \<Rightarrow> page_op list" where
  "flush_writes p w js = map (\<lambda>i. Wr (of_nat i) (pages w ! i)) (filter (\<lambda>i. needs_flush (pg_meta p ! i)) js)"

definition flushed_meta :: "page_meta_t list \<Rightarrow> nat list \<Rightarrow> page_meta_t list" where
  "flushed_meta ms js = map (\<lambda>i. if i \<in> set js \<and> needs_flush (ms ! i) then (ms ! i)\<lparr>dirty := False\<rparr> else ms ! i) [0..<length ms]"

lemma flushed_meta_Cons:
  assumes "i \<notin> set js" "i < length ms"
  shows "flushed_meta ms (i # js) = flushed_meta (if needs_flush (ms ! i) then ms[i := (ms ! i)\<lparr>dirty := False\<rparr>] else ms) js"
  using assms by (auto simp: flushed_meta_def needs_flush_def nth_list_update intro!: map_cong)

lemma flush_loop_ok:
  assumes "flush_loop js (p, w) = (True, p', w')" "distinct js" "\<forall>i \<in> set js. i < length (pg_meta p)"
    and "conn_send (remote w) = []" "nm_ok (pg_nm p)"
  shows "conn_out (remote w') = conn_out (remote w) @ concat (map request_bytes (op_requests (pg_nm p) (flush_writes p w js)))
    \<and> p' = p\<lparr>pg_meta := flushed_meta (pg_meta p) js\<rparr> \<and> w' = w\<lparr>remote := remote w'\<rparr>"
  using assms
proof (induction js arbitrary: p w)
  case Nil
  then show ?case by (simp add: flush_writes_def flushed_meta_def op_requests_def map_nth)
next
  case (Cons i js)
  have i: "i \<notin> set js" "i < length (pg_meta p)" and js: "distinct js" "\<forall>j \<in> set js. j < length (pg_meta p)"
    using Cons.prems(2,3) by auto
  show ?case
  proof (cases "needs_flush (pg_meta p ! i)")
    case True
    obtain ok c where wr: "netmem_write_page (pg_nm p) (of_nat i) (pages w ! i) (remote w) = (ok, c)" by force
    note c = write_page_out [OF Cons.prems(4,5) wr]
    let ?p = "p\<lparr>pg_meta := (pg_meta p)[i := (pg_meta p ! i)\<lparr>dirty := False\<rparr>]\<rparr>"
    have loop: "flush_loop js (?p, w\<lparr>remote := c\<rparr>) = (True, p', w')"
      using Cons.prems(1) True wr by (auto simp: needs_flush_def split: if_splits)
    have ne: "(pg_meta p)[i := y] ! x = pg_meta p ! x" if "x \<in> set js" for x y
      using i(1) that by (metis nth_list_update_neq)
    have same: "flush_writes ?p (w\<lparr>remote := c\<rparr>) js = flush_writes p w js"
      by (simp add: flush_writes_def ne cong: filter_cong)
    have "flush_writes p w (i # js) = Wr (of_nat i) (pages w ! i) # flush_writes p w js" using True by (simp add: flush_writes_def)
    then have req: "op_requests (pg_nm p) (flush_writes p w (i # js)) =
        op_requests (pg_nm p) [Wr (of_nat i) (pages w ! i)] @ op_requests (pg_nm p) (flush_writes p w js)"
      by (metis op_requests_Cons)
    from Cons.IH [OF loop js(1)] js(2) c Cons.prems(5) same req show ?thesis
      by (simp add: flushed_meta_Cons [OF i] True)
  next
    case False
    have loop: "flush_loop js (p, w) = (True, p', w')" using Cons.prems(1) False by (auto simp: needs_flush_def)
    from Cons.IH [OF loop js] Cons.prems(4,5) show ?thesis using False
      by (simp add: flushed_meta_Cons [OF i]) (simp add: flush_writes_def)
  qed
qed

text \<open>
  A flush that succeeds writes exactly the resident dirty pages to the server, in
  the order of their numbers and with their present contents, marks them clean, and
  changes neither the contents nor the protection of any page.
\<close>

theorem flush_sends:
  assumes "disagg_flush w = (True, w')" "g_pager w = Some p" "pager_ok p" "nm_ok (pg_nm p)" "conn_send (remote w) = []"
  defines "js \<equiv> [0..<unat (pg_num_pages p)]"
  shows "conn_out (remote w') = conn_out (remote w) @ concat (map request_bytes (op_requests (pg_nm p) (flush_writes p w js)))
    \<and> w' = w\<lparr>g_pager := Some (p\<lparr>pg_meta := flushed_meta (pg_meta p) js\<rparr>), remote := remote w'\<rparr>"
proof -
  obtain ok p1 w1 where loop: "flush_loop js (p, w) = (ok, p1, w1)" by (metis prod.exhaust)
  have ok: "ok" "w' = w1\<lparr>g_pager := Some p1\<rparr>" using assms(1,2) loop by (auto simp: disagg_flush_def js_def)
  have "\<forall>i \<in> set js. i < length (pg_meta p)" using assms(3) by (simp add: js_def pager_ok_def)
  moreover have "flush_loop js (p, w) = (True, p1, w1)" "distinct js" using loop ok(1) by (simp_all add: js_def)
  ultimately show ?thesis using flush_loop_ok [of js p w p1 w1] assms(4,5) ok(2)
    by (simp add: js_def) (metis process.surjective process.update_convs(1,4))
qed

definition sample_dirty :: process where
  "sample_dirty = \<lparr>g_pager = Some \<lparr>pg_nm = sample_nm, pg_base = 0x10000, pg_bytes = 4096, pg_num_pages = 1,
       pg_meta = [\<lparr>resident = True, dirty = True, writable = True\<rparr>], pg_old_segv = Old_dfl\<rparr>,
     prots = [PROT_RW], pages = [replicate 4096 7],
     remote = \<lparr>conn_in = [Data (hdr_bytes \<lparr>hdr_op = OP_WRITE_PAGE, hdr_region = 1, hdr_page = 0, hdr_len = 0\<rparr>)], conn_send = [], conn_out = []\<rparr>\<rparr>"

lemma sample_flush: "\<exists>w1. disagg_flush sample_dirty = (True, w1)"
proof -
  have nm: "nm_ok sample_nm" "0 < num_pages sample_nm" by (simp_all add: nm_ok_def sample_nm_def)
  have "\<exists>c'. netmem_write_page sample_nm 0 (replicate 4096 7) (remote sample_dirty) = (True, c') \<and> stream (conn_in c') = []"
    using write_page_in [OF _ nm, of "remote sample_dirty" "[]" "replicate 4096 7"] by (simp add: sample_dirty_def sample_nm_def)
  then show ?thesis by (auto simp: disagg_flush_def sample_dirty_def)
qed

lemma sample_dirty_ok:
  "\<exists>p. g_pager sample_dirty = Some p \<and> pager_ok p \<and> nm_ok (pg_nm p) \<and> conn_send (remote sample_dirty) = [] \<and> prots sample_dirty ! 0 = PROT_RW"
  by (simp add: sample_dirty_def pager_ok_def nm_ok_def sample_nm_def)

theorem flush_sends_witness:
  "\<exists>w1. disagg_flush sample_dirty = (True, w1) \<and> pages w1 = pages sample_dirty \<and> prots w1 = prots sample_dirty"
proof -
  obtain w1 p where "disagg_flush sample_dirty = (True, w1)" "g_pager sample_dirty = Some p" "pager_ok p" "nm_ok (pg_nm p)"
    "conn_send (remote sample_dirty) = []" using sample_flush sample_dirty_ok by blast
  note o = this
  define q where "q = Some (p\<lparr>pg_meta := flushed_meta (pg_meta p) [0..<unat (pg_num_pages p)]\<rparr>)"
  have eq: "w1 = sample_dirty\<lparr>g_pager := q, remote := remote w1\<rparr>" unfolding q_def using flush_sends [OF o] by (rule conjunct2)
  have "pages w1 = pages sample_dirty" "prots w1 = prots sample_dirty" by (subst eq, simp)+
  then show ?thesis using o(1) by blast
qed

end
