(* ===== verification/Ring_Buf.thy ===== *)
theory Ring_Buf
  imports Fifo
begin

text \<open>
  The ring buffer macros of \<open>include/ringbuffers.h\<close> for a static buffer with \<open>uint8_t\<close>
  indices, the instance that the block cache uses. The indices run freely and wrap at
  256; the C expressions \<open>TL - HD\<close> are evaluated as \<open>int\<close>. Pushing and popping give the
  slot that the macro returns a pointer to.
\<close>

record 'a ringbuf =
  rb_buf :: "'a list"
  rb_hd :: u8
  rb_tl :: u8

definition RINGBUF_SZ :: "('a, 'b) ringbuf_scheme \<Rightarrow> nat" where
  "RINGBUF_SZ rb = length (rb_buf rb)"

definition rb_slot :: "u8 \<Rightarrow> ('a, 'b) ringbuf_scheme \<Rightarrow> nat" where
  "rb_slot n rb = unat (n AND of_nat (RINGBUF_SZ rb - 1))"

definition RINGBUF_EL :: "u8 \<Rightarrow> 'a ringbuf \<Rightarrow> 'a" where
  "RINGBUF_EL n rb = rb_buf rb ! rb_slot n rb"

definition RINGBUF_FILL :: "'a ringbuf \<Rightarrow> int" where
  "RINGBUF_FILL rb = int (unat (rb_tl rb)) - int (unat (rb_hd rb))"

definition RINGBUF_SPACE :: "'a ringbuf \<Rightarrow> int" where
  "RINGBUF_SPACE rb = int (RINGBUF_SZ rb) - RINGBUF_FILL rb"

definition RINGBUF_EMPTY :: "'a ringbuf \<Rightarrow> bool" where
  "RINGBUF_EMPTY rb \<longleftrightarrow> rb_tl rb = rb_hd rb"

definition RINGBUF_FULL :: "'a ringbuf \<Rightarrow> bool" where
  "RINGBUF_FULL rb \<longleftrightarrow> int (RINGBUF_SZ rb) = RINGBUF_FILL rb"

text \<open>None is the NULL of a full buffer.\<close>

definition RINGBUF_PUSH :: "'a \<Rightarrow> 'a ringbuf \<Rightarrow> 'a ringbuf option" where
  "RINGBUF_PUSH x rb =
     (if RINGBUF_FULL rb then None
      else Some (rb\<lparr>rb_buf := (rb_buf rb)[rb_slot (rb_tl rb) rb := x], rb_tl := rb_tl rb + 1\<rparr>))"

definition RINGBUF_POP :: "'a ringbuf \<Rightarrow> 'a \<times> 'a ringbuf" where
  "RINGBUF_POP rb = (RINGBUF_EL (rb_hd rb) rb, rb\<lparr>rb_hd := rb_hd rb + 1\<rparr>)"

text \<open>A reader that tests for an empty buffer first, as all readers do.\<close>

definition rb_get :: "'a ringbuf \<Rightarrow> ('a \<times> 'a ringbuf) option" where
  "rb_get rb = (if RINGBUF_EMPTY rb then None else Some (RINGBUF_POP rb))"

subsection \<open>The contents of a buffer of 32 slots\<close>

definition rb_count :: "'a ringbuf \<Rightarrow> nat" where
  "rb_count rb = unat (rb_tl rb - rb_hd rb)"

definition rb_items :: "'a ringbuf \<Rightarrow> 'a list" where
  "rb_items rb = map (\<lambda>k. RINGBUF_EL (rb_hd rb + of_nat k) rb) [0..<rb_count rb]"

definition rb_ok :: "'a ringbuf \<Rightarrow> bool" where
  "rb_ok rb \<longleftrightarrow> length (rb_buf rb) = 32 \<and> rb_count rb \<le> 32"

text \<open>The removals that are left before the write index can wrap in front of the read index.\<close>

definition rb_budget :: "'a ringbuf \<Rightarrow> nat" where
  "rb_budget rb = 224 - unat (rb_hd rb)"

lemma slot_32: "length (rb_buf rb) = 32 \<Longrightarrow> rb_slot n rb = unat n mod 32"
proof -
  assume "length (rb_buf rb) = 32"
  then have "rb_slot n rb = unat (take_bit 5 n)"
    by (simp add: rb_slot_def RINGBUF_SZ_def take_bit_eq_mask mask_eq_exp_minus_1)
  then show ?thesis by (simp add: unsigned_take_bit_eq take_bit_eq_mod unat_mod)
qed

lemma slot_add: "length (rb_buf rb) = 32 \<Longrightarrow> rb_slot (a + of_nat k) rb = (unat a + k) mod 32"
proof -
  assume "length (rb_buf rb) = 32"
  moreover have "(unat a + k mod 256) mod 32 = (unat a + k) mod 32"
  proof -
    have "k mod 256 mod 32 = k mod 32" by (rule mod_mod_cancel) simp
    then show ?thesis by (metis mod_add_right_eq)
  qed
  ultimately show ?thesis by (simp add: slot_32 unat_word_ariths unat_of_nat take_bit_eq_mod mod_mod_cancel)
qed

lemma fill_count:
  "RINGBUF_FILL rb = (if unat (rb_hd rb) + rb_count rb < 256 then int (rb_count rb) else int (rb_count rb) - 256)"
proof -
  have "unat (rb_tl rb) = (unat (rb_hd rb) + rb_count rb) mod 256"
    using unat_word_ariths(1) [of "rb_hd rb" "rb_tl rb - rb_hd rb"] by (simp add: rb_count_def)
  moreover have "unat (rb_hd rb) < 256" "rb_count rb < 256" using unsigned_less [where 'b = 8 and 'a = nat]
    by (auto simp: rb_count_def)
  ultimately show ?thesis by (auto simp: RINGBUF_FILL_def mod_if)
qed


lemma items_nth:
  assumes "rb_ok rb"
  shows "rb_items rb = map (\<lambda>k. rb_buf rb ! ((unat (rb_hd rb) + k) mod 32)) [0..<rb_count rb]"
  using assms by (simp add: rb_items_def RINGBUF_EL_def slot_add rb_ok_def)

lemma count_push:
  assumes "rb_count rb \<le> 32"
  shows "unat (rb_tl rb + 1 - rb_hd rb) = Suc (rb_count rb)"
proof -
  define d where "d = rb_tl rb - rb_hd rb"
  have eq: "rb_tl rb + 1 - rb_hd rb = d + 1" and d: "unat d \<le> 32" using assms by (simp_all add: d_def rb_count_def)
  show ?thesis unfolding eq using d by (simp add: rb_count_def d_def [symmetric] unat_word_ariths)
qed

lemma count_pop:
  assumes "0 < rb_count rb"
  shows "unat (rb_tl rb - (rb_hd rb + 1)) = rb_count rb - 1"
proof -
  define d where "d = rb_tl rb - rb_hd rb"
  have eq: "rb_tl rb - (rb_hd rb + 1) = d - 1" and d: "d \<noteq> 0" using assms by (auto simp: d_def rb_count_def)
  show ?thesis unfolding eq using d by (simp add: rb_count_def d_def [symmetric] unat_minus_one)
qed

text \<open>An index that is counted up comes closer to the index it has to reach.\<close>

lemma index_closer: "h \<noteq> a \<Longrightarrow> unat (a - (h + 1)) < unat (a - h)" for a h :: u8
proof -
  assume "h \<noteq> a"
  then have d: "a - h \<noteq> 0" by simp
  have eq: "a - (h + 1) = (a - h) - 1" by simp
  show ?thesis unfolding eq using d by (simp add: unat_minus_one [OF d] unat_gt_0)
qed

lemma tl_slot:
  assumes "rb_ok rb"
  shows "rb_slot (rb_tl rb) rb = (unat (rb_hd rb) + rb_count rb) mod 32"
  using assms slot_add [of rb "rb_hd rb" "rb_count rb"] by (simp add: rb_ok_def rb_count_def)

lemma mod_32_neq: "k < n \<Longrightarrow> n < k + 32 \<Longrightarrow> (a + k) mod 32 \<noteq> (a + n) mod (32 :: nat)"
proof
  assume k: "k < n" "n < k + 32" and eq: "(a + k) mod 32 = (a + n) mod 32"
  then have "(n - k) mod 32 = 0" using mod_eq_dvd_iff_nat [of "a + k" "a + n" 32] by (simp add: mod_eq_0_iff_dvd)
  then show False using k by simp
qed

lemma push_room:
  assumes ok: "rb_ok rb" and room: "rb_count rb < 32"
  obtains rb' where "RINGBUF_PUSH x rb = Some rb'" "rb_ok rb'" "rb_items rb' = rb_items rb @ [x]" "rb_hd rb' = rb_hd rb"
proof -
  let ?rb = "rb\<lparr>rb_buf := (rb_buf rb)[rb_slot (rb_tl rb) rb := x], rb_tl := rb_tl rb + 1\<rparr>"
  have "\<not> RINGBUF_FULL rb" using ok room by (auto simp: RINGBUF_FULL_def RINGBUF_SZ_def fill_count rb_ok_def)
  then have p: "RINGBUF_PUSH x rb = Some ?rb" by (simp add: RINGBUF_PUSH_def)
  have c: "rb_count ?rb = Suc (rb_count rb)" using count_push [of rb] room by (simp add: rb_count_def)
  have ok': "rb_ok ?rb" using ok room c by (simp add: rb_ok_def)
  have "rb_items ?rb = rb_items rb @ [x]"
  proof -
    have len: "length (rb_buf rb) = 32" using ok by (simp add: rb_ok_def)
    have "(rb_buf rb)[rb_slot (rb_tl rb) rb := x] ! ((unat (rb_hd rb) + k) mod 32) = rb_buf rb ! ((unat (rb_hd rb) + k) mod 32)"
      if "k < rb_count rb" for k
      using mod_32_neq [of k "rb_count rb" "unat (rb_hd rb)"] that room by (simp add: tl_slot [OF ok])
    then have "map (\<lambda>k. (rb_buf rb)[rb_slot (rb_tl rb) rb := x] ! ((unat (rb_hd rb) + k) mod 32)) [0..<rb_count rb] = rb_items rb"
      by (simp add: items_nth [OF ok])
    moreover have "(rb_buf rb)[rb_slot (rb_tl rb) rb := x] ! ((unat (rb_hd rb) + rb_count rb) mod 32) = x"
      by (simp add: tl_slot [OF ok] len)
    ultimately show ?thesis unfolding items_nth [OF ok'] c by simp
  qed
  then show thesis using that [OF p ok'] by simp
qed

interpretation rbq: fifo rb_ok rb_items "\<lambda>_. 32" rb_budget RINGBUF_PUSH rb_get
proof
  fix rb :: "'a ringbuf"
  show "rb_ok rb \<Longrightarrow> length (rb_items rb) \<le> 32" by (simp add: rb_ok_def rb_items_def)
next
  fix rb :: "'a ringbuf" and x
  assume "rb_ok rb" "length (rb_items rb) < 32"
  then obtain rb' where "RINGBUF_PUSH x rb = Some rb'" "rb_ok rb'" "rb_items rb' = rb_items rb @ [x]" "rb_hd rb' = rb_hd rb"
    using push_room [of rb x] by (auto simp: rb_items_def)
  then show "\<exists>q'. RINGBUF_PUSH x rb = Some q' \<and> rb_ok q' \<and> rb_items q' = rb_items rb @ [x] \<and> (32 :: nat) = 32 \<and> rb_budget rb \<le> rb_budget q'"
    by (simp add: rb_budget_def)
next
  fix rb :: "'a ringbuf" and x
  assume "rb_ok rb" "0 < rb_budget rb" "length (rb_items rb) = 32"
  then show "RINGBUF_PUSH x rb = None"
    by (auto simp: RINGBUF_PUSH_def RINGBUF_FULL_def RINGBUF_SZ_def rb_ok_def rb_items_def rb_budget_def fill_count)
next
  fix rb :: "'a ringbuf" and x xs
  assume ok: "rb_ok rb" and items: "rb_items rb = x # xs"
  have pos: "0 < rb_count rb" using items by (cases "rb_count rb") (auto simp: rb_items_def)
  let ?rb = "rb\<lparr>rb_hd := rb_hd rb + 1\<rparr>"
  have c: "rb_count ?rb = rb_count rb - 1" using count_pop [OF pos] by (simp add: rb_count_def)
  have "rb_tl rb \<noteq> rb_hd rb" using pos by (auto simp: rb_count_def)
  moreover have "[0..<rb_count rb] = 0 # map Suc [0..<rb_count rb - 1]"
    using pos by (simp add: upt_conv_Cons map_Suc_upt del: upt_Suc)
  then have x: "x = RINGBUF_EL (rb_hd rb) rb" "xs = map (\<lambda>k. RINGBUF_EL (rb_hd rb + of_nat (Suc k)) rb) [0..<rb_count rb - 1]"
    using items by (simp_all add: rb_items_def comp_def)
  moreover have "rb_items ?rb = xs" using c x(2) by (simp add: rb_items_def RINGBUF_EL_def rb_slot_def RINGBUF_SZ_def ac_simps)
  moreover have "rb_ok ?rb" using ok unfolding rb_ok_def c by auto
  moreover have "unat (rb_hd rb + 1) \<le> Suc (unat (rb_hd rb))" by (simp add: unat_word_ariths)
  then have "rb_budget rb \<le> Suc (rb_budget ?rb)" by (simp add: rb_budget_def)
  ultimately show "\<exists>q'. rb_get rb = Some (x, q') \<and> rb_ok q' \<and> rb_items q' = xs \<and> (32 :: nat) = 32 \<and> rb_budget rb \<le> Suc (rb_budget q')"
    by (auto simp: rb_get_def RINGBUF_EMPTY_def RINGBUF_POP_def)
next
  fix rb :: "'a ringbuf"
  assume "rb_ok rb" "rb_items rb = []"
  then have "unat (rb_tl rb - rb_hd rb) = 0" by (simp add: rb_items_def rb_count_def)
  then show "rb_get rb = None" by (simp add: rb_get_def RINGBUF_EMPTY_def unat_eq_zero)
qed

text \<open>
  The test for a full buffer fails once the indices have wrapped: with the read index
  at 224 or above, a full buffer accepts another element, which overwrites the oldest one.
\<close>

theorem ringbuf_overrun:
  assumes "rb_ok rb" "rb_count rb = 32" "unat (rb_hd rb) \<ge> 224"
  shows "\<exists>rb'. RINGBUF_PUSH x rb = Some rb' \<and> fst (RINGBUF_POP rb') = x \<and> rb_hd rb' = rb_hd rb"
proof -
  let ?rb = "rb\<lparr>rb_buf := (rb_buf rb)[rb_slot (rb_tl rb) rb := x], rb_tl := rb_tl rb + 1\<rparr>"
  have len: "length (rb_buf rb) = 32" using assms(1) by (simp add: rb_ok_def)
  have "\<not> RINGBUF_FULL rb" using assms by (simp add: RINGBUF_FULL_def RINGBUF_SZ_def fill_count rb_ok_def)
  moreover have "rb_slot (rb_hd rb) rb = rb_slot (rb_tl rb) rb" using tl_slot [OF assms(1)] assms(2) by (simp add: slot_32 len)
  moreover have "rb_slot (rb_tl rb) rb < 32" by (simp add: slot_32 len)
  ultimately show ?thesis using len by (simp add: RINGBUF_PUSH_def RINGBUF_POP_def RINGBUF_EL_def rb_slot_def RINGBUF_SZ_def)
qed

theorem ringbuf_overrun_witness:
  "\<exists>rb'. RINGBUF_PUSH 7 \<lparr>rb_buf = replicate 32 (0 :: nat), rb_hd = 240, rb_tl = 16\<rparr> = Some rb' \<and> fst (RINGBUF_POP rb') = 7"
  using ringbuf_overrun [of "\<lparr>rb_buf = replicate 32 (0 :: nat), rb_hd = 240, rb_tl = 16\<rparr>" 7]
  by (auto simp: rb_ok_def rb_count_def)

end
