(* ===== verification/AES.thy ===== *)
theory AES
  imports Prelude
begin

text \<open>
  The cipher of the block cache (\<open>cherios/system/block_cache/src/aes.c\<close> in the
  configuration of \<open>include/aes.h\<close>: AES-128 in CBC mode). A state is the block of 16 bytes
  it is cast from, so that \<open>(*state)[i][j]\<close> is byte \<open>4 * i + j\<close>. Buffers are byte
  lists; None is an access outside of a buffer.
\<close>

subsection \<open>Tables\<close>

definition Nb :: nat where "Nb = 4"
definition Nk :: nat where "Nk = 4"
definition Nr :: nat where "Nr = 10"
definition AES_BLOCKLEN :: nat where "AES_BLOCKLEN = 16"

definition sbox :: "u8 list" where
  "sbox = [
     0x63, 0x7c, 0x77, 0x7b, 0xf2, 0x6b, 0x6f, 0xc5, 0x30, 0x01, 0x67, 0x2b, 0xfe, 0xd7, 0xab, 0x76,
     0xca, 0x82, 0xc9, 0x7d, 0xfa, 0x59, 0x47, 0xf0, 0xad, 0xd4, 0xa2, 0xaf, 0x9c, 0xa4, 0x72, 0xc0,
     0xb7, 0xfd, 0x93, 0x26, 0x36, 0x3f, 0xf7, 0xcc, 0x34, 0xa5, 0xe5, 0xf1, 0x71, 0xd8, 0x31, 0x15,
     0x04, 0xc7, 0x23, 0xc3, 0x18, 0x96, 0x05, 0x9a, 0x07, 0x12, 0x80, 0xe2, 0xeb, 0x27, 0xb2, 0x75,
     0x09, 0x83, 0x2c, 0x1a, 0x1b, 0x6e, 0x5a, 0xa0, 0x52, 0x3b, 0xd6, 0xb3, 0x29, 0xe3, 0x2f, 0x84,
     0x53, 0xd1, 0x00, 0xed, 0x20, 0xfc, 0xb1, 0x5b, 0x6a, 0xcb, 0xbe, 0x39, 0x4a, 0x4c, 0x58, 0xcf,
     0xd0, 0xef, 0xaa, 0xfb, 0x43, 0x4d, 0x33, 0x85, 0x45, 0xf9, 0x02, 0x7f, 0x50, 0x3c, 0x9f, 0xa8,
     0x51, 0xa3, 0x40, 0x8f, 0x92, 0x9d, 0x38, 0xf5, 0xbc, 0xb6, 0xda, 0x21, 0x10, 0xff, 0xf3, 0xd2,
     0xcd, 0x0c, 0x13, 0xec, 0x5f, 0x97, 0x44, 0x17, 0xc4, 0xa7, 0x7e, 0x3d, 0x64, 0x5d, 0x19, 0x73,
     0x60, 0x81, 0x4f, 0xdc, 0x22, 0x2a, 0x90, 0x88, 0x46, 0xee, 0xb8, 0x14, 0xde, 0x5e, 0x0b, 0xdb,
     0xe0, 0x32, 0x3a, 0x0a, 0x49, 0x06, 0x24, 0x5c, 0xc2, 0xd3, 0xac, 0x62, 0x91, 0x95, 0xe4, 0x79,
     0xe7, 0xc8, 0x37, 0x6d, 0x8d, 0xd5, 0x4e, 0xa9, 0x6c, 0x56, 0xf4, 0xea, 0x65, 0x7a, 0xae, 0x08,
     0xba, 0x78, 0x25, 0x2e, 0x1c, 0xa6, 0xb4, 0xc6, 0xe8, 0xdd, 0x74, 0x1f, 0x4b, 0xbd, 0x8b, 0x8a,
     0x70, 0x3e, 0xb5, 0x66, 0x48, 0x03, 0xf6, 0x0e, 0x61, 0x35, 0x57, 0xb9, 0x86, 0xc1, 0x1d, 0x9e,
     0xe1, 0xf8, 0x98, 0x11, 0x69, 0xd9, 0x8e, 0x94, 0x9b, 0x1e, 0x87, 0xe9, 0xce, 0x55, 0x28, 0xdf,
     0x8c, 0xa1, 0x89, 0x0d, 0xbf, 0xe6, 0x42, 0x68, 0x41, 0x99, 0x2d, 0x0f, 0xb0, 0x54, 0xbb, 0x16]"

definition rsbox :: "u8 list" where
  "rsbox = [
     0x52, 0x09, 0x6a, 0xd5, 0x30, 0x36, 0xa5, 0x38, 0xbf, 0x40, 0xa3, 0x9e, 0x81, 0xf3, 0xd7, 0xfb,
     0x7c, 0xe3, 0x39, 0x82, 0x9b, 0x2f, 0xff, 0x87, 0x34, 0x8e, 0x43, 0x44, 0xc4, 0xde, 0xe9, 0xcb,
     0x54, 0x7b, 0x94, 0x32, 0xa6, 0xc2, 0x23, 0x3d, 0xee, 0x4c, 0x95, 0x0b, 0x42, 0xfa, 0xc3, 0x4e,
     0x08, 0x2e, 0xa1, 0x66, 0x28, 0xd9, 0x24, 0xb2, 0x76, 0x5b, 0xa2, 0x49, 0x6d, 0x8b, 0xd1, 0x25,
     0x72, 0xf8, 0xf6, 0x64, 0x86, 0x68, 0x98, 0x16, 0xd4, 0xa4, 0x5c, 0xcc, 0x5d, 0x65, 0xb6, 0x92,
     0x6c, 0x70, 0x48, 0x50, 0xfd, 0xed, 0xb9, 0xda, 0x5e, 0x15, 0x46, 0x57, 0xa7, 0x8d, 0x9d, 0x84,
     0x90, 0xd8, 0xab, 0x00, 0x8c, 0xbc, 0xd3, 0x0a, 0xf7, 0xe4, 0x58, 0x05, 0xb8, 0xb3, 0x45, 0x06,
     0xd0, 0x2c, 0x1e, 0x8f, 0xca, 0x3f, 0x0f, 0x02, 0xc1, 0xaf, 0xbd, 0x03, 0x01, 0x13, 0x8a, 0x6b,
     0x3a, 0x91, 0x11, 0x41, 0x4f, 0x67, 0xdc, 0xea, 0x97, 0xf2, 0xcf, 0xce, 0xf0, 0xb4, 0xe6, 0x73,
     0x96, 0xac, 0x74, 0x22, 0xe7, 0xad, 0x35, 0x85, 0xe2, 0xf9, 0x37, 0xe8, 0x1c, 0x75, 0xdf, 0x6e,
     0x47, 0xf1, 0x1a, 0x71, 0x1d, 0x29, 0xc5, 0x89, 0x6f, 0xb7, 0x62, 0x0e, 0xaa, 0x18, 0xbe, 0x1b,
     0xfc, 0x56, 0x3e, 0x4b, 0xc6, 0xd2, 0x79, 0x20, 0x9a, 0xdb, 0xc0, 0xfe, 0x78, 0xcd, 0x5a, 0xf4,
     0x1f, 0xdd, 0xa8, 0x33, 0x88, 0x07, 0xc7, 0x31, 0xb1, 0x12, 0x10, 0x59, 0x27, 0x80, 0xec, 0x5f,
     0x60, 0x51, 0x7f, 0xa9, 0x19, 0xb5, 0x4a, 0x0d, 0x2d, 0xe5, 0x7a, 0x9f, 0x93, 0xc9, 0x9c, 0xef,
     0xa0, 0xe0, 0x3b, 0x4d, 0xae, 0x2a, 0xf5, 0xb0, 0xc8, 0xeb, 0xbb, 0x3c, 0x83, 0x53, 0x99, 0x61,
     0x17, 0x2b, 0x04, 0x7e, 0xba, 0x77, 0xd6, 0x26, 0xe1, 0x69, 0x14, 0x63, 0x55, 0x21, 0x0c, 0x7d]"

definition Rcon :: "u8 list" where
  "Rcon = [0x8d, 0x01, 0x02, 0x04, 0x08, 0x10, 0x20, 0x40, 0x80, 0x1b, 0x36]"

definition getSBoxValue :: "u8 \<Rightarrow> u8" where "getSBoxValue num = sbox ! unat num"
definition getSBoxInvert :: "u8 \<Rightarrow> u8" where "getSBoxInvert num = rsbox ! unat num"

subsection \<open>Key schedule\<close>

definition RotWord :: "u8 list \<Rightarrow> u8 list" where
  "RotWord tempa = [tempa ! 1, tempa ! 2, tempa ! 3, tempa ! 0]"

definition SubWord :: "u8 list \<Rightarrow> u8 list" where
  "SubWord tempa = [getSBoxValue (tempa ! 0), getSBoxValue (tempa ! 1), getSBoxValue (tempa ! 2), getSBoxValue (tempa ! 3)]"

text \<open>One round of the second loop of \<open>KeyExpansion\<close>: the word number \<open>i\<close> of the schedule.\<close>

definition expand_word :: "nat \<Rightarrow> u8 list \<Rightarrow> u8 list" where
  "expand_word i RoundKey =
     (let k = (i - 1) * 4;
          tempa = [RoundKey ! k, RoundKey ! (k + 1), RoundKey ! (k + 2), RoundKey ! (k + 3)];
          tempa = (if i mod Nk = 0
                   then let tempa = SubWord (RotWord tempa) in tempa[0 := tempa ! 0 XOR Rcon ! (i div Nk)]
                   else tempa);
          j = i * 4; k = (i - Nk) * 4
      in RoundKey[j := RoundKey ! k XOR tempa ! 0, j + 1 := RoundKey ! (k + 1) XOR tempa ! 1,
                  j + 2 := RoundKey ! (k + 2) XOR tempa ! 2, j + 3 := RoundKey ! (k + 3) XOR tempa ! 3])"

fun copy_key :: "nat list \<Rightarrow> u8 list \<Rightarrow> u8 list \<Rightarrow> u8 list" where
  "copy_key [] Key RoundKey = RoundKey"
| "copy_key (i # js) Key RoundKey =
     copy_key js Key (RoundKey[i * 4 := Key ! (i * 4), i * 4 + 1 := Key ! (i * 4 + 1),
                               i * 4 + 2 := Key ! (i * 4 + 2), i * 4 + 3 := Key ! (i * 4 + 3)])"

definition KeyExpansion :: "u8 list \<Rightarrow> u8 list \<Rightarrow> u8 list" where
  "KeyExpansion RoundKey Key = fold expand_word [Nk..<Nb * (Nr + 1)] (copy_key [0..<Nk] Key RoundKey)"

subsection \<open>Steps of a round\<close>

definition AddRoundKey :: "nat \<Rightarrow> u8 list \<Rightarrow> u8 list \<Rightarrow> u8 list" where
  "AddRoundKey round s RoundKey = map (\<lambda>k. s ! k XOR RoundKey ! (round * Nb * 4 + k)) [0..<16]"

definition SubBytes :: "u8 list \<Rightarrow> u8 list" where
  "SubBytes s = map getSBoxValue s"

text \<open>The assignments of the source, in their order, with \<open>temp\<close> for the saved byte.\<close>

definition ShiftRows :: "u8 list \<Rightarrow> u8 list" where
  "ShiftRows s =
     (let temp = s ! 1; s = s[1 := s ! 5]; s = s[5 := s ! 9]; s = s[9 := s ! 13]; s = s[13 := temp];
          temp = s ! 2; s = s[2 := s ! 10]; s = s[10 := temp];
          temp = s ! 6; s = s[6 := s ! 14]; s = s[14 := temp];
          temp = s ! 3; s = s[3 := s ! 15]; s = s[15 := s ! 11]; s = s[11 := s ! 7]; s = s[7 := temp]
      in s)"

definition xtime :: "u8 \<Rightarrow> u8" where
  "xtime x = push_bit 1 x XOR ((drop_bit 7 x AND 1) * 0x1b)"

definition mix_column :: "nat \<Rightarrow> u8 list \<Rightarrow> u8 list" where
  "mix_column i s =
     (let t = s ! (4 * i);
          Tmp = s ! (4 * i) XOR s ! (4 * i + 1) XOR s ! (4 * i + 2) XOR s ! (4 * i + 3);
          Tm = xtime (s ! (4 * i) XOR s ! (4 * i + 1)); s = s[4 * i := s ! (4 * i) XOR (Tm XOR Tmp)];
          Tm = xtime (s ! (4 * i + 1) XOR s ! (4 * i + 2)); s = s[4 * i + 1 := s ! (4 * i + 1) XOR (Tm XOR Tmp)];
          Tm = xtime (s ! (4 * i + 2) XOR s ! (4 * i + 3)); s = s[4 * i + 2 := s ! (4 * i + 2) XOR (Tm XOR Tmp)];
          Tm = xtime (s ! (4 * i + 3) XOR t); s = s[4 * i + 3 := s ! (4 * i + 3) XOR (Tm XOR Tmp)]
      in s)"

definition MixColumns :: "u8 list \<Rightarrow> u8 list" where
  "MixColumns s = fold mix_column [0..<4] s"

definition Multiply :: "u8 \<Rightarrow> u8 \<Rightarrow> u8" where
  "Multiply x y = ((y AND 1) * x) XOR ((drop_bit 1 y AND 1) * xtime x) XOR ((drop_bit 2 y AND 1) * xtime (xtime x))
     XOR ((drop_bit 3 y AND 1) * xtime (xtime (xtime x))) XOR ((drop_bit 4 y AND 1) * xtime (xtime (xtime (xtime x))))"

definition inv_mix_column :: "nat \<Rightarrow> u8 list \<Rightarrow> u8 list" where
  "inv_mix_column i s =
     (let a = s ! (4 * i); b = s ! (4 * i + 1); c = s ! (4 * i + 2); d = s ! (4 * i + 3)
      in s[4 * i := Multiply a 0x0e XOR Multiply b 0x0b XOR Multiply c 0x0d XOR Multiply d 0x09,
           4 * i + 1 := Multiply a 0x09 XOR Multiply b 0x0e XOR Multiply c 0x0b XOR Multiply d 0x0d,
           4 * i + 2 := Multiply a 0x0d XOR Multiply b 0x09 XOR Multiply c 0x0e XOR Multiply d 0x0b,
           4 * i + 3 := Multiply a 0x0b XOR Multiply b 0x0d XOR Multiply c 0x09 XOR Multiply d 0x0e])"

definition InvMixColumns :: "u8 list \<Rightarrow> u8 list" where
  "InvMixColumns s = fold inv_mix_column [0..<4] s"

definition InvSubBytes :: "u8 list \<Rightarrow> u8 list" where
  "InvSubBytes s = map getSBoxInvert s"

definition InvShiftRows :: "u8 list \<Rightarrow> u8 list" where
  "InvShiftRows s =
     (let temp = s ! 13; s = s[13 := s ! 9]; s = s[9 := s ! 5]; s = s[5 := s ! 1]; s = s[1 := temp];
          temp = s ! 2; s = s[2 := s ! 10]; s = s[10 := temp];
          temp = s ! 6; s = s[6 := s ! 14]; s = s[14 := temp];
          temp = s ! 3; s = s[3 := s ! 7]; s = s[7 := s ! 11]; s = s[11 := s ! 15]; s = s[15 := temp]
      in s)"

subsection \<open>Cipher and its inverse\<close>

definition cipher_round :: "u8 list \<Rightarrow> nat \<Rightarrow> u8 list \<Rightarrow> u8 list" where
  "cipher_round RoundKey round s = AddRoundKey round (MixColumns (ShiftRows (SubBytes s))) RoundKey"

definition Cipher :: "u8 list \<Rightarrow> u8 list \<Rightarrow> u8 list" where
  "Cipher s RoundKey =
     (let s = AddRoundKey 0 s RoundKey;
          s = fold (cipher_round RoundKey) [1..<Nr] s
      in AddRoundKey Nr (ShiftRows (SubBytes s)) RoundKey)"

definition inv_round :: "u8 list \<Rightarrow> nat \<Rightarrow> u8 list \<Rightarrow> u8 list" where
  "inv_round RoundKey round s = InvMixColumns (AddRoundKey round (InvSubBytes (InvShiftRows s)) RoundKey)"

definition InvCipher :: "u8 list \<Rightarrow> u8 list \<Rightarrow> u8 list" where
  "InvCipher s RoundKey =
     (let s = AddRoundKey Nr s RoundKey;
          s = fold (inv_round RoundKey) (rev [1..<Nr]) s
      in AddRoundKey 0 (InvSubBytes (InvShiftRows s)) RoundKey)"

subsection \<open>CBC mode\<close>

record AES_ctx =
  RoundKey :: "u8 list"
  Iv :: "u8 list"

definition AES_init_ctx :: "AES_ctx \<Rightarrow> u8 list \<Rightarrow> AES_ctx" where
  "AES_init_ctx ctx key = ctx\<lparr>RoundKey := KeyExpansion (RoundKey ctx) key\<rparr>"

definition AES_init_ctx_iv :: "AES_ctx \<Rightarrow> u8 list \<Rightarrow> u8 list \<Rightarrow> AES_ctx" where
  "AES_init_ctx_iv ctx key iv = ctx\<lparr>RoundKey := KeyExpansion (RoundKey ctx) key, Iv := take AES_BLOCKLEN iv\<rparr>"

definition AES_ctx_set_iv :: "AES_ctx \<Rightarrow> u8 list \<Rightarrow> AES_ctx" where
  "AES_ctx_set_iv ctx iv = ctx\<lparr>Iv := take AES_BLOCKLEN iv\<rparr>"

definition XorWithIv :: "u8 list \<Rightarrow> u8 list \<Rightarrow> u8 list" where
  "XorWithIv buf iv = map (\<lambda>i. buf ! i XOR iv ! i) [0..<AES_BLOCKLEN]"

text \<open>The loops over the blocks, with the number of bytes that are left of \<open>length\<close>.\<close>

function encrypt_loop :: "u8 list \<Rightarrow> u8 list \<Rightarrow> u8 list \<Rightarrow> nat \<Rightarrow> (u8 list \<times> u8 list) option" where
  "encrypt_loop rk iv buf n =
     (if n = 0 then Some (iv, buf)
      else if length buf < AES_BLOCKLEN then None
      else let block = Cipher (XorWithIv (take AES_BLOCKLEN buf) iv) rk
           in map_option (\<lambda>(iv, out). (iv, block @ out)) (encrypt_loop rk block (drop AES_BLOCKLEN buf) (n - AES_BLOCKLEN)))"
  by auto
termination by (relation "measure (\<lambda>(rk, iv, buf, n). n)") (auto simp: AES_BLOCKLEN_def)

function decrypt_loop :: "u8 list \<Rightarrow> u8 list \<Rightarrow> u8 list \<Rightarrow> nat \<Rightarrow> (u8 list \<times> u8 list) option" where
  "decrypt_loop rk iv buf n =
     (if n = 0 then Some (iv, buf)
      else if length buf < AES_BLOCKLEN then None
      else let storeNextIv = take AES_BLOCKLEN buf;
               block = XorWithIv (InvCipher (take AES_BLOCKLEN buf) rk) iv
           in map_option (\<lambda>(iv, out). (iv, block @ out)) (decrypt_loop rk storeNextIv (drop AES_BLOCKLEN buf) (n - AES_BLOCKLEN)))"
  by auto
termination by (relation "measure (\<lambda>(rk, iv, buf, n). n)") (auto simp: AES_BLOCKLEN_def)

declare encrypt_loop.simps [simp del] decrypt_loop.simps [simp del]

definition AES_CBC_encrypt_buffer :: "AES_ctx \<Rightarrow> u8 list \<Rightarrow> u32 \<Rightarrow> (AES_ctx \<times> u8 list) option" where
  "AES_CBC_encrypt_buffer ctx buf len =
     map_option (\<lambda>(iv, out). (ctx\<lparr>Iv := iv\<rparr>, out)) (encrypt_loop (RoundKey ctx) (Iv ctx) buf (unat len))"

definition AES_CBC_decrypt_buffer :: "AES_ctx \<Rightarrow> u8 list \<Rightarrow> u32 \<Rightarrow> (AES_ctx \<times> u8 list) option" where
  "AES_CBC_decrypt_buffer ctx buf len =
     map_option (\<lambda>(iv, out). (ctx\<lparr>Iv := iv\<rparr>, out)) (decrypt_loop (RoundKey ctx) (Iv ctx) buf (unat len))"

subsection \<open>Each step is undone by its inverse\<close>

lemma sbox_table: "map (\<lambda>i. rsbox ! unat (sbox ! i)) [0..<256] = map of_nat [0..<256]"
  by code_simp

lemma getSBoxInvert_Value [simp]: "getSBoxInvert (getSBoxValue x) = x"
proof -
  have x: "unat x < 256" using unsigned_less [of x] by simp
  have "map (\<lambda>i. rsbox ! unat (sbox ! i)) [0..<256] ! unat x = map of_nat [0..<256] ! unat x" by (simp only: sbox_table)
  then show ?thesis using x by (simp add: getSBoxInvert_def getSBoxValue_def)
qed

lemma SubBytes_inverse [simp]: "InvSubBytes (SubBytes s) = s"
  by (simp add: InvSubBytes_def SubBytes_def comp_def)

lemma length_16:
  assumes "length s = 16"
  obtains a0 a1 a2 a3 a4 a5 a6 a7 a8 a9 a10 a11 a12 a13 a14 a15 where
    "s = [a0, a1, a2, a3, a4, a5, a6, a7, a8, a9, a10, a11, a12, a13, a14, a15]"
  using assms by (auto simp: length_Suc_conv numeral_eq_Suc)

lemma length_SubBytes [simp]: "length (SubBytes s) = length s" by (simp add: SubBytes_def)
lemma length_AddRoundKey [simp]: "length (AddRoundKey r s k) = 16" by (simp add: AddRoundKey_def)
lemma length_ShiftRows [simp]: "length (ShiftRows s) = length s" by (simp add: ShiftRows_def Let_def)
lemma length_MixColumns [simp]: "length (MixColumns s) = length s"
  by (simp add: MixColumns_def mix_column_def Let_def upt_rec)

lemma ShiftRows_inverse: "length s = 16 \<Longrightarrow> InvShiftRows (ShiftRows s) = s"
  by (erule length_16) (simp add: ShiftRows_def InvShiftRows_def Let_def)

lemma xor_cancel: "(a XOR b) XOR b = (a :: 'a :: len word)" by (simp add: xor.assoc)

lemma AddRoundKey_inverse: "length s = 16 \<Longrightarrow> AddRoundKey r (AddRoundKey r s k) k = s"
  by (rule nth_equalityI) (simp_all add: AddRoundKey_def xor_cancel)

text \<open>Multiplication by \<open>x\<close> in the field is linear.\<close>

lemma xtime_xor: "xtime (a XOR b) = xtime a XOR xtime b"
proof -
  have one: "drop_bit 7 x AND 1 = (if bit x 7 then 1 else 0)" for x :: u8
    by (simp add: and_one_eq bit_iff_odd_drop_bit mod_2_eq_odd)
  show ?thesis unfolding xtime_def one
    by (rule bit_word_eqI) (auto simp: bit_simps)
qed

lemma Multiply_consts:
  "Multiply x 0x09 = x XOR xtime (xtime (xtime x))"
  "Multiply x 0x0b = x XOR xtime x XOR xtime (xtime (xtime x))"
  "Multiply x 0x0d = x XOR xtime (xtime x) XOR xtime (xtime (xtime x))"
  "Multiply x 0x0e = xtime x XOR xtime (xtime x) XOR xtime (xtime (xtime x))"
  by (simp_all add: Multiply_def)

lemma xor_left_self: "a XOR (a XOR b) = (b :: 'a :: len word)" by (simp flip: xor.assoc)

lemmas xor_ac = xor.assoc xor.commute xor.left_commute xor_left_self

lemma inv_mix_column_0:
  "inv_mix_column 0 (mix_column 0 (a # b # c # d # s)) = a # b # c # d # s"
  by (simp add: inv_mix_column_def mix_column_def Let_def Multiply_consts xtime_xor xor_ac)

lemma mix_column_Suc:
  "mix_column (Suc i) (a # b # c # d # s) = a # b # c # d # mix_column i s"
  "inv_mix_column (Suc i) (a # b # c # d # s) = a # b # c # d # inv_mix_column i s"
  by (simp_all add: mix_column_def inv_mix_column_def Let_def) (simp_all add: add.commute)

lemma mix_column_block:
  obtains a' b' c' d' where "\<And>s. mix_column 0 (a # b # c # d # s) = a' # b' # c' # d' # s"
    "\<And>s. inv_mix_column 0 (a' # b' # c' # d' # s) = a # b # c # d # s"
proof -
  obtain a' b' c' d' where m: "\<And>s. mix_column 0 (a # b # c # d # s) = a' # b' # c' # d' # s"
    by (simp add: mix_column_def Let_def)
  then show thesis using that [OF m] inv_mix_column_0 [of a b c d] by (simp add: m)
qed

lemma MixColumns_inverse:
  assumes "length s = 16"
  shows "InvMixColumns (MixColumns s) = s"
proof -
  obtain a0 a1 a2 a3 a4 a5 a6 a7 a8 a9 a10 a11 a12 a13 a14 a15 where
    s: "s = [a0, a1, a2, a3, a4, a5, a6, a7, a8, a9, a10, a11, a12, a13, a14, a15]"
    using assms by (rule length_16)
  obtain b0 b1 b2 b3 where c0: "\<And>s. mix_column 0 (a0 # a1 # a2 # a3 # s) = b0 # b1 # b2 # b3 # s"
    "\<And>s. inv_mix_column 0 (b0 # b1 # b2 # b3 # s) = a0 # a1 # a2 # a3 # s" by (rule mix_column_block) blast
  obtain b4 b5 b6 b7 where c1: "\<And>s. mix_column 0 (a4 # a5 # a6 # a7 # s) = b4 # b5 # b6 # b7 # s"
    "\<And>s. inv_mix_column 0 (b4 # b5 # b6 # b7 # s) = a4 # a5 # a6 # a7 # s" by (rule mix_column_block) blast
  obtain b8 b9 b10 b11 where c2: "\<And>s. mix_column 0 (a8 # a9 # a10 # a11 # s) = b8 # b9 # b10 # b11 # s"
    "\<And>s. inv_mix_column 0 (b8 # b9 # b10 # b11 # s) = a8 # a9 # a10 # a11 # s" by (rule mix_column_block) blast
  obtain b12 b13 b14 b15 where c3: "\<And>s. mix_column 0 (a12 # a13 # a14 # a15 # s) = b12 # b13 # b14 # b15 # s"
    "\<And>s. inv_mix_column 0 (b12 # b13 # b14 # b15 # s) = a12 # a13 # a14 # a15 # s" by (rule mix_column_block) blast
  have cols: "[0..<4] = [0, Suc 0, Suc (Suc 0), Suc (Suc (Suc 0))]" by (simp add: upt_rec)
  show ?thesis
    by (simp add: s MixColumns_def InvMixColumns_def cols mix_column_Suc c0 c1 c2 c3 del: One_nat_def)
qed

subsection \<open>Decryption inverts encryption\<close>

text \<open>
  The state before round \<open>r\<close> of the inverse is the state after the row shift of that
  round of the cipher.
\<close>

definition shifted :: "u8 list \<Rightarrow> u8 list" where "shifted s = ShiftRows (SubBytes s)"

lemma unshift: "length s = 16 \<Longrightarrow> InvSubBytes (InvShiftRows (shifted s)) = s"
  by (simp add: shifted_def ShiftRows_inverse)

lemma length_cipher_round [simp]: "length (cipher_round rk r s) = 16" by (simp add: cipher_round_def)

lemma inv_round_step:
  assumes "length s = 16"
  shows "inv_round rk r (shifted (cipher_round rk r s)) = shifted s"
proof -
  have "length (MixColumns (shifted s)) = 16" using assms by (simp add: shifted_def)
  then have "AddRoundKey r (cipher_round rk r s) rk = MixColumns (shifted s)"
    by (simp add: cipher_round_def shifted_def AddRoundKey_inverse)
  then show ?thesis using assms by (simp add: inv_round_def unshift MixColumns_inverse) (simp add: shifted_def MixColumns_inverse)
qed

lemma inv_rounds:
  assumes "length s = 16"
  shows "fold (inv_round rk) (rev rs) (shifted (fold (cipher_round rk) rs s)) = shifted s"
  using assms by (induction rs arbitrary: s) (simp_all add: inv_round_step)

lemma InvCipher_Cipher:
  assumes "length s = 16"
  shows "InvCipher (Cipher s rk) rk = s"
proof -
  let ?s0 = "AddRoundKey 0 s rk"
  have "length (fold (cipher_round rk) rs ?s0) = 16" for rs
    by (induction rs rule: rev_induct) auto
  then have "AddRoundKey Nr (Cipher s rk) rk = shifted (fold (cipher_round rk) [1..<Nr] ?s0)"
    by (simp add: Cipher_def shifted_def AddRoundKey_inverse)
  then have "fold (inv_round rk) (rev [1..<Nr]) (AddRoundKey Nr (Cipher s rk) rk) = shifted ?s0"
    using inv_rounds [of ?s0 rk "[1..<Nr]"] by simp
  then show ?thesis using unshift [of ?s0] assms by (simp add: InvCipher_def AddRoundKey_inverse)
qed

definition test_key :: "u8 list" where
  "test_key = [0x2b, 0x7e, 0x15, 0x16, 0x28, 0xae, 0xd2, 0xa6, 0xab, 0xf7, 0x15, 0x88, 0x09, 0xcf, 0x4f, 0x3c]"

definition test_block :: "u8 list" where
  "test_block = [0x6b, 0xc1, 0xbe, 0xe2, 0x2e, 0x40, 0x9f, 0x96, 0xe9, 0x3d, 0x7e, 0x11, 0x73, 0x93, 0x17, 0x2a]"

text \<open>The key schedule of the test vectors that the head of the source quotes.\<close>

definition test_schedule :: "u8 list" where
  "test_schedule = [
     0x2b, 0x7e, 0x15, 0x16, 0x28, 0xae, 0xd2, 0xa6, 0xab, 0xf7, 0x15, 0x88, 0x09, 0xcf, 0x4f, 0x3c,
     0xa0, 0xfa, 0xfe, 0x17, 0x88, 0x54, 0x2c, 0xb1, 0x23, 0xa3, 0x39, 0x39, 0x2a, 0x6c, 0x76, 0x05,
     0xf2, 0xc2, 0x95, 0xf2, 0x7a, 0x96, 0xb9, 0x43, 0x59, 0x35, 0x80, 0x7a, 0x73, 0x59, 0xf6, 0x7f,
     0x3d, 0x80, 0x47, 0x7d, 0x47, 0x16, 0xfe, 0x3e, 0x1e, 0x23, 0x7e, 0x44, 0x6d, 0x7a, 0x88, 0x3b,
     0xef, 0x44, 0xa5, 0x41, 0xa8, 0x52, 0x5b, 0x7f, 0xb6, 0x71, 0x25, 0x3b, 0xdb, 0x0b, 0xad, 0x00,
     0xd4, 0xd1, 0xc6, 0xf8, 0x7c, 0x83, 0x9d, 0x87, 0xca, 0xf2, 0xb8, 0xbc, 0x11, 0xf9, 0x15, 0xbc,
     0x6d, 0x88, 0xa3, 0x7a, 0x11, 0x0b, 0x3e, 0xfd, 0xdb, 0xf9, 0x86, 0x41, 0xca, 0x00, 0x93, 0xfd,
     0x4e, 0x54, 0xf7, 0x0e, 0x5f, 0x5f, 0xc9, 0xf3, 0x84, 0xa6, 0x4f, 0xb2, 0x4e, 0xa6, 0xdc, 0x4f,
     0xea, 0xd2, 0x73, 0x21, 0xb5, 0x8d, 0xba, 0xd2, 0x31, 0x2b, 0xf5, 0x60, 0x7f, 0x8d, 0x29, 0x2f,
     0xac, 0x77, 0x66, 0xf3, 0x19, 0xfa, 0xdc, 0x21, 0x28, 0xd1, 0x29, 0x41, 0x57, 0x5c, 0x00, 0x6e,
     0xd0, 0x14, 0xf9, 0xa8, 0xc9, 0xee, 0x25, 0x89, 0xe1, 0x3f, 0x0c, 0xc8, 0xb6, 0x63, 0x0c, 0xa6]"

lemma test_KeyExpansion: "KeyExpansion (replicate 176 0) test_key = test_schedule"
  by code_simp

lemma test_Cipher:
  "Cipher test_block test_schedule =
   [0x3a, 0xd7, 0x7b, 0xb4, 0x0d, 0x7a, 0x36, 0x60, 0xa8, 0x9e, 0xca, 0xf3, 0x24, 0x66, 0xef, 0x97]"
  by code_simp

subsection \<open>Chaining\<close>

lemma length_Cipher [simp]: "length (Cipher s rk) = 16" by (simp add: Cipher_def)
lemma length_XorWithIv [simp]: "length (XorWithIv b iv) = 16" by (simp add: XorWithIv_def AES_BLOCKLEN_def)

lemma XorWithIv_inverse: "length b = 16 \<Longrightarrow> XorWithIv (XorWithIv b iv) iv = b"
  by (rule nth_equalityI) (simp_all add: XorWithIv_def AES_BLOCKLEN_def xor_cancel)

lemma cbc_loop:
  assumes "n mod 16 = 0" "n \<le> length buf"
  shows "\<exists>iv' out. encrypt_loop rk iv buf n = Some (iv', out) \<and> length out = length buf \<and> drop n out = drop n buf
    \<and> decrypt_loop rk iv out n = Some (iv', buf)"
  using assms
proof (induction rk iv buf n rule: encrypt_loop.induct)
  case (1 rk iv buf n)
  show ?case
  proof (cases "n = 0")
    case True
    then show ?thesis by (simp add: encrypt_loop.simps [of _ _ _ 0] decrypt_loop.simps [of _ _ _ 0])
  next
    case False
    then have n: "16 \<le> n" using 1(2) by (metis dvd_imp_le mod_0_imp_dvd neq0_conv)
    then have long: "\<not> length buf < AES_BLOCKLEN" "16 \<le> length buf" using 1(3) by (simp_all add: AES_BLOCKLEN_def)
    define block where "block = Cipher (XorWithIv (take AES_BLOCKLEN buf) iv) rk"
    have "(n - AES_BLOCKLEN) mod 16 = 0" "n - AES_BLOCKLEN \<le> length (drop AES_BLOCKLEN buf)"
      using 1(2,3) n by (simp_all add: AES_BLOCKLEN_def mod_eq_0_iff_dvd)
    from 1(1) [OF False long(1) block_def this] obtain iv' out where
      rest: "encrypt_loop rk block (drop AES_BLOCKLEN buf) (n - AES_BLOCKLEN) = Some (iv', out)"
        "length out = length (drop AES_BLOCKLEN buf)" "drop (n - AES_BLOCKLEN) out = drop (n - AES_BLOCKLEN) (drop AES_BLOCKLEN buf)"
        "decrypt_loop rk block out (n - AES_BLOCKLEN) = Some (iv', drop AES_BLOCKLEN buf)" by blast
    have enc: "encrypt_loop rk iv buf n = Some (iv', block @ out)"
      using False long(1) rest(1) by (subst encrypt_loop.simps) (simp add: block_def [symmetric] Let_def)
    have len: "length block = AES_BLOCKLEN" by (simp add: block_def AES_BLOCKLEN_def)
    have "InvCipher block rk = XorWithIv (take AES_BLOCKLEN buf) iv" by (simp add: block_def InvCipher_Cipher)
    then have "XorWithIv (InvCipher block rk) iv = take AES_BLOCKLEN buf"
      using long(2) by (simp add: XorWithIv_inverse AES_BLOCKLEN_def)
    then have dec: "decrypt_loop rk iv (block @ out) n = Some (iv', buf)"
      using False long rest(2,4) len by (subst decrypt_loop.simps) (simp add: Let_def)
    have "length (block @ out) = length buf" "drop n (block @ out) = drop n buf"
      using rest(2,3) len n long(2) by (simp_all add: AES_BLOCKLEN_def)
    then show ?thesis using enc dec by blast
  qed
qed

lemma decrypt_other_iv:
  assumes "decrypt_loop rk iv out n = Some (iv', buf)" "0 < n" "16 \<le> length buf"
  shows "decrypt_loop rk iv2 out n = Some (iv', XorWithIv (XorWithIv (take 16 buf) iv) iv2 @ drop 16 buf)"
proof -
  have long: "\<not> length out < AES_BLOCKLEN" using assms(1,2) by (subst (asm) decrypt_loop.simps) (auto split: if_splits)
  let ?p = "InvCipher (take AES_BLOCKLEN out) rk"
  obtain b where b: "decrypt_loop rk (take AES_BLOCKLEN out) (drop AES_BLOCKLEN out) (n - AES_BLOCKLEN) = Some (iv', b)"
    "buf = XorWithIv ?p iv @ b"
    using assms(1,2) long by (subst (asm) decrypt_loop.simps) (auto simp: Let_def)
  have "XorWithIv (XorWithIv (XorWithIv ?p iv) iv) iv2 = XorWithIv ?p iv2"
    by (rule nth_equalityI) (simp_all add: XorWithIv_def AES_BLOCKLEN_def xor_cancel)
  then show ?thesis using assms(2) long b by (subst decrypt_loop.simps) (simp add: Let_def)
qed

text \<open>
  C15. Decrypting inverts encrypting, for every key schedule and every buffer: encrypting
  whole blocks never leaves the buffer, changes only the given length, and decrypting the
  result with the initial vector that encryption started with restores the buffer; both
  leave the same vector for the next call.
\<close>

theorem cbc_round_trip:
  assumes "unat len mod AES_BLOCKLEN = 0" "unat len \<le> length buf"
  shows "\<exists>ctx' out. AES_CBC_encrypt_buffer ctx buf len = Some (ctx', out)
    \<and> length out = length buf \<and> drop (unat len) out = drop (unat len) buf \<and> RoundKey ctx' = RoundKey ctx
    \<and> AES_CBC_decrypt_buffer ctx out len = Some (ctx', buf)"
  using cbc_loop [of "unat len" buf "RoundKey ctx" "Iv ctx"] assms
  by (auto simp: AES_CBC_encrypt_buffer_def AES_CBC_decrypt_buffer_def AES_BLOCKLEN_def)

definition test_ctx :: AES_ctx where "test_ctx = \<lparr>RoundKey = test_schedule, Iv = replicate 16 0\<rparr>"

theorem cbc_round_trip_witness:
  "\<exists>ctx' out. AES_CBC_encrypt_buffer test_ctx (test_block @ test_block) 32 = Some (ctx', out)
     \<and> AES_CBC_decrypt_buffer test_ctx out 32 = Some (ctx', test_block @ test_block)"
  using cbc_round_trip [of 32 "test_block @ test_block" test_ctx] by (auto simp: AES_BLOCKLEN_def test_block_def)

text \<open>
  The implementation agrees with the published test vector that the head of the
  source quotes for AES-128.
\<close>

lemma aes_test_vector:
  "Cipher test_block (KeyExpansion (replicate 176 0) test_key) =
   [0x3a, 0xd7, 0x7b, 0xb4, 0x0d, 0x7a, 0x36, 0x60, 0xa8, 0x9e, 0xca, 0xf3, 0x24, 0x66, 0xef, 0x97]"
  by (simp only: test_KeyExpansion test_Cipher)

end
