(* ===== verification/Block_Cache.thy ===== *)
theory Block_Cache
  imports Ring_Buf AES
begin

text \<open>
  The block cache (\<open>cherios/system/block_cache/src/main.c\<close>): a session caches the blocks
  of one block device, serves sector reads and writes that may wait for the device, and
  byte streams through sockets that may be encrypted. Unsealing has succeeded; the
  messages to the driver, the socket library and \<open>malloc\<close> are outside: their answers
  are arguments (\<open>fresh\<close> is the memory that \<open>malloc\<close> gives for a block), and what the
  driver is asked to read is recorded in \<open>dev_reads\<close>. None is a failing assertion or
  an access outside of an object.
\<close>

definition BLOCK_SIZE :: nat where "BLOCK_SIZE = 2 ^ 20"
definition SECTOR_SIZE :: u64 where "SECTOR_SIZE = 512"
definition MAX_SOCKS :: nat where "MAX_SOCKS = 4"

record block_cache_ent_t =
  ent_data :: "u8 list"
  is_complete :: bool

datatype session_state = created | initted | destroyed

record io_callback_t =
  cb_sector :: u64
  cb_is_write :: bool
  cb_sync_ret :: nat
  cb_buf :: nat

record block_aes_data_t =
  aes_ctx :: AES_ctx
  aes_key :: "u8 list"
  aes_iv :: "u8 list"
  innited :: bool

text \<open>
  \<open>client_bufs\<close> and \<open>aes_mem\<close> are the memory behind the pointers to clients' buffers and to
  unlocked keys: sockets that were given the same lock share one cipher context.
\<close>

record session_t =
  bs_size :: u64
  bs_state :: session_state
  should_poll :: bool
  callbacks :: "io_callback_t ringbuf"
  blockreads :: "nat ringbuf"
  blockreads_ack :: u64
  block_cache :: "block_cache_ent_t option list"
  dev_reads :: "(u64 \<times> nat) list"
  client_bufs :: "nat \<Rightarrow> u8 list"
  aes_mem :: "nat \<Rightarrow> block_aes_data_t"
  resumed :: "nat list"

record session_sock =
  ss_addr :: u64
  ss_push :: bool
  ss_blocked :: "nat option"
  aes_data :: "nat option"

subsection \<open>Setting up\<close>

text \<open>The answers of the driver to the messages of \<open>vblk_init\<close>, and the cache map as allocated.\<close>

record driver_answers =
  drv_init :: int
  drv_pull :: int
  drv_push :: int
  drv_sectors :: u64
  new_map :: "nat \<Rightarrow> block_cache_ent_t option list"

definition nblocks :: "u64 \<Rightarrow> nat" where
  "nblocks sz = unat (sz + of_nat (BLOCK_SIZE - 1)) div BLOCK_SIZE"

definition vblk_init :: "driver_answers \<Rightarrow> session_t \<Rightarrow> (int \<times> session_t) option" where
  "vblk_init drv s =
     (if bs_state s = initted then Some (0, s)
      else do {
        kassert (bs_state s = created);
        if drv_init drv \<noteq> 0 then Some (drv_init drv, s)
        else if drv_pull drv \<noteq> 0 then Some (drv_pull drv, s)
        else do {
          kassert (drv_push drv = 0);
          let sz = drv_sectors drv * SECTOR_SIZE;
          Some (0, s\<lparr>block_cache := new_map drv (nblocks sz), bs_size := sz, bs_state := initted\<rparr>)
        }
      })"

definition vblk_size :: "session_t \<Rightarrow> u64 option" where
  "vblk_size s = do { kassert (bs_state s = initted); Some (bs_size s div SECTOR_SIZE) }"

datatype socket_connect_type = CONNECT_PULL_READ | CONNECT_PUSH_WRITE | CONNECT_OTHER

text \<open>\<open>res\<close> is the answer of the socket library; the new socket is the last of the list.\<close>

definition new_socket :: "int \<Rightarrow> socket_connect_type \<Rightarrow> session_t \<Rightarrow> session_sock list \<Rightarrow> (int \<times> session_sock list) option" where
  "new_socket res type s socks = do {
     kassert (bs_state s = initted);
     if length socks = MAX_SOCKS then Some (-1, socks)
     else if type = CONNECT_OTHER then Some (-1, socks)
     else if res < 0 then Some (res, socks)
     else Some (0, socks @ [\<lparr>ss_addr = 0, ss_push = (type = CONNECT_PUSH_WRITE), ss_blocked = None, aes_data = None\<rparr>])
   }"

subsection \<open>Blocks and sectors\<close>

definition new_block :: "block_cache_ent_t \<Rightarrow> nat \<Rightarrow> session_t \<Rightarrow> session_t option" where
  "new_block fresh index s = do {
     kassert (index < length (block_cache s));
     let s = s\<lparr>block_cache := (block_cache s)[index := Some fresh]\<rparr>;
     let sector_start = push_bit 20 (of_nat index) div SECTOR_SIZE;
     rb \<leftarrow> RINGBUF_PUSH index (blockreads s);
     Some (s\<lparr>blockreads := rb, dev_reads := dev_reads s @ [(sector_start, index)], should_poll := True\<rparr>)
   }"

text \<open>The user's buffer and the bytes from the start of the sector on, after the copy.\<close>

definition cpy :: "u8 list \<Rightarrow> u8 list \<Rightarrow> bool \<Rightarrow> nat \<Rightarrow> (u8 list \<times> u8 list) option" where
  "cpy buf sector_buf is_write to_copy = do {
     kassert (to_copy \<le> length buf \<and> to_copy \<le> length sector_buf);
     Some (if is_write then (buf, take to_copy buf @ drop to_copy sector_buf)
           else (take to_copy sector_buf @ drop to_copy buf, sector_buf))
   }"

definition map_index :: "u64 \<Rightarrow> nat" where "map_index addr = unat (drop_bit 20 addr)"
definition map_offset :: "u64 \<Rightarrow> nat" where "map_offset addr = unat (addr AND of_nat (BLOCK_SIZE - 1))"

lemma map_index_div: "map_index a = unat a div BLOCK_SIZE"
  by (simp add: map_index_def BLOCK_SIZE_def unsigned_drop_bit_eq drop_bit_eq_div unat_div)

lemma map_offset_mod: "map_offset a = unat a mod BLOCK_SIZE"
proof -
  have "map_offset a = unat (take_bit 20 a)"
    by (simp add: map_offset_def BLOCK_SIZE_def take_bit_eq_mask mask_eq_exp_minus_1)
  then show ?thesis by (simp add: unsigned_take_bit_eq take_bit_eq_mod unat_mod BLOCK_SIZE_def)
qed

lemma map_offset_less [simp]: "map_offset a < BLOCK_SIZE"
  by (simp add: map_offset_mod BLOCK_SIZE_def)

definition get_block :: "nat \<Rightarrow> session_t \<Rightarrow> block_cache_ent_t option" where
  "get_block i s = (if i < length (block_cache s) then block_cache s ! i else None)"

definition set_data :: "nat \<Rightarrow> u8 list \<Rightarrow> session_t \<Rightarrow> session_t" where
  "set_data i d s = s\<lparr>block_cache := (block_cache s)[i := map_option (\<lambda>e. e\<lparr>ent_data := d\<rparr>) (block_cache s ! i)]\<rparr>"

text \<open>Copying one sector between a client's buffer and a block that is there.\<close>

definition copy_sector :: "u64 \<Rightarrow> nat \<Rightarrow> bool \<Rightarrow> session_t \<Rightarrow> session_t option" where
  "copy_sector sector buf is_write s = do {
     let i = map_index (sector * SECTOR_SIZE);
     let off = map_offset (sector * SECTOR_SIZE);
     e \<leftarrow> get_block i s;
     (b, d) \<leftarrow> cpy (client_bufs s buf) (drop off (ent_data e)) is_write (unat SECTOR_SIZE);
     Some ((set_data i (take off (ent_data e) @ d) s)\<lparr>client_bufs := (client_bufs s)(buf := b)\<rparr>)
   }"

text \<open>The first loop of \<open>handle_callbacks\<close>: blocks whose read the driver has acknowledged.\<close>

function ack_loop :: "session_t \<Rightarrow> session_t option" where
  "ack_loop s =
     (if rb_hd (blockreads s) \<noteq> ucast (blockreads_ack s) then
        if RINGBUF_EMPTY (blockreads s) then None
        else let (i, rb) = RINGBUF_POP (blockreads s)
             in case get_block i s of
                  None \<Rightarrow> None
                | Some e \<Rightarrow> ack_loop (s\<lparr>blockreads := rb, block_cache := (block_cache s)[i := Some (e\<lparr>is_complete := True\<rparr>)]\<rparr>)
      else Some s)"
  by auto
termination
  by (relation "measure (\<lambda>s. unat (ucast (blockreads_ack s) - rb_hd (blockreads s)))")
     (auto simp: RINGBUF_POP_def index_closer)

text \<open>The second loop: callbacks whose block is there, in order, up to the first whose block is not.\<close>

function callback_loop :: "session_t \<Rightarrow> session_t option" where
  "callback_loop s =
     (if rb_hd (callbacks s) \<noteq> rb_tl (callbacks s) then
        let cb = RINGBUF_EL (rb_hd (callbacks s)) (callbacks s)
        in case get_block (map_index (cb_sector cb * SECTOR_SIZE)) s of
             None \<Rightarrow> None
           | Some e \<Rightarrow>
               if \<not> is_complete e then Some s
               else case copy_sector (cb_sector cb) (cb_buf cb) (cb_is_write cb) s of
                 None \<Rightarrow> None
               | Some s' \<Rightarrow> callback_loop (s'\<lparr>resumed := resumed s' @ [cb_sync_ret cb],
                     callbacks := (callbacks s)\<lparr>rb_hd := rb_hd (callbacks s) + 1\<rparr>\<rparr>)
      else Some s)"
  by auto
termination
  by (relation "measure (\<lambda>s. unat (rb_tl (callbacks s) - rb_hd (callbacks s)))") (auto simp: index_closer)

declare ack_loop.simps [simp del] callback_loop.simps [simp del]

definition handle_callbacks :: "session_t \<Rightarrow> session_t option" where
  "handle_callbacks s = do {
     s \<leftarrow> ack_loop s;
     let s = (if RINGBUF_EMPTY (blockreads s) then s\<lparr>should_poll := False\<rparr> else s);
     callback_loop s
   }"

text \<open>\<open>ret\<close> stands for the caller, whose answer is delayed when the block is not there.\<close>

definition rw_sector :: "block_cache_ent_t \<Rightarrow> u64 \<Rightarrow> nat \<Rightarrow> bool \<Rightarrow> nat \<Rightarrow> session_t \<Rightarrow> (int \<times> session_t) option" where
  "rw_sector fresh sector buf is_write ret s = do {
     kassert (bs_state s = initted);
     let i = map_index (sector * SECTOR_SIZE);
     kassert (i < length (block_cache s));
     case block_cache s ! i of
       Some e \<Rightarrow>
         if is_complete e then do { s \<leftarrow> copy_sector sector buf is_write s; Some (0, s) }
         else (case RINGBUF_PUSH \<lparr>cb_sector = sector, cb_is_write = is_write, cb_sync_ret = ret, cb_buf = buf\<rparr> (callbacks s) of
                 None \<Rightarrow> Some (-1, s)
               | Some rb \<Rightarrow> Some (0, s\<lparr>callbacks := rb\<rparr>))
     | None \<Rightarrow> do {
         s \<leftarrow> new_block fresh i s;
         case RINGBUF_PUSH \<lparr>cb_sector = sector, cb_is_write = is_write, cb_sync_ret = ret, cb_buf = buf\<rparr> (callbacks s) of
           None \<Rightarrow> Some (-1, s)
         | Some rb \<Rightarrow> Some (0, s\<lparr>callbacks := rb\<rparr>)
       }
   }"

definition vblk_read :: "block_cache_ent_t \<Rightarrow> nat \<Rightarrow> u64 \<Rightarrow> nat \<Rightarrow> session_t \<Rightarrow> (int \<times> session_t) option" where
  "vblk_read fresh buf sector ret s = rw_sector fresh sector buf False ret s"

definition vblk_write :: "block_cache_ent_t \<Rightarrow> nat \<Rightarrow> u64 \<Rightarrow> nat \<Rightarrow> session_t \<Rightarrow> (int \<times> session_t) option" where
  "vblk_write fresh buf sector ret s = rw_sector fresh sector buf True ret s"

subsection \<open>Sockets\<close>

text \<open>
  \<open>unlock\<close>: None for the lock is the NULL pointer, None inside it a failed unlocking, and
  otherwise the address of the unlocked data.
\<close>

definition unlock :: "nat option option \<Rightarrow> session_sock \<times> session_t \<Rightarrow> (session_sock \<times> session_t) option" where
  "unlock locked_data c = (case c of (ss, s) \<Rightarrow> (case locked_data of
     None \<Rightarrow> Some (ss\<lparr>aes_data := None\<rparr>, s)
   | Some None \<Rightarrow> None
   | Some (Some p) \<Rightarrow>
       let a = aes_mem s p;
           a = (if \<not> innited a then a\<lparr>aes_ctx := AES_init_ctx_iv (aes_ctx a) (aes_key a) (aes_iv a), innited := True\<rparr> else a)
       in Some (ss\<lparr>aes_data := Some p\<rparr>, s\<lparr>aes_mem := (aes_mem s)(p := a)\<rparr>)))"

text \<open>What encryption does to the bytes that were copied: to the block on a write, to the buffer on a read.\<close>

definition set_ctx :: "nat \<Rightarrow> AES_ctx \<Rightarrow> session_t \<Rightarrow> session_t" where
  "set_ctx p ctx s = s\<lparr>aes_mem := (aes_mem s)(p := (aes_mem s p)\<lparr>aes_ctx := ctx\<rparr>)\<rparr>"

definition crypt :: "bool \<Rightarrow> nat \<Rightarrow> nat option \<Rightarrow> session_t \<Rightarrow> u8 list \<times> u8 list \<Rightarrow> (session_t \<times> u8 list \<times> u8 list) option" where
  "crypt is_write to_copy aes s bd = (case (aes, bd) of
     (None, b, d) \<Rightarrow> Some (s, b, d)
   | (Some p, b, d) \<Rightarrow> do {
       kassert (to_copy mod AES_BLOCKLEN = 0);
       if is_write then do {
         (ctx, d) \<leftarrow> AES_CBC_encrypt_buffer (aes_ctx (aes_mem s p)) d (of_nat to_copy);
         Some (set_ctx p ctx s, b, d)
       } else do {
         (ctx, b) \<leftarrow> AES_CBC_decrypt_buffer (aes_ctx (aes_mem s p)) b (of_nat to_copy);
         Some (set_ctx p ctx s, b, d)
       }
     })"

text \<open>The block of an address, requested from the device when it is not in the cache.\<close>

definition block_at :: "block_cache_ent_t \<Rightarrow> nat \<Rightarrow> session_t \<Rightarrow> (block_cache_ent_t \<times> session_t) option" where
  "block_at fresh i s = do {
     kassert (i < length (block_cache s));
     s \<leftarrow> (if block_cache s ! i = None then new_block fresh i s else Some s);
     e \<leftarrow> get_block i s;
     Some (e, s)
   }"

text \<open>
  The loop of \<open>ff\<close>: the bytes that are left, the buffer, and the number of bytes copied.
  The buffer is the same in every round.
\<close>

function ff_loop :: "block_cache_ent_t \<Rightarrow> nat \<Rightarrow> nat \<Rightarrow> u8 list \<Rightarrow> session_sock \<times> session_t
    \<Rightarrow> (nat \<times> u8 list \<times> session_sock \<times> session_t) option" where
  "ff_loop fresh len copied buf (ss, s) =
     (if len \<noteq> 0 then
        let i = map_index (ss_addr ss); off = map_offset (ss_addr ss)
        in case block_at fresh i s of
             None \<Rightarrow> None
           | Some (e, s) \<Rightarrow>
               if \<not> is_complete e then Some (copied, buf, ss\<lparr>ss_blocked := Some i\<rparr>, s)
               else let biggest_copy = BLOCK_SIZE - off;
                        to_copy = (if len > biggest_copy then biggest_copy else len)
                    in case Option.bind (cpy buf (drop off (ent_data e)) (ss_push ss) to_copy) (crypt (ss_push ss) to_copy (aes_data ss) s) of
                         None \<Rightarrow> None
                       | Some (s, buf, d) \<Rightarrow>
                           ff_loop fresh (len - to_copy) (copied + to_copy) buf
                             (ss\<lparr>ss_addr := ss_addr ss + of_nat to_copy\<rparr>, set_data i (take off (ent_data e) @ d) s)
      else Some (copied, buf, ss, s))"
  by pat_completeness auto
termination
proof (relation "measure (\<lambda>(fresh, len, copied, buf, ss, s). len)", goal_cases)
  case (2 fresh len copied buf ss s i off x e s' biggest_copy to_copy x' ss' y buf' d)
  have "off < BLOCK_SIZE" using 2(3) by (simp add: map_offset_less)
  then show ?case using 2 by (auto split: if_splits)
qed simp

declare ff_loop.simps [simp del]

definition ff :: "block_cache_ent_t \<Rightarrow> u8 list \<Rightarrow> u64 \<Rightarrow> session_sock \<times> session_t \<Rightarrow> (nat \<times> u8 list \<times> session_sock \<times> session_t) option" where
  "ff fresh buf len c = ff_loop fresh (unat len) 0 buf c"

text \<open>The number of bytes that are offered and the bytes themselves, which stay in the block.\<close>

definition ff_sub :: "block_cache_ent_t \<Rightarrow> u64 \<Rightarrow> session_sock \<times> session_t \<Rightarrow> (nat \<times> u8 list \<times> session_sock \<times> session_t) option" where
  "ff_sub fresh len c = (case c of (ss, s) \<Rightarrow> do {
     let i = map_index (ss_addr ss);
     let off = map_offset (ss_addr ss);
     (e, s) \<leftarrow> block_at fresh i s;
     if \<not> is_complete e then Some (0, [], ss\<lparr>ss_blocked := Some i\<rparr>, s)
     else do {
       let to_copy = (if unat len > BLOCK_SIZE - off then BLOCK_SIZE - off else unat len);
       (s, b, _) \<leftarrow> crypt False to_copy (aes_data ss) s (drop off (ent_data e), []);
       Some (to_copy, take to_copy b, ss\<lparr>ss_addr := ss_addr ss + of_nat to_copy\<rparr>, set_data i (take off (ent_data e) @ b) s)
     }
   })"

datatype whence = SEEK_CUR | SEEK_SET | SEEK_END
datatype oob_request = REQUEST_SEEK whence u64 | REQUEST_FLUSH | REQUEST_SET_KEY "nat option option" | REQUEST_OTHER
datatype oob_result = Handled u64 | E_OOB

definition oobff :: "oob_request \<Rightarrow> u64 \<Rightarrow> session_sock \<times> session_t \<Rightarrow> (oob_result \<times> session_sock \<times> session_t) option" where
  "oobff req len c = (case c of (ss, s) \<Rightarrow> (case req of
     REQUEST_SEEK w offset \<Rightarrow>
       (case w of
          SEEK_CUR \<Rightarrow> Some (Handled len, ss\<lparr>ss_addr := offset + ss_addr ss\<rparr>, s)
        | SEEK_SET \<Rightarrow> if sint offset < 0 then Some (E_OOB, ss, s) else Some (Handled len, ss\<lparr>ss_addr := offset\<rparr>, s)
        | SEEK_END \<Rightarrow> Some (E_OOB, ss, s))
   | REQUEST_FLUSH \<Rightarrow> None
   | REQUEST_SET_KEY locked \<Rightarrow> do { c \<leftarrow> unlock locked (ss, s); Some (Handled len, c) }
   | REQUEST_OTHER \<Rightarrow> Some (E_OOB, ss, s)))"

text \<open>\<open>writeback_all\<close>: the sectors and contents that the driver is asked to write.\<close>

definition writeback_all :: "session_t \<Rightarrow> (u64 \<times> u8 list) list option" where
  "writeback_all s = do {
     kassert (bs_state s = initted);
     kassert (nblocks (bs_size s) \<le> length (block_cache s));
     Some (concat (map (\<lambda>i. case block_cache s ! i of
         Some e \<Rightarrow> if is_complete e then [(push_bit 20 (of_nat i) div SECTOR_SIZE, ent_data e)] else []
       | None \<Rightarrow> []) [0..<nblocks (bs_size s)]))
   }"

subsection \<open>Streams within a block\<close>

lemma get_block_set:
  "get_block i s = Some e \<Longrightarrow> get_block j (set_data i d s) = (if i = j then Some (e\<lparr>ent_data := d\<rparr>) else get_block j s)"
  by (auto simp: get_block_def set_data_def split: if_splits)

lemma block_at_there: "get_block i s = Some e \<Longrightarrow> block_at fresh i s = Some (e, s)"
  by (auto simp: block_at_def get_block_def split: if_splits)

lemma ff_loop_0 [simp]: "ff_loop fresh 0 copied buf (ss, s) = Some (copied, buf, ss, s)"
  by (subst ff_loop.simps) simp

text \<open>One round of the loop for a block that is there.\<close>

lemma ff_round:
  assumes "get_block (map_index (ss_addr ss)) s = Some e" "is_complete e" "0 < len"
    and "n = (if len > BLOCK_SIZE - map_offset (ss_addr ss) then BLOCK_SIZE - map_offset (ss_addr ss) else len)"
    and "Option.bind (cpy buf (drop (map_offset (ss_addr ss)) (ent_data e)) (ss_push ss) n) (crypt (ss_push ss) n (aes_data ss) s) = Some (s', buf', d)"
  shows "ff_loop fresh len copied buf (ss, s) =
    ff_loop fresh (len - n) (copied + n) buf'
      (ss\<lparr>ss_addr := ss_addr ss + of_nat n\<rparr>, set_data (map_index (ss_addr ss)) (take (map_offset (ss_addr ss)) (ent_data e) @ d) s')"
  using assms by (subst ff_loop.simps) (simp add: Let_def block_at_there)

lemma ff_block:
  assumes "get_block (map_index (ss_addr ss)) s = Some e" "is_complete e" "length (ent_data e) = BLOCK_SIZE"
    and "0 < n" "map_offset (ss_addr ss) + n \<le> BLOCK_SIZE" "n \<le> length buf" "aes_data ss = None"
  shows "ff_loop fresh n copied buf (ss, s) = Some (copied + n,
      if ss_push ss then buf else take n (drop (map_offset (ss_addr ss)) (ent_data e)) @ drop n buf,
      ss\<lparr>ss_addr := ss_addr ss + of_nat n\<rparr>,
      set_data (map_index (ss_addr ss))
        (if ss_push ss then take (map_offset (ss_addr ss)) (ent_data e) @ take n buf @ drop (map_offset (ss_addr ss) + n) (ent_data e)
         else ent_data e) s)"
proof -
  have n: "n = (if n > BLOCK_SIZE - map_offset (ss_addr ss) then BLOCK_SIZE - map_offset (ss_addr ss) else n)"
    using assms(5) by simp
  have c: "Option.bind (cpy buf (drop (map_offset (ss_addr ss)) (ent_data e)) (ss_push ss) n) (crypt (ss_push ss) n (aes_data ss) s) =
      Some (s, if ss_push ss then buf else take n (drop (map_offset (ss_addr ss)) (ent_data e)) @ drop n buf,
        if ss_push ss then take n buf @ drop (map_offset (ss_addr ss) + n) (ent_data e) else drop (map_offset (ss_addr ss)) (ent_data e))"
    using assms(3,5,6,7) by (simp add: cpy_def crypt_def add.commute)
  show ?thesis unfolding ff_round [OF assms(1,2,4) n c, of fresh copied] by simp
qed

lemma set_data_same: "get_block i s = Some e \<Longrightarrow> set_data i (ent_data e) s = s"
  by (auto simp: get_block_def set_data_def list_update_same_conv split: if_splits)

text \<open>
  C30. Bytes written through a socket are read back: for a request that stays within a
  block of the cache, a write replaces exactly the bytes from its address on by the buffer,
  every other byte of the block, every other block and the rest of the session staying as
  they are, and a read at the same address returns these bytes and changes nothing.
\<close>

theorem stream_write_read:
  assumes "get_block (map_index (ss_addr w)) s = Some e" "is_complete e" "length (ent_data e) = BLOCK_SIZE"
    and "0 < len" "map_offset (ss_addr w) + unat len \<le> BLOCK_SIZE" "length buf = unat len" "unat len \<le> length buf'"
    and "ss_push w" "\<not> ss_push r" "ss_addr r = ss_addr w" "aes_data w = None" "aes_data r = None"
  shows "\<exists>s'. ff fresh buf len (w, s) = Some (unat len, buf, w\<lparr>ss_addr := ss_addr w + len\<rparr>, s')
    \<and> s' = s\<lparr>block_cache := (block_cache s)[map_index (ss_addr w) := Some (e\<lparr>ent_data :=
        take (map_offset (ss_addr w)) (ent_data e) @ buf @ drop (map_offset (ss_addr w) + unat len) (ent_data e)\<rparr>)]\<rparr>
    \<and> ff fresh buf' len (r, s') = Some (unat len, buf @ drop (unat len) buf', r\<lparr>ss_addr := ss_addr r + len\<rparr>, s')"
proof -
  let ?i = "map_index (ss_addr w)" and ?o = "map_offset (ss_addr w)"
  let ?d = "take ?o (ent_data e) @ buf @ drop (?o + unat len) (ent_data e)"
  let ?s = "set_data ?i ?d s"
  have pos: "0 < unat len" using assms(4) by (simp add: word_less_nat_alt)
  have wr: "ff fresh buf len (w, s) = Some (unat len, buf, w\<lparr>ss_addr := ss_addr w + len\<rparr>, ?s)"
    using ff_block [OF assms(1-3) pos assms(5) _ assms(11), of buf fresh 0] assms(6,8) by (simp add: ff_def)
  have e': "get_block (map_index (ss_addr r)) ?s = Some (e\<lparr>ent_data := ?d\<rparr>)"
    using get_block_set [OF assms(1)] assms(10) by simp
  have len': "length (ent_data (e\<lparr>ent_data := ?d\<rparr>)) = BLOCK_SIZE" using assms(3,5,6) by simp
  have "take (unat len) (drop ?o ?d) = buf" using assms(3,5,6) by simp
  then have rd: "ff fresh buf' len (r, ?s) = Some (unat len, buf @ drop (unat len) buf', r\<lparr>ss_addr := ss_addr r + len\<rparr>, ?s)"
    using ff_block [OF e' _ len' pos _ assms(7,12), of fresh 0] assms(2,5,9,10) set_data_same [OF e'] by (simp add: ff_def)
  have "?s = s\<lparr>block_cache := (block_cache s)[?i := Some (e\<lparr>ent_data := ?d\<rparr>)]\<rparr>"
    using assms(1) by (auto simp: set_data_def get_block_def split: if_splits)
  then show ?thesis using wr rd by auto
qed

definition zero_block :: block_cache_ent_t where
  "zero_block = \<lparr>ent_data = replicate BLOCK_SIZE 0, is_complete = True\<rparr>"

definition sample_session :: session_t where
  "sample_session = \<lparr>bs_size = 2097152, bs_state = initted, should_poll = False,
     callbacks = \<lparr>rb_buf = replicate 32 \<lparr>cb_sector = 0, cb_is_write = False, cb_sync_ret = 0, cb_buf = 0\<rparr>, rb_hd = 0, rb_tl = 0\<rparr>,
     blockreads = \<lparr>rb_buf = replicate 32 0, rb_hd = 0, rb_tl = 0\<rparr>, blockreads_ack = 0,
     block_cache = [Some zero_block, Some zero_block], dev_reads = [], client_bufs = (\<lambda>_. []),
     aes_mem = (\<lambda>_. \<lparr>aes_ctx = \<lparr>RoundKey = [], Iv = []\<rparr>, aes_key = [], aes_iv = [], innited = False\<rparr>), resumed = []\<rparr>"

definition sock_at :: "u64 \<Rightarrow> bool \<Rightarrow> session_sock" where
  "sock_at a push = \<lparr>ss_addr = a, ss_push = push, ss_blocked = None, aes_data = None\<rparr>"

theorem stream_write_read_witness:
  "\<exists>s'. ff zero_block [1, 2, 3] 3 (sock_at 1000 True, sample_session) = Some (3, [1, 2, 3], sock_at 1003 True, s')
     \<and> ff zero_block [9, 9, 9, 9] 3 (sock_at 1000 False, s') = Some (3, [1, 2, 3, 9], sock_at 1003 False, s')"
proof -
  have "get_block (map_index (ss_addr (sock_at 1000 True))) sample_session = Some zero_block"
    by (simp add: sock_at_def map_index_div BLOCK_SIZE_def get_block_def sample_session_def)
  from stream_write_read [OF this, of 3 "[1, 2, 3]" "[9, 9, 9, 9]" "sock_at 1000 False" zero_block] show ?thesis
    by (auto simp: sock_at_def map_offset_mod BLOCK_SIZE_def zero_block_def)
qed

text \<open>
  C37. A request that crosses the end of a block goes wrong: the loop advances the
  address but not the buffer, so the part in the second block is written from the start
  of the buffer again instead of from where the first part ended.
\<close>

theorem ff_crosses_block:
  assumes "get_block (map_index (ss_addr w)) s = Some e" "is_complete e" "length (ent_data e) = BLOCK_SIZE"
    and "get_block (Suc (map_index (ss_addr w))) s = Some e2" "is_complete e2" "length (ent_data e2) = BLOCK_SIZE"
    and "BLOCK_SIZE < map_offset (ss_addr w) + unat len" "unat len \<le> BLOCK_SIZE" "length buf = unat len"
    and "ss_push w" "aes_data w = None" "unat (ss_addr w) + unat len < 2 ^ 64"
  shows "\<exists>s' w' e2'. ff fresh buf len (w, s) = Some (unat len, buf, w', s')
    \<and> get_block (Suc (map_index (ss_addr w))) s' = Some e2'
    \<and> (let k = map_offset (ss_addr w) + unat len - BLOCK_SIZE in take k (ent_data e2') = take k buf)"
proof -
  let ?i = "map_index (ss_addr w)" and ?o = "map_offset (ss_addr w)"
  define n where "n = BLOCK_SIZE - ?o"
  define k where "k = ?o + unat len - BLOCK_SIZE"
  have lt: "?o < BLOCK_SIZE" by (rule map_offset_less)
  have n: "n = (if unat len > BLOCK_SIZE - ?o then BLOCK_SIZE - ?o else unat len)" "0 < unat len"
    and nk: "unat len = n + k" "0 < k" "k \<le> BLOCK_SIZE" "n \<le> unat len"
    unfolding n_def k_def using assms(7,8) lt by (simp_all del: map_offset_less)
  have c: "Option.bind (cpy buf (drop ?o (ent_data e)) (ss_push w) n) (crypt (ss_push w) n (aes_data w) s) = Some (s, buf, take n buf @ drop n (drop ?o (ent_data e)))"
    using assms(3,9,10,11) nk(4) by (simp add: cpy_def crypt_def n_def)
  define s1 where "s1 = set_data ?i (take ?o (ent_data e) @ take n buf @ drop n (drop ?o (ent_data e))) s"
  define w1 where "w1 = w\<lparr>ss_addr := ss_addr w + of_nat n\<rparr>"
  have r1: "ff fresh buf len (w, s) = ff_loop fresh k n buf (w1, s1)"
    unfolding ff_def ff_round [OF assms(1,2) n(2,1) c, of fresh 0] using nk(1) by (simp add: s1_def w1_def)
  have un: "unat (of_nat n :: u64) = n" using nk(4) assms(12) by (subst unat_of_nat) (simp add: take_bit_nat_eq_self)
  have a1: "unat (ss_addr w1) = unat (ss_addr w) + n"
    using nk(4) assms(12) un by (simp add: w1_def unat_word_ariths)
  have split: "unat (ss_addr w) = ?i * BLOCK_SIZE + ?o" by (simp add: map_index_div map_offset_mod)
  have "unat (ss_addr w1) = Suc ?i * BLOCK_SIZE" using a1 split map_offset_less [of "ss_addr w"] by (simp add: n_def)
  then have mi: "map_index (ss_addr w1) = Suc ?i" "map_offset (ss_addr w1) = 0"
    by (simp_all add: map_index_div map_offset_mod BLOCK_SIZE_def)
  have e2: "get_block (map_index (ss_addr w1)) s1 = Some e2" using assms(4) get_block_set [OF assms(1)] mi by (simp add: s1_def)
  have "ff_loop fresh k n buf (w1, s1) = Some (n + k, buf, w1\<lparr>ss_addr := ss_addr w1 + of_nat k\<rparr>,
      set_data (Suc ?i) (take k buf @ drop k (ent_data e2)) s1)"
    using ff_block [OF e2 assms(5,6) nk(2), of buf fresh n] mi nk assms(9,10,11) by (simp add: w1_def)
  then have r: "ff fresh buf len (w, s) = Some (unat len, buf, w1\<lparr>ss_addr := ss_addr w1 + of_nat k\<rparr>,
      set_data (Suc ?i) (take k buf @ drop k (ent_data e2)) s1)" using r1 nk(1) by simp
  have "take k (take k buf @ drop k (ent_data e2)) = take k buf" using nk(1) assms(9) by simp
  then show ?thesis using r get_block_set [OF e2 [unfolded mi], of "Suc ?i"] by (simp add: k_def)
qed

theorem ff_crosses_block_witness:
  "\<exists>s' w' e2'. ff zero_block [1, 2, 3] 3 (sock_at 0xFFFFE True, sample_session) = Some (3, [1, 2, 3], w', s')
     \<and> get_block 1 s' = Some e2' \<and> take 1 (ent_data e2') = [1]"
proof -
  have m: "map_index (ss_addr (sock_at 0xFFFFE True)) = 0" "map_offset (ss_addr (sock_at 0xFFFFE True)) = 0xFFFFE"
    by (simp_all add: sock_at_def map_index_div map_offset_mod BLOCK_SIZE_def)
  have b: "get_block 0 sample_session = Some zero_block" "get_block 1 sample_session = Some zero_block"
    by (simp_all add: get_block_def sample_session_def)
  have z: "is_complete zero_block" "length (ent_data zero_block) = BLOCK_SIZE" by (simp_all add: zero_block_def)
  show ?thesis
    using ff_crosses_block [of "sock_at 0xFFFFE True" sample_session zero_block zero_block 3 "[1, 2, 3]" zero_block] b z m
    by (simp add: sock_at_def BLOCK_SIZE_def)
qed

subsection \<open>Sectors that have to wait for the device\<close>

definition cb_block :: "session_t \<Rightarrow> io_callback_t \<Rightarrow> block_cache_ent_t option" where
  "cb_block s cb = get_block (map_index (cb_sector cb * SECTOR_SIZE)) s"

definition cb_ok :: "session_t \<Rightarrow> io_callback_t \<Rightarrow> bool" where
  "cb_ok s cb \<longleftrightarrow> (\<exists>e. cb_block s cb = Some e \<and> length (ent_data e) = BLOCK_SIZE) \<and> 512 \<le> length (client_bufs s (cb_buf cb))"

definition cb_ready :: "session_t \<Rightarrow> io_callback_t \<Rightarrow> bool" where
  "cb_ready s cb \<longleftrightarrow> (\<exists>e. cb_block s cb = Some e \<and> is_complete e)"

lemma get_block_bufs [simp]: "get_block j (s\<lparr>client_bufs := b\<rparr>) = get_block j s"
  by (simp add: get_block_def)

lemma sector_fits: "map_offset (sector * SECTOR_SIZE) + 512 \<le> BLOCK_SIZE"
proof -
  have "unat (sector * SECTOR_SIZE) = unat sector * 512 mod 2 ^ 64" by (simp add: SECTOR_SIZE_def unat_word_ariths)
  also have "\<dots> = 512 * (unat sector mod 2 ^ 55)" by (simp add: mult_mod_right mult.commute)
  finally have "map_offset (sector * SECTOR_SIZE) = 512 * (unat sector mod 2 ^ 55) mod (512 * 2 ^ 11)"
    by (simp add: map_offset_mod BLOCK_SIZE_def)
  also have "\<dots> = 512 * ((unat sector mod 2 ^ 55) mod 2 ^ 11)" by (simp only: mult_mod_right)
  finally have "map_offset (sector * SECTOR_SIZE) = 512 * ((unat sector mod 2 ^ 55) mod 2 ^ 11)" .
  moreover have "(unat sector mod 2 ^ 55) mod 2 ^ 11 \<le> (2 ^ 11 - 1 :: nat)" by simp
  ultimately show ?thesis by (simp add: BLOCK_SIZE_def)
qed

lemma copy_sector_ok:
  assumes "cb_ok s cb"
  obtains s' where "copy_sector (cb_sector cb) (cb_buf cb) (cb_is_write cb) s = Some s'"
    "callbacks s' = callbacks s" "resumed s' = resumed s" "\<And>c. cb_ready s' c = cb_ready s c" "\<And>c. cb_ok s c \<Longrightarrow> cb_ok s' c"
proof -
  let ?i = "map_index (cb_sector cb * SECTOR_SIZE)" and ?o = "map_offset (cb_sector cb * SECTOR_SIZE)"
  obtain e where e: "get_block ?i s = Some e" "length (ent_data e) = BLOCK_SIZE" "512 \<le> length (client_bufs s (cb_buf cb))"
    using assms by (auto simp: cb_ok_def cb_block_def)
  obtain b d where bd: "cpy (client_bufs s (cb_buf cb)) (drop ?o (ent_data e)) (cb_is_write cb) 512 = Some (b, d)"
    "length b = length (client_bufs s (cb_buf cb))" "length d = BLOCK_SIZE - ?o"
    using e(2,3) sector_fits [of "cb_sector cb"] by (cases "cb_is_write cb") (auto simp: cpy_def)
  define s' where "s' = (set_data ?i (take ?o (ent_data e) @ d) s)\<lparr>client_bufs := (client_bufs s)(cb_buf cb := b)\<rparr>"
  have c: "copy_sector (cb_sector cb) (cb_buf cb) (cb_is_write cb) s = Some s'"
    using e(1) bd(1) by (simp add: copy_sector_def s'_def SECTOR_SIZE_def)
  have g: "get_block j s' = (if ?i = j then Some (e\<lparr>ent_data := take ?o (ent_data e) @ d\<rparr>) else get_block j s)" for j
    using get_block_set [OF e(1)] by (simp add: s'_def)
  have cl: "client_bufs s' = (client_bufs s)(cb_buf cb := b)" by (simp add: s'_def)
  have "length (take ?o (ent_data e) @ d) = BLOCK_SIZE" using e(2) bd(3) sector_fits [of "cb_sector cb"] by simp
  then have "cb_ok s c \<Longrightarrow> cb_ok s' c" for c using bd(2) cl by (auto simp: cb_ok_def cb_block_def g)
  moreover have "cb_ready s' c = cb_ready s c" for c using e(1) by (auto simp: cb_ready_def cb_block_def g)
  ultimately show thesis using c by (intro that [of s']) (simp_all add: s'_def set_data_def)
qed

lemma callback_loop_ok:
  assumes "rb_ok (callbacks s)" "\<forall>cb \<in> set (rb_items (callbacks s)). cb_ok s cb"
  shows "\<exists>s'. callback_loop s = Some s'
    \<and> resumed s' = resumed s @ map cb_sync_ret (takeWhile (cb_ready s) (rb_items (callbacks s)))
    \<and> rb_items (callbacks s') = dropWhile (cb_ready s) (rb_items (callbacks s)) \<and> rb_ok (callbacks s')"
  using assms
proof (induction "rb_items (callbacks s)" arbitrary: s)
  case Nil
  then have "rb_get (callbacks s) = None" by (intro rbq.get_none) simp_all
  then have "rb_hd (callbacks s) = rb_tl (callbacks s)" by (auto simp: rb_get_def RINGBUF_EMPTY_def split: if_splits)
  then show ?case using Nil by (subst callback_loop.simps) simp
next
  case (Cons cb cbs)
  obtain rb where rb: "rb_get (callbacks s) = Some (cb, rb)" "rb_ok rb" "rb_items rb = cbs"
    using rbq.get_some [OF Cons.prems(1) Cons.hyps(2) [symmetric]] by blast
  then have hd: "rb_hd (callbacks s) \<noteq> rb_tl (callbacks s)" "cb = RINGBUF_EL (rb_hd (callbacks s)) (callbacks s)"
    "rb = (callbacks s)\<lparr>rb_hd := rb_hd (callbacks s) + 1\<rparr>"
    by (auto simp: rb_get_def RINGBUF_EMPTY_def RINGBUF_POP_def split: if_splits)
  have ok: "cb_ok s cb" "\<forall>c \<in> set cbs. cb_ok s c" using Cons.prems(2) Cons.hyps(2) by (metis list.set_intros)+
  then obtain e where e: "get_block (map_index (cb_sector cb * SECTOR_SIZE)) s = Some e" by (auto simp: cb_ok_def cb_block_def)
  show ?case
  proof (cases "is_complete e")
    case False
    then have "\<not> cb_ready s cb" using e by (simp add: cb_ready_def cb_block_def)
    moreover have "callback_loop s = Some s" using False hd e by (subst callback_loop.simps) simp
    ultimately show ?thesis using Cons.prems(1) Cons.hyps(2) by (metis append.right_neutral dropWhile.simps(2) list.simps(8) takeWhile.simps(2))
  next
    case True
    obtain s1 where s1: "copy_sector (cb_sector cb) (cb_buf cb) (cb_is_write cb) s = Some s1" "callbacks s1 = callbacks s"
      "resumed s1 = resumed s" "\<And>c. cb_ready s1 c = cb_ready s c" "\<And>c. cb_ok s c \<Longrightarrow> cb_ok s1 c"
      using copy_sector_ok [OF ok(1)] by blast
    define s2 where "s2 = s1\<lparr>resumed := resumed s1 @ [cb_sync_ret cb], callbacks := rb\<rparr>"
    have step: "callback_loop s = callback_loop s2"
      using True hd e s1(1) by (subst callback_loop.simps) (simp add: s2_def)
    have r: "cb_ready s2 = cb_ready s" using s1(4) by (auto simp: fun_eq_iff cb_ready_def cb_block_def get_block_def s2_def)
    have "\<forall>c \<in> set (rb_items (callbacks s2)). cb_ok s2 c"
      using ok(2) s1(5) rb(3) by (auto simp: s2_def cb_ok_def cb_block_def get_block_def)
    from Cons.hyps(1) [OF _ _ this] rb(2,3) step r True e s1(3) Cons.hyps(2) [symmetric] show ?thesis
      by (simp add: s2_def cb_ready_def cb_block_def)
  qed
qed

lemma ack_loop_frame: "ack_loop s = Some s' \<Longrightarrow> callbacks s' = callbacks s \<and> resumed s' = resumed s"
proof (induction s arbitrary: s' rule: ack_loop.induct)
  case (1 s)
  show ?case
  proof (cases "rb_hd (blockreads s) \<noteq> ucast (blockreads_ack s)")
    case True
    obtain i rb where p: "RINGBUF_POP (blockreads s) = (i, rb)" by force
    obtain e where e: "\<not> RINGBUF_EMPTY (blockreads s)" "get_block i s = Some e"
      "ack_loop (s\<lparr>blockreads := rb, block_cache := (block_cache s)[i := Some (e\<lparr>is_complete := True\<rparr>)]\<rparr>) = Some s'"
      using 1(2) True p by (subst (asm) ack_loop.simps) (auto split: if_splits option.splits)
    from 1(1) [OF True e(1) p [symmetric] refl e(2,3)] show ?thesis by simp
  next
    case False
    then show ?thesis using 1(2) by (subst (asm) ack_loop.simps) simp
  qed
qed

text \<open>
  C24. No client that waits for a block is lost or answered twice: a run of the callback
  handler answers exactly the longest prefix of the waiting calls whose blocks have
  arrived (are complete once the handler has taken the acknowledged reads), in the order
  of the calls, and keeps the others, for a consistent session.
\<close>

theorem callbacks_in_order:
  assumes "ack_loop s = Some s1" "rb_ok (callbacks s1)" "\<forall>cb \<in> set (rb_items (callbacks s1)). cb_ok s1 cb"
  shows "\<exists>s'. handle_callbacks s = Some s' \<and> rb_ok (callbacks s')
    \<and> resumed s' = resumed s @ map cb_sync_ret (takeWhile (cb_ready s1) (rb_items (callbacks s)))
    \<and> rb_items (callbacks s') = dropWhile (cb_ready s1) (rb_items (callbacks s))"
proof -
  define s2 where "s2 = (if RINGBUF_EMPTY (blockreads s1) then s1\<lparr>should_poll := False\<rparr> else s1)"
  have f: "callbacks s2 = callbacks s1" "resumed s2 = resumed s1" "cb_ready s2 = cb_ready s1" "cb_ok s2 = cb_ok s1"
    by (auto simp: s2_def fun_eq_iff cb_ready_def cb_ok_def cb_block_def get_block_def)
  have "handle_callbacks s = callback_loop s2" using assms(1) by (simp add: handle_callbacks_def s2_def)
  then show ?thesis using callback_loop_ok [of s2] ack_loop_frame [OF assms(1)] assms(2,3) f by auto
qed

definition waiting_session :: session_t where
  "waiting_session = sample_session\<lparr>client_bufs := (\<lambda>_. replicate 512 5),
     callbacks := \<lparr>rb_buf = \<lparr>cb_sector = 3, cb_is_write = True, cb_sync_ret = 77, cb_buf = 0\<rparr> # replicate 31 \<lparr>cb_sector = 0, cb_is_write = False, cb_sync_ret = 0, cb_buf = 0\<rparr>,
       rb_hd = 0, rb_tl = 1\<rparr>\<rparr>"

theorem callbacks_in_order_witness:
  "\<exists>s'. handle_callbacks waiting_session = Some s' \<and> resumed s' = [77] \<and> rb_items (callbacks s') = []"
proof -
  have a: "ack_loop waiting_session = Some waiting_session"
    by (subst ack_loop.simps) (simp add: waiting_session_def sample_session_def)
  have it: "rb_items (callbacks waiting_session) = [\<lparr>cb_sector = 3, cb_is_write = True, cb_sync_ret = 77, cb_buf = 0\<rparr>]"
    by (simp add: rb_items_def rb_count_def RINGBUF_EL_def rb_slot_def RINGBUF_SZ_def waiting_session_def)
  have m: "map_index (3 * SECTOR_SIZE) = 0" by (simp add: map_index_div SECTOR_SIZE_def BLOCK_SIZE_def)
  have g: "get_block 0 waiting_session = Some zero_block" by (simp add: get_block_def waiting_session_def sample_session_def)
  have "rb_ok (callbacks waiting_session)" by (simp add: rb_ok_def rb_count_def waiting_session_def)
  moreover have "cb_ok waiting_session \<lparr>cb_sector = 3, cb_is_write = True, cb_sync_ret = 77, cb_buf = 0\<rparr>"
    by (simp add: cb_ok_def cb_block_def m g zero_block_def) (simp add: waiting_session_def)
  moreover have "cb_ready waiting_session \<lparr>cb_sector = 3, cb_is_write = True, cb_sync_ret = 77, cb_buf = 0\<rparr>"
    by (simp add: cb_ready_def cb_block_def m g zero_block_def)
  moreover have "resumed waiting_session = []" by (simp add: waiting_session_def sample_session_def)
  ultimately show ?thesis using callbacks_in_order [OF a] by (auto simp: it)
qed

end
