(* ===== verification/Service.thy ===== *)
theory Service
  imports Prelude
begin

text \<open>
  A message driven service: an activation whose message loop runs one method for each
  message. \<open>run_service\<close> runs a sequence of requests and collects the replies; None is a
  trap of a method, after which the service answers nothing more. The locale states what
  it means that a service implements an abstract one, and lifts it from a single request
  to every sequence.
\<close>

fun run_service :: "('op \<Rightarrow> 's \<Rightarrow> ('r \<times> 's) option) \<Rightarrow> 'op list \<Rightarrow> 's \<Rightarrow> ('r list \<times> 's) option" where
  "run_service step [] s = Some ([], s)"
| "run_service step (x # xs) s = do {
     (r, s) \<leftarrow> step x s;
     (rs, s) \<leftarrow> run_service step xs s;
     Some (r # rs, s)
   }"

locale service =
  fixes step :: "'op \<Rightarrow> 's \<Rightarrow> ('r \<times> 's) option"
    and spec :: "'op \<Rightarrow> 'a \<Rightarrow> ('r \<times> 'a) option"
    and ok :: "'s \<Rightarrow> bool"
    and abs :: "'s \<Rightarrow> 'a"
    and req :: "'op \<Rightarrow> bool"
  assumes simulates: "ok s \<Longrightarrow> req x \<Longrightarrow> map_option (apsnd abs) (step x s) = spec x (abs s)"
    and keeps: "ok s \<Longrightarrow> req x \<Longrightarrow> step x s = Some (r, s') \<Longrightarrow> ok s'"
begin

lemma run_simulates:
  "ok s \<Longrightarrow> list_all req xs \<Longrightarrow> map_option (apsnd abs) (run_service step xs s) = run_service spec xs (abs s)"
proof (induction xs arbitrary: s)
  case (Cons x xs)
  show ?case
  proof (cases "step x s")
    case None
    then show ?thesis using simulates [of s x] Cons.prems by auto
  next
    case (Some q)
    obtain r s' where q: "q = (r, s')" by (cases q)
    have "spec x (abs s) = Some (r, abs s')" using simulates [of s x] Cons.prems Some q by auto
    moreover have "map_option (apsnd abs) (run_service step xs s') = run_service spec xs (abs s')"
      using Cons keeps [of s x r s'] Some q by simp
    ultimately show ?thesis using Some q
      by (cases "run_service step xs s'") (auto dest: sym)
  qed
qed simp

lemma run_keeps: "ok s \<Longrightarrow> list_all req xs \<Longrightarrow> run_service step xs s = Some (rs, s') \<Longrightarrow> ok s'"
proof (induction xs arbitrary: s rs)
  case (Cons x xs)
  then obtain r s1 rs1 where "step x s = Some (r, s1)" "run_service step xs s1 = Some (rs1, s')"
    by (auto simp: bind_Some_conv split: prod.splits)
  then show ?case using Cons keeps [of s x r s1] by simp
qed simp

end

end
