(* ===== verification/Act_Events.thy ===== *)
theory Act_Events
  imports Service
begin

text \<open>
  The activation event service (\<open>cherios/system/activation_events/src/main.c\<close>): for each
  kind of event a list of targets, each with the list of its subscriptions. A linked list
  of the source is the HOL list of its nodes in the order of the links, and a pointer to a
  link is a position in it, the length being the NULL link at the end. Memory allocation
  succeeds. None is an access through a capability derived from NULL. The contract is one
  list of subscriptions for each event and target; the service is shown to implement it
  for every sequence of requests, traps included.
\<close>

text \<open>Pointers are equal for \<open>==\<close> when their tags and their addresses are.\<close>

definition ptr_key :: "capability \<Rightarrow> bool \<times> u64" where
  "ptr_key c = (cheri_gettag c, cheri_getcursor c)"

abbreviation ptr_eq :: "capability \<Rightarrow> capability \<Rightarrow> bool" where
  "ptr_eq c d \<equiv> ptr_key c = ptr_key d"

record notification_item =
  ni_notify :: capability
  ni_carg :: capability
  ni_port :: u64
  ni_arg :: u64

record notification_list =
  nl_target :: capability
  nl_head :: "notification_item list"

definition SUBSCRIBE_OK :: int where "SUBSCRIBE_OK = 0"
definition SUBSCRIBE_ALREADY_SUBSCRIBED :: int where "SUBSCRIBE_ALREADY_SUBSCRIBED = -1"
definition SUBSCRIBE_NOT_SUBSCRIBED :: int where "SUBSCRIBE_NOT_SUBSCRIBED = -2"

fun find_target :: "capability \<Rightarrow> notification_list list \<Rightarrow> bool \<Rightarrow> nat \<times> notification_list list" where
  "find_target target [] create = (0, if create then [\<lparr>nl_target = target, nl_head = []\<rparr>] else [])"
| "find_target target (l # ls) create =
     (if ptr_eq (nl_target l) target then (0, l # ls)
      else (case find_target target ls create of (k, ls) \<Rightarrow> (Suc k, l # ls)))"

fun subscribe_loop :: "notification_item \<Rightarrow> notification_item list \<Rightarrow> int \<times> notification_item list" where
  "subscribe_loop new [] = (SUBSCRIBE_OK, [new])"
| "subscribe_loop new (i # is) =
     (if ptr_eq (ni_notify i) (ni_notify new) \<and> ni_port i = ni_port new then (SUBSCRIBE_ALREADY_SUBSCRIBED, i # is)
      else (case subscribe_loop new is of (r, is) \<Rightarrow> (r, i # is)))"

definition subscribe :: "capability \<Rightarrow> capability \<Rightarrow> capability \<Rightarrow> u64 \<Rightarrow> u64 \<Rightarrow> notification_list list
    \<Rightarrow> int \<times> notification_list list" where
  "subscribe target notify carg arg port ls =
     (let (k, ls) = find_target target ls True;
          (r, is) = subscribe_loop \<lparr>ni_notify = notify, ni_carg = carg, ni_port = port, ni_arg = arg\<rparr> (nl_head (ls ! k))
      in (r, ls[k := (ls ! k)\<lparr>nl_head := is\<rparr>]))"

fun unsubscribe_loop :: "capability \<Rightarrow> u64 \<Rightarrow> notification_item list \<Rightarrow> int \<times> notification_item list" where
  "unsubscribe_loop notify port [] = (SUBSCRIBE_NOT_SUBSCRIBED, [])"
| "unsubscribe_loop notify port (i # is) =
     (if ptr_eq (ni_notify i) notify \<and> ni_port i = port then (SUBSCRIBE_OK, is)
      else (case unsubscribe_loop notify port is of (r, is) \<Rightarrow> (r, i # is)))"

definition unsubscribe :: "capability \<Rightarrow> capability \<Rightarrow> u64 \<Rightarrow> notification_list list \<Rightarrow> int \<times> notification_list list" where
  "unsubscribe target notify port ls =
     (let (k, ls) = find_target target ls False
      in if k = length ls then (SUBSCRIBE_NOT_SUBSCRIBED, ls)
         else (let (r, is) = unsubscribe_loop notify port (nl_head (ls ! k))
               in (r, ls[k := (ls ! k)\<lparr>nl_head := is\<rparr>])))"

text \<open>
  The loops of \<open>unsubscribe_all\<close>. The inner loop removes items and stops when the link
  becomes NULL. The step of the outer loop then takes the address of a field of the NULL
  node, and its test reads through it.
\<close>

fun skip_items :: "capability \<Rightarrow> notification_item list \<Rightarrow> notification_item list" where
  "skip_items notify [] = []"
| "skip_items notify (i # is) = (if ptr_eq (ni_notify i) notify then skip_items notify is else i # is)"

lemma skip_items_length: "length (skip_items n is) \<le> length is"
  by (induction "is") auto

function unsubscribe_all_loop :: "capability \<Rightarrow> notification_item list \<Rightarrow> notification_item list option" where
  "unsubscribe_all_loop notify [] = Some []"
| "unsubscribe_all_loop notify (i # is) =
     (case skip_items notify (i # is) of
        [] \<Rightarrow> None
      | k # ks \<Rightarrow> map_option ((#) k) (unsubscribe_all_loop notify ks))"
  by pat_completeness auto
termination
proof (relation "measure (\<lambda>(n, is). length is)")
  fix n and i :: notification_item and "is" k ks
  assume "skip_items n (i # is) = k # ks"
  then show "((n, ks), n, i # is) \<in> measure (\<lambda>(n, is). length is)"
    using skip_items_length [of n "i # is"] by simp
qed simp

definition unsubscribe_all :: "capability \<Rightarrow> capability \<Rightarrow> notification_list list \<Rightarrow> (int \<times> notification_list list) option" where
  "unsubscribe_all target notify ls =
     (let (k, ls) = find_target target ls False
      in if k = length ls then Some (SUBSCRIBE_OK, ls)
         else do {
           is \<leftarrow> unsubscribe_all_loop notify (nl_head (ls ! k));
           Some (SUBSCRIBE_OK, ls[k := (ls ! k)\<lparr>nl_head := is\<rparr>])
         })"

text \<open>A message that \<open>notify_all\<close> sends: its integer and capability arguments, the receiver and the port.\<close>

record event_message =
  em_a0 :: u64
  em_c3 :: capability
  em_c4 :: capability
  em_to :: capability
  em_port :: u64

definition send_item :: "capability \<Rightarrow> notification_item \<Rightarrow> event_message" where
  "send_item target i =
     \<lparr>em_a0 = ni_arg i, em_c3 = ni_carg i, em_c4 = target, em_to = ni_notify i, em_port = ni_port i\<rparr>"

definition notify_all :: "capability \<Rightarrow> notification_list list \<Rightarrow> bool \<Rightarrow> event_message list \<times> notification_list list" where
  "notify_all target ls free_after =
     (let (k, ls) = find_target target ls False
      in if k = length ls then ([], ls)
         else (map (send_item target) (nl_head (ls ! k)),
               if free_after then take k ls @ drop (Suc k) ls else ls))"

text \<open>The events, whether one happens only once, and the methods that the macros generate for each of them.\<close>

datatype event = Revoke | Terminate

fun event_once :: "event \<Rightarrow> bool" where
  "event_once Revoke = True"
| "event_once Terminate = True"

record event_lists =
  revoke_list :: "notification_list list"
  terminate_list :: "notification_list list"

fun event_list :: "event \<Rightarrow> event_lists \<Rightarrow> notification_list list" where
  "event_list Revoke s = revoke_list s"
| "event_list Terminate s = terminate_list s"

fun set_event_list :: "event \<Rightarrow> notification_list list \<Rightarrow> event_lists \<Rightarrow> event_lists" where
  "set_event_list Revoke ls s = s\<lparr>revoke_list := ls\<rparr>"
| "set_event_list Terminate ls s = s\<lparr>terminate_list := ls\<rparr>"

definition events_init :: event_lists where
  "events_init = \<lparr>revoke_list = [], terminate_list = []\<rparr>"

datatype event_call =
    Notify event capability
  | Subscribe event capability capability capability u64 u64
  | Unsubscribe event capability capability u64
  | Unsubscribe_All event capability capability

text \<open>The reply of a method is what it returns, if anything, and the messages that it sends.\<close>

fun event_method :: "event_call \<Rightarrow> event_lists \<Rightarrow> ((int option \<times> event_message list) \<times> event_lists) option" where
  "event_method (Notify e target) s =
     (case notify_all target (event_list e s) (event_once e) of
        (ms, ls) \<Rightarrow> Some ((None, ms), set_event_list e ls s))"
| "event_method (Subscribe e target notify carg arg port) s =
     (case subscribe target notify carg arg port (event_list e s) of
        (r, ls) \<Rightarrow> Some ((Some r, []), set_event_list e ls s))"
| "event_method (Unsubscribe e target notify port) s =
     (case unsubscribe target notify port (event_list e s) of
        (r, ls) \<Rightarrow> Some ((Some r, []), set_event_list e ls s))"
| "event_method (Unsubscribe_All e target notify) s = do {
     (r, ls) \<leftarrow> unsubscribe_all target notify (event_list e s);
     Some ((Some r, []), set_event_list e ls s)
   }"

subsection \<open>The contract\<close>

text \<open>
  For each event and target, the subscriptions in the order in which they were made, at
  most one for each receiver and port.
\<close>

type_synonym subscriptions = "event \<Rightarrow> bool \<times> u64 \<Rightarrow> notification_item list"

definition same_sub :: "capability \<Rightarrow> u64 \<Rightarrow> notification_item \<Rightarrow> bool" where
  "same_sub notify port i \<longleftrightarrow> ptr_eq (ni_notify i) notify \<and> ni_port i = port"

definition upd_subs :: "event \<Rightarrow> bool \<times> u64 \<Rightarrow> notification_item list \<Rightarrow> subscriptions \<Rightarrow> subscriptions" where
  "upd_subs e t is m = m(e := (m e)(t := is))"

fun event_spec :: "event_call \<Rightarrow> subscriptions \<Rightarrow> ((int option \<times> event_message list) \<times> subscriptions) option" where
  "event_spec (Notify e t) m = Some ((None, map (send_item t) (m e (ptr_key t))), upd_subs e (ptr_key t) [] m)"
| "event_spec (Subscribe e t n c a p) m =
     Some (if list_ex (same_sub n p) (m e (ptr_key t)) then ((Some SUBSCRIBE_ALREADY_SUBSCRIBED, []), m)
       else ((Some SUBSCRIBE_OK, []),
         upd_subs e (ptr_key t) (m e (ptr_key t) @ [\<lparr>ni_notify = n, ni_carg = c, ni_port = p, ni_arg = a\<rparr>]) m))"
| "event_spec (Unsubscribe e t n p) m =
     Some ((Some (if list_ex (same_sub n p) (m e (ptr_key t)) then SUBSCRIBE_OK else SUBSCRIBE_NOT_SUBSCRIBED), []),
       upd_subs e (ptr_key t) (filter (\<lambda>i. \<not> same_sub n p i) (m e (ptr_key t))) m)"
| "event_spec (Unsubscribe_All e t n) m =
     (if m e (ptr_key t) \<noteq> [] \<and> ptr_eq (ni_notify (last (m e (ptr_key t)))) n then None
      else Some ((Some SUBSCRIBE_OK, []), upd_subs e (ptr_key t) (filter (\<lambda>i. \<not> ptr_eq (ni_notify i) n) (m e (ptr_key t))) m))"

abbreviation target_key :: "notification_list \<Rightarrow> bool \<times> u64" where
  "target_key l \<equiv> ptr_key (nl_target l)"

definition subs_at :: "notification_list list \<Rightarrow> bool \<times> u64 \<Rightarrow> notification_item list" where
  "subs_at ls t = (case find (\<lambda>l. target_key l = t) ls of None \<Rightarrow> [] | Some l \<Rightarrow> nl_head l)"

definition event_subs :: "event_lists \<Rightarrow> subscriptions" where
  "event_subs s e = subs_at (event_list e s)"

definition subs_ok :: "notification_item list \<Rightarrow> bool" where
  "subs_ok is \<longleftrightarrow> distinct (map (\<lambda>i. (ptr_key (ni_notify i), ni_port i)) is)"

definition list_ok :: "notification_list list \<Rightarrow> bool" where
  "list_ok ls \<longleftrightarrow> distinct (map target_key ls) \<and> (\<forall>l \<in> set ls. subs_ok (nl_head l))"

definition events_ok :: "event_lists \<Rightarrow> bool" where
  "events_ok s \<longleftrightarrow> (\<forall>e. list_ok (event_list e s))"

subsection \<open>Finding a target\<close>

lemma target_cases:
  obtains (absent) "ptr_key t \<notin> target_key ` set ls"
  | (present) xs l ys where "ls = xs @ l # ys" "ptr_eq (nl_target l) t" "ptr_key t \<notin> target_key ` set xs"
proof (cases "ptr_key t \<in> target_key ` set ls")
  case True
  then have "\<exists>l \<in> set ls. ptr_eq (nl_target l) t" by auto
  from split_list_first_prop [OF this] show thesis by (auto intro!: present)
qed (rule absent)

lemma find_target_absent:
  "ptr_key t \<notin> target_key ` set ls \<Longrightarrow>
    find_target t ls c = (length ls, ls @ (if c then [\<lparr>nl_target = t, nl_head = []\<rparr>] else []))"
  by (induction ls) auto

lemma find_target_present:
  "ptr_key t \<notin> target_key ` set xs \<Longrightarrow> ptr_eq (nl_target l) t \<Longrightarrow> find_target t (xs @ l # ys) c = (length xs, xs @ l # ys)"
  by (induction xs) auto

lemma subs_at_absent: "ptr_key t \<notin> target_key ` set ls \<Longrightarrow> subs_at ls (ptr_key t) = []"
  by (induction ls) (auto simp: subs_at_def)

lemma subs_at_Cons: "subs_at (l # ls) k = (if target_key l = k then nl_head l else subs_at ls k)"
  by (simp add: subs_at_def)

lemma subs_at_middle:
  "target_key l \<notin> target_key ` set xs \<Longrightarrow>
    subs_at (xs @ l # ys) = (subs_at (xs @ ys))(target_key l := nl_head l)"
  by (induction xs) (auto simp: subs_at_Cons intro!: ext)

lemma subs_at_replace:
  assumes "ptr_key t \<notin> target_key ` set xs" "ptr_eq (nl_target l) t"
  shows "subs_at (xs @ l\<lparr>nl_head := is\<rparr> # ys) = (subs_at (xs @ l # ys))(ptr_key t := is)"
  using assms subs_at_middle [of l xs ys] subs_at_middle [of "l\<lparr>nl_head := is\<rparr>" xs ys] by simp

lemma subs_at_snoc:
  "ptr_key t \<notin> target_key ` set ls \<Longrightarrow> subs_at (ls @ [\<lparr>nl_target = t, nl_head = is\<rparr>]) = (subs_at ls)(ptr_key t := is)"
  using subs_at_middle [of "\<lparr>nl_target = t, nl_head = is\<rparr>" ls "[]"] by simp

lemma subs_at_delete:
  assumes "distinct (map target_key (xs @ l # ys))"
  shows "subs_at (xs @ ys) = (subs_at (xs @ l # ys))(target_key l := [])"
proof -
  have n: "target_key l \<notin> target_key ` set xs" "target_key l \<notin> target_key ` set (xs @ ys)" using assms by auto
  show ?thesis using subs_at_absent [OF n(2)] subs_at_middle [OF n(1), of ys] by (simp add: fun_eq_iff)
qed

lemma list_ok_replace:
  "list_ok (xs @ l # ys) \<Longrightarrow> subs_ok is \<Longrightarrow> list_ok (xs @ l\<lparr>nl_head := is\<rparr> # ys)"
  by (auto simp: list_ok_def)

lemma list_ok_snoc:
  "list_ok ls \<Longrightarrow> ptr_key t \<notin> target_key ` set ls \<Longrightarrow> subs_ok is \<Longrightarrow> list_ok (ls @ [\<lparr>nl_target = t, nl_head = is\<rparr>])"
  by (auto simp: list_ok_def)

lemma list_ok_delete: "list_ok (xs @ l # ys) \<Longrightarrow> list_ok (xs @ ys)"
  by (auto simp: list_ok_def)

lemma subs_ok_subs_at: "list_ok ls \<Longrightarrow> subs_ok (subs_at ls k)"
  by (induction ls) (auto simp: list_ok_def subs_at_Cons subs_ok_def subs_at_def)

subsection \<open>The methods on one list\<close>

lemma subscribe_loop_eq:
  "subscribe_loop new is =
     (if list_ex (same_sub (ni_notify new) (ni_port new)) is then (SUBSCRIBE_ALREADY_SUBSCRIBED, is)
      else (SUBSCRIBE_OK, is @ [new]))"
  by (induction "is") (auto simp: same_sub_def)

lemma unsubscribe_loop_eq:
  "subs_ok is \<Longrightarrow> unsubscribe_loop n p is =
     (if list_ex (same_sub n p) is then SUBSCRIBE_OK else SUBSCRIBE_NOT_SUBSCRIBED, filter (\<lambda>i. \<not> same_sub n p i) is)"
proof (induction "is")
  case (Cons i "is")
  have "filter (\<lambda>i. \<not> same_sub n p i) is = is" if "same_sub n p i"
    using Cons.prems that by (auto simp: filter_id_conv subs_ok_def same_sub_def image_iff)
  moreover have "subs_ok is" using Cons.prems by (simp add: subs_ok_def)
  ultimately show ?case using Cons.IH by (simp add: same_sub_def)
qed simp

lemma skip_items_eq: "skip_items n is = dropWhile (\<lambda>i. ptr_eq (ni_notify i) n) is"
  by (induction "is") auto

lemma last_skip: "dropWhile P xs = y # ys \<Longrightarrow> \<not> P y \<and> last xs = last (y # ys)"
  by (induction xs) (auto split: if_splits)

lemma filter_skip: "filter (\<lambda>i. f i \<noteq> n) (dropWhile (\<lambda>i. f i = n) is) = filter (\<lambda>i. f i \<noteq> n) is"
  by (induction "is") auto

lemma unsubscribe_all_loop_eq:
  "unsubscribe_all_loop n is =
     (if is \<noteq> [] \<and> ptr_eq (ni_notify (last is)) n then None else Some (filter (\<lambda>i. \<not> ptr_eq (ni_notify i) n) is))"
proof (induction n "is" rule: unsubscribe_all_loop.induct)
  case (2 n i "is")
  define js where "js = i # is"
  have f: "filter (\<lambda>i. \<not> ptr_eq (ni_notify i) n) js = filter (\<lambda>i. \<not> ptr_eq (ni_notify i) n) (skip_items n js)"
    by (simp add: skip_items_eq filter_skip)
  have u: "unsubscribe_all_loop n js =
      (case skip_items n js of [] \<Rightarrow> None | k # ks \<Rightarrow> map_option ((#) k) (unsubscribe_all_loop n ks))"
    by (simp only: js_def unsubscribe_all_loop.simps(2))
  have j: "js \<noteq> []" by (simp add: js_def)
  show ?case unfolding js_def [symmetric]
  proof (cases "skip_items n js")
    case Nil
    then have "\<forall>i \<in> set js. ptr_eq (ni_notify i) n" by (simp add: skip_items_eq)
    then show "unsubscribe_all_loop n js =
        (if js \<noteq> [] \<and> ptr_eq (ni_notify (last js)) n then None else Some (filter (\<lambda>i. \<not> ptr_eq (ni_notify i) n) js))"
      using Nil j u by simp
  next
    case (Cons k ks)
    have kl: "\<not> ptr_eq (ni_notify k) n" "last js = last (k # ks)"
      using last_skip [OF Cons [unfolded skip_items_eq]] by auto
    show "unsubscribe_all_loop n js =
        (if js \<noteq> [] \<and> ptr_eq (ni_notify (last js)) n then None else Some (filter (\<lambda>i. \<not> ptr_eq (ni_notify i) n) js))"
      using 2 [OF Cons [unfolded js_def]] kl j unfolding u f Cons by simp
  qed
qed simp

lemma subs_ok_snoc:
  "subs_ok is \<Longrightarrow> \<not> list_ex (same_sub (ni_notify i) (ni_port i)) is \<Longrightarrow> subs_ok (is @ [i])"
  by (auto simp: subs_ok_def same_sub_def list_ex_iff)

lemma subs_ok_filter: "subs_ok is \<Longrightarrow> subs_ok (filter P is)"
  by (simp add: subs_ok_def distinct_map_filter)

lemma subscribe_spec:
  assumes "list_ok ls" "subscribe t n c a p ls = (r, ls')"
  shows "list_ok ls'"
    "list_ex (same_sub n p) (subs_at ls (ptr_key t)) \<Longrightarrow> r = SUBSCRIBE_ALREADY_SUBSCRIBED \<and> subs_at ls' = subs_at ls"
    "\<not> list_ex (same_sub n p) (subs_at ls (ptr_key t)) \<Longrightarrow> r = SUBSCRIBE_OK \<and> subs_at ls' =
       (subs_at ls)(ptr_key t := subs_at ls (ptr_key t) @ [\<lparr>ni_notify = n, ni_carg = c, ni_port = p, ni_arg = a\<rparr>])"
proof -
  let ?i = "\<lparr>ni_notify = n, ni_carg = c, ni_port = p, ni_arg = a\<rparr>"
  have "list_ok ls' \<and> (if list_ex (same_sub n p) (subs_at ls (ptr_key t))
      then r = SUBSCRIBE_ALREADY_SUBSCRIBED \<and> subs_at ls' = subs_at ls
      else r = SUBSCRIBE_OK \<and> subs_at ls' = (subs_at ls)(ptr_key t := subs_at ls (ptr_key t) @ [?i]))"
  proof (cases t ls rule: target_cases)
    case absent
    then have "r = SUBSCRIBE_OK" "ls' = ls @ [\<lparr>nl_target = t, nl_head = [?i]\<rparr>]"
      using assms(2) by (auto simp: subscribe_def find_target_absent)
    then show ?thesis using absent assms(1) list_ok_snoc [of ls t "[?i]"]
      by (simp add: subs_at_snoc subs_at_absent subs_ok_def)
  next
    case (present xs l ys)
    have h: "subs_at ls (ptr_key t) = nl_head l" using present by (simp add: subs_at_middle)
    have so: "subs_ok (nl_head l)" using assms(1) present by (simp add: list_ok_def)
    show ?thesis
      using assms present h subs_ok_snoc [OF so, of ?i] list_ok_replace [of xs l ys "nl_head l @ [?i]"]
        subs_at_replace [of t xs l "nl_head l @ [?i]" ys]
      by (auto simp: subscribe_def find_target_present subscribe_loop_eq split: if_splits)
  qed
  then show "list_ok ls'"
    "list_ex (same_sub n p) (subs_at ls (ptr_key t)) \<Longrightarrow> r = SUBSCRIBE_ALREADY_SUBSCRIBED \<and> subs_at ls' = subs_at ls"
    "\<not> list_ex (same_sub n p) (subs_at ls (ptr_key t)) \<Longrightarrow> r = SUBSCRIBE_OK \<and> subs_at ls' = (subs_at ls)(ptr_key t := subs_at ls (ptr_key t) @ [?i])"
    by (simp_all split: if_splits)
qed

lemma unsubscribe_spec:
  assumes "list_ok ls" "unsubscribe t n p ls = (r, ls')"
  shows "list_ok ls' \<and> r = (if list_ex (same_sub n p) (subs_at ls (ptr_key t)) then SUBSCRIBE_OK else SUBSCRIBE_NOT_SUBSCRIBED)
    \<and> subs_at ls' = (subs_at ls)(ptr_key t := filter (\<lambda>i. \<not> same_sub n p i) (subs_at ls (ptr_key t)))"
proof (cases t ls rule: target_cases)
  case absent
  then show ?thesis using assms by (auto simp: unsubscribe_def find_target_absent subs_at_absent fun_upd_idem)
next
  case (present xs l ys)
  have h: "subs_at ls (ptr_key t) = nl_head l" using present by (simp add: subs_at_middle)
  have so: "subs_ok (nl_head l)" using assms(1) present by (simp add: list_ok_def)
  show ?thesis using assms present h so list_ok_replace [of xs l ys, OF _ subs_ok_filter [OF so]]
    by (auto simp: unsubscribe_def find_target_present unsubscribe_loop_eq subs_at_replace)
qed

lemma unsubscribe_all_spec:
  assumes "list_ok ls"
  shows "unsubscribe_all t n ls = None \<longleftrightarrow> subs_at ls (ptr_key t) \<noteq> [] \<and> ptr_eq (ni_notify (last (subs_at ls (ptr_key t)))) n"
    "unsubscribe_all t n ls = Some (r, ls') \<Longrightarrow> list_ok ls' \<and> r = SUBSCRIBE_OK \<and>
       subs_at ls' = (subs_at ls)(ptr_key t := filter (\<lambda>i. \<not> ptr_eq (ni_notify i) n) (subs_at ls (ptr_key t)))"
proof -
  have "unsubscribe_all t n ls = None \<and> subs_at ls (ptr_key t) \<noteq> [] \<and> ptr_eq (ni_notify (last (subs_at ls (ptr_key t)))) n \<or>
    \<not> (subs_at ls (ptr_key t) \<noteq> [] \<and> ptr_eq (ni_notify (last (subs_at ls (ptr_key t)))) n) \<and>
    (\<exists>ls'. unsubscribe_all t n ls = Some (SUBSCRIBE_OK, ls') \<and> list_ok ls' \<and>
       subs_at ls' = (subs_at ls)(ptr_key t := filter (\<lambda>i. \<not> ptr_eq (ni_notify i) n) (subs_at ls (ptr_key t))))"
  proof (cases t ls rule: target_cases)
    case absent
    then show ?thesis using assms by (simp add: unsubscribe_all_def find_target_absent subs_at_absent fun_upd_idem)
  next
    case (present xs l ys)
    have h: "subs_at ls (ptr_key t) = nl_head l" using present by (simp add: subs_at_middle)
    have so: "subs_ok (nl_head l)" using assms(1) present by (simp add: list_ok_def)
    show ?thesis using assms present h list_ok_replace [of xs l ys, OF _ subs_ok_filter [OF so]]
      by (auto simp: unsubscribe_all_def find_target_present unsubscribe_all_loop_eq subs_at_replace)
  qed
  then show "unsubscribe_all t n ls = None \<longleftrightarrow> subs_at ls (ptr_key t) \<noteq> [] \<and> ptr_eq (ni_notify (last (subs_at ls (ptr_key t)))) n"
    "unsubscribe_all t n ls = Some (r, ls') \<Longrightarrow> list_ok ls' \<and> r = SUBSCRIBE_OK \<and>
       subs_at ls' = (subs_at ls)(ptr_key t := filter (\<lambda>i. \<not> ptr_eq (ni_notify i) n) (subs_at ls (ptr_key t)))"
    by auto
qed

lemma notify_all_spec:
  assumes "list_ok ls" "notify_all t ls True = (ms, ls')"
  shows "list_ok ls' \<and> ms = map (send_item t) (subs_at ls (ptr_key t)) \<and> subs_at ls' = (subs_at ls)(ptr_key t := [])"
proof (cases t ls rule: target_cases)
  case absent
  then show ?thesis using assms by (auto simp: notify_all_def find_target_absent subs_at_absent fun_upd_idem)
next
  case (present xs l ys)
  have "ls' = xs @ ys" "ms = map (send_item t) (nl_head l)"
    using assms(2) present by (auto simp: notify_all_def find_target_present)
  then show ?thesis using assms(1) present list_ok_delete [of xs l ys] subs_at_delete [of xs l ys]
    by (simp add: subs_at_middle list_ok_def)
qed

subsection \<open>The service\<close>

lemma event_list_set: "event_list e (set_event_list f ls s) = (if e = f then ls else event_list e s)"
  by (cases e; cases f) auto

lemma event_once_True [simp]: "event_once e"
  by (cases e) auto

lemma events_ok_set: "events_ok s \<Longrightarrow> list_ok ls \<Longrightarrow> events_ok (set_event_list e ls s)"
  by (simp add: events_ok_def event_list_set)

lemma event_subs_set:
  "subs_at ls = (subs_at (event_list e s))(t := is) \<Longrightarrow>
    event_subs (set_event_list e ls s) = upd_subs e t is (event_subs s)"
  by (auto simp: fun_eq_iff event_subs_def upd_subs_def event_list_set)

lemma event_subs_same:
  "subs_at ls = subs_at (event_list e s) \<Longrightarrow> event_subs (set_event_list e ls s) = event_subs s"
  by (auto simp: fun_eq_iff event_subs_def event_list_set)

lemma event_method_simulates:
  assumes "events_ok s"
  shows "map_option (apsnd event_subs) (event_method x s) = event_spec x (event_subs s)"
    "event_method x s = Some (r, s') \<Longrightarrow> events_ok s'"
proof -
  have l: "list_ok (event_list e s)" for e using assms by (simp add: events_ok_def)
  have e: "event_subs s e = subs_at (event_list e s)" for e by (simp add: event_subs_def)
  have "map_option (apsnd event_subs) (event_method x s) = event_spec x (event_subs s) \<and>
    (\<forall>r s'. event_method x s = Some (r, s') \<longrightarrow> events_ok s')"
  proof (cases x)
    case (Notify f t)
    then show ?thesis using notify_all_spec [OF l, of t f] assms
      by (cases "notify_all t (event_list f s) True") (auto simp: e events_ok_set event_subs_set)
  next
    case (Subscribe f t n c a p)
    then show ?thesis using subscribe_spec [OF l, of t n c a p f] assms
      by (cases "subscribe t n c a p (event_list f s)")
        (auto simp: e events_ok_set event_subs_set event_subs_same)
  next
    case (Unsubscribe f t n p)
    then show ?thesis using unsubscribe_spec [OF l, of t n p f] assms
      by (cases "unsubscribe t n p (event_list f s)") (auto simp: e events_ok_set event_subs_set)
  next
    case (Unsubscribe_All f t n)
    then show ?thesis using unsubscribe_all_spec [OF l, of t n f] assms
      by (cases "unsubscribe_all t n (event_list f s)") (auto simp: e events_ok_set event_subs_set)
  qed
  then show "map_option (apsnd event_subs) (event_method x s) = event_spec x (event_subs s)"
    "event_method x s = Some (r, s') \<Longrightarrow> events_ok s'" by auto
qed

interpretation ev: service event_method event_spec events_ok event_subs "\<lambda>_. True"
  by unfold_locales (auto simp: event_method_simulates)

lemma event_list_init [simp]: "event_list e events_init = []"
  by (cases e) (auto simp: events_init_def)

lemma events_init_ok: "events_ok events_init"
  by (simp add: events_ok_def list_ok_def)

lemma event_subs_init: "event_subs events_init = (\<lambda>_ _. [])"
  by (intro ext) (simp add: event_subs_def subs_at_def)

text \<open>
  C25. For every sequence of requests from start-up, the event service returns and sends
  exactly what the contract says: a notification sends one message to each subscriber of the
  target, in the order of subscription, and ends the subscriptions; subscribing twice and
  unsubscribing without a subscription are reported. It traps exactly when \<open>unsubscribe_all\<close>
  is called for the receiver of the last subscription of a target.
\<close>

theorem events_refine:
  "map_option fst (run_service event_method xs events_init) = map_option fst (run_service event_spec xs (\<lambda>_ _. []))"
proof -
  have "map_option (apsnd event_subs) (run_service event_method xs events_init) = run_service event_spec xs (\<lambda>_ _. [])"
    using ev.run_simulates [OF events_init_ok, of xs] by (simp add: event_subs_init list_all_iff)
  from this [symmetric] show ?thesis by (simp add: option.map_comp comp_def)
qed

end
