(* ===== verification/C_String.thy ===== *)
theory C_String
  imports Prelude
begin

text \<open>
  The string functions of the C library that the name space uses
  (\<open>libcrt/libc/strchr.c\<close>, \<open>freebsd_ports/strrchr.c\<close>, \<open>strncpy.c\<close>, \<open>strcmp.c\<close>). A pointer is
  the list of the characters from it to the end of the bounds of its capability; None is
  an access outside of them. A function that returns a pointer into its argument returns
  the offset, or None for NULL. The lemmas give each of them on a terminated string.
\<close>

abbreviation NUL :: char where "NUL \<equiv> CHR 0x00"

fun strchr :: "char list \<Rightarrow> char \<Rightarrow> nat option option" where
  "strchr [] c = None"
| "strchr (x # s) c =
     (if x \<noteq> NUL \<and> x \<noteq> c then map_option (map_option Suc) (strchr s c)
      else Some (if x = NUL then None else Some 0))"

fun strrchr_loop :: "char list \<Rightarrow> char \<Rightarrow> nat \<Rightarrow> nat option \<Rightarrow> nat option option" where
  "strrchr_loop [] ch p save = None"
| "strrchr_loop (x # s) ch p save =
     (let save = if x = ch then Some p else save
      in if x = NUL then Some save else strrchr_loop s ch (Suc p) save)"

definition strrchr :: "char list \<Rightarrow> char \<Rightarrow> nat option option" where
  "strrchr cp ch = strrchr_loop cp ch 0 None"

text \<open>\<open>strncpy\<close> returns the bytes of the destination after the copy.\<close>

fun strncpy_pad :: "char list \<Rightarrow> nat \<Rightarrow> char list option" where
  "strncpy_pad d 0 = Some d"
| "strncpy_pad [] (Suc n) = None"
| "strncpy_pad (_ # d) (Suc n) = map_option ((#) NUL) (strncpy_pad d n)"

fun strncpy :: "char list \<Rightarrow> char list \<Rightarrow> nat \<Rightarrow> char list option" where
  "strncpy d s 0 = Some d"
| "strncpy (_ # d) (x # s) (Suc n) =
     map_option ((#) x) (if x = NUL then strncpy_pad d n else strncpy d s n)"
| "strncpy _ _ (Suc n) = None"

fun strncmp :: "char list \<Rightarrow> char list \<Rightarrow> u64 \<Rightarrow> int option" where
  "strncmp (x # cs) (y # ct) count =
     (if x = y then (if x = NUL \<or> count - 1 = 0 then Some 0 else strncmp cs ct (count - 1))
      else Some (of_char x - of_char y))"
| "strncmp _ _ count = None"

lemma strchr_eq:
  "NUL \<notin> set s \<Longrightarrow> c \<noteq> NUL \<Longrightarrow>
    strchr (s @ NUL # r) c = Some (if c \<in> set s then Some (length (takeWhile (\<lambda>x. x \<noteq> c) s)) else None)"
  by (induction s) auto

lemma takeWhile_less: "c \<in> set s \<Longrightarrow> length (takeWhile (\<lambda>x. x \<noteq> c) s) < length s"
  by (induction s) auto

lemma take_takeWhile: "take (length (takeWhile P s)) s = takeWhile P s"
  by (induction s) auto

lemma strrchr_loop_eq:
  "NUL \<notin> set s \<Longrightarrow> c \<noteq> NUL \<Longrightarrow> strrchr_loop (s @ NUL # r) c p save =
    Some (if c \<in> set s then Some (p + (length s - Suc (length (takeWhile (\<lambda>x. x \<noteq> c) (rev s))))) else save)"
proof (induction s arbitrary: p save)
  case (Cons x s)
  have t: "takeWhile (\<lambda>x. x \<noteq> c) (rev s @ [x]) = (if c \<in> set s then takeWhile (\<lambda>x. x \<noteq> c) (rev s)
      else rev s @ (if x = c then [] else [x]))"
    by (auto simp: takeWhile_append)
  have "Suc (length (takeWhile (\<lambda>x. x \<noteq> c) (rev s))) \<le> length s" if "c \<in> set s"
    using that takeWhile_less [of c "rev s"] by simp
  then show ?case using Cons t by (auto simp: Let_def)
qed auto

lemma strncpy_pad_eq: "n \<le> length d \<Longrightarrow> strncpy_pad d n = Some (replicate n NUL @ drop n d)"
  by (induction d n rule: strncpy_pad.induct) auto

text \<open>A copy of at most the length of the string is its prefix; a longer one is padded.\<close>

lemma strncpy_eq:
  "NUL \<notin> set s \<Longrightarrow> n \<le> length d \<Longrightarrow>
    strncpy d (s @ NUL # r) n = Some (take n s @ replicate (n - length s) NUL @ drop n d)"
proof (induction s arbitrary: n d)
  case Nil
  then show ?case by (cases n; cases d) (auto simp: strncpy_pad_eq)
next
  case (Cons x s)
  then show ?case by (cases n; cases d) auto
qed

lemma strncpy_short: "NUL \<notin> set s \<Longrightarrow> length d < n \<Longrightarrow> n \<le> length s \<Longrightarrow> strncpy d (s @ r) n = None"
proof (induction s arbitrary: n d)
  case (Cons x s)
  then show ?case by (cases n; cases d) auto
qed simp

lemma of_char_NUL: "(of_char a :: int) = 0 \<longleftrightarrow> a = NUL"
  using of_char_eq_iff [of a NUL, where ?'a = int] by simp

text \<open>Comparing a terminated string with the first \<open>n\<close> characters of another, zero padded, for \<open>n > 0\<close>.\<close>

lemma strncmp_eq:
  "NUL \<notin> set s \<Longrightarrow> NUL \<notin> set t \<Longrightarrow> 0 < n \<Longrightarrow> n < 2 ^ 64 \<Longrightarrow>
    \<exists>k. strncmp (s @ NUL # r) (take n t @ replicate (n - length t) NUL) (of_nat n) = Some k \<and> (k = 0 \<longleftrightarrow> take n s = take n t)"
proof (induction s arbitrary: n t)
  case Nil
  then obtain m where m: "n = Suc m" by (cases n) auto
  show ?case
    by (cases t) (use Nil.prems m in \<open>auto simp: of_char_eq_iff of_char_NUL\<close>)
next
  case (Cons x s)
  then obtain m where m: "n = Suc m" by (cases n) auto
  have w: "(of_nat n :: u64) - 1 = of_nat m" using m by simp
  have z: "(of_nat m :: u64) = 0 \<longleftrightarrow> m = 0"
    using Cons.prems m by (auto simp: word_of_nat_eq_0_iff dest: dvd_imp_le)
  show ?case
  proof (cases t)
    case Nil
    then show ?thesis using Cons.prems m by (auto simp: of_char_eq_iff of_char_NUL)
  next
    case t: (Cons y t)
    show ?thesis
    proof (cases "x = y \<and> m \<noteq> 0")
      case True
      then show ?thesis using Cons.IH [of t m] Cons.prems t m w z by auto
    next
      case False
      then show ?thesis using Cons.prems t m w z by (auto simp: of_char_eq_iff of_char_NUL)
    qed
  qed
qed

end
