(* ===== verification/Namespace.thy ===== *)
theory Namespace
  imports C_String Service
begin

text \<open>
  The name space (\<open>cherios/core/namespace/src/namespace.c\<close>): the table of numbered
  services, the foundation ids and the services registered by name. Strings of callers are
  terminated; the check of a certificate, an operation of the nanokernel, is a parameter
  that returns the foundation id and the code word of the certificate, or None when it
  traps. The contract is a directory: numbered services are bound once, foundation ids are
  the last ones registered and names are looked up by their base name without extension,
  cut at \<open>MAX_NAME_LENGTH\<close> characters.
\<close>

definition BIND_LEN :: nat where "BIND_LEN = 0x80"
definition DYNAMIC_BINDS :: nat where "DYNAMIC_BINDS = 0x10"
definition MAX_NAME_LENGTH :: nat where "MAX_NAME_LENGTH = 0x30"
definition num_memmgt :: int where "num_memmgt = 4"

record dynamic_bind_t =
  db_act_reference :: capability
  db_name :: "char list"

record 'id ns_state =
  namespace_ref :: capability
  mmap_act :: capability
  bind_refs :: "capability list"
  ids :: "'id option list"
  ns_count :: int
  dy_count :: nat
  dy_binds :: "dynamic_bind_t list"

text \<open>The state before \<open>ns_init\<close>: static data is zero.\<close>

definition ns_zero :: "'id ns_state" where
  "ns_zero = \<lparr>namespace_ref = CNull, mmap_act = CNull, bind_refs = replicate BIND_LEN CNull,
     ids = replicate BIND_LEN None, ns_count = 0, dy_count = 0,
     dy_binds = replicate DYNAMIC_BINDS \<lparr>db_act_reference = CNull, db_name = replicate MAX_NAME_LENGTH NUL\<rparr>\<rparr>"

definition ns_init :: "capability \<Rightarrow> 'id ns_state \<Rightarrow> 'id ns_state" where
  "ns_init act_self_ref s =
     s\<lparr>namespace_ref := act_self_ref, bind_refs := replicate BIND_LEN CNull, ns_count := 0\<rparr>"

definition validate_idx :: "int \<Rightarrow> int" where
  "validate_idx nb = (if nb < 0 then -1 else if nb \<ge> int BIND_LEN then -1 else 0)"

definition validate_act_caps :: "capability \<Rightarrow> int" where
  "validate_act_caps c = (if \<not> cheri_gettag c then -2 else if cap_otype c = None then -3 else 0)"

definition ns_get_reference :: "int \<Rightarrow> 'id ns_state \<Rightarrow> capability" where
  "ns_get_reference nb s = (if validate_idx nb \<noteq> 0 then CNull else bind_refs s ! nat nb)"

definition ns_register_core :: "int \<Rightarrow> capability \<Rightarrow> 'id ns_state \<Rightarrow> int \<times> 'id ns_state" where
  "ns_register_core nb act_reference s =
     (if bind_refs s ! nat nb \<noteq> CNull then (-4, s)
      else (let s = s\<lparr>bind_refs := (bind_refs s)[nat nb := act_reference]\<rparr>;
                s = (if nb = num_memmgt then s\<lparr>mmap_act := act_reference\<rparr> else s)
            in (0, s\<lparr>ns_count := ns_count s + 1\<rparr>)))"

definition ns_register :: "int \<Rightarrow> capability \<Rightarrow> 'id ns_state \<Rightarrow> int \<times> 'id ns_state" where
  "ns_register nb act_reference s =
     (let ret = validate_idx nb
      in if ret \<noteq> 0 then (ret, s)
         else (let ret = validate_act_caps act_reference
               in if ret \<noteq> 0 then (ret, s) else ns_register_core nb act_reference s))"

definition ns_get_num_services :: "'id ns_state \<Rightarrow> int" where
  "ns_get_num_services s = ns_count s"

definition ns_register_found_id :: "('cert \<Rightarrow> ('id option \<times> u64) option) \<Rightarrow> 'cert \<Rightarrow> 'id ns_state
    \<Rightarrow> (int \<times> 'id ns_state) option" where
  "ns_register_found_id rescap_check_cert cert s = do {
     (fid, code) \<leftarrow> rescap_check_cert cert;
     let nb = sint (ucast code :: u32);
     if fid = None \<or> validate_idx nb \<noteq> 0 then Some (-1, s)
     else Some (0, s\<lparr>ids := (ids s)[nat nb := fid]\<rparr>)
   }"

definition ns_get_found_id :: "int \<Rightarrow> 'id ns_state \<Rightarrow> 'id option" where
  "ns_get_found_id nb s = (if validate_idx nb \<noteq> 0 then None else ids s ! nat nb)"

text \<open>
  The result of \<open>normalise_name\<close> is the string at the pointer that it returns, which is
  in the name or in the buffer of the caller.
\<close>

definition normalise_name :: "char list \<Rightarrow> char list \<Rightarrow> char list option" where
  "normalise_name name tmp_buf = do {
     end_ptr \<leftarrow> strrchr name (CHR ''/'');
     let name = (case end_ptr of Some k \<Rightarrow> drop (k + 1) name | None \<Rightarrow> name);
     ext \<leftarrow> strchr name (CHR ''.'');
     case ext of
       None \<Rightarrow> Some name
     | Some k \<Rightarrow> do {
         tmp_buf \<leftarrow> strncpy tmp_buf name k;
         kassert (k < length tmp_buf);
         Some (tmp_buf[k := NUL])
       }
   }"

definition ns_register_name :: "char list \<Rightarrow> char list \<Rightarrow> capability \<Rightarrow> 'id ns_state \<Rightarrow> (int \<times> 'id ns_state) option" where
  "ns_register_name tmp name ref s =
     (if dy_count s = DYNAMIC_BINDS then Some (-1, s)
      else do {
        norm \<leftarrow> normalise_name name tmp;
        let k = dy_count s;
        name \<leftarrow> strncpy (db_name (dy_binds s ! k)) norm MAX_NAME_LENGTH;
        Some (0, s\<lparr>dy_count := k + 1, dy_binds := (dy_binds s)[k := \<lparr>db_act_reference = ref, db_name = name\<rparr>]\<rparr>)
      })"

fun lookup_loop :: "char list \<Rightarrow> dynamic_bind_t list \<Rightarrow> capability option" where
  "lookup_loop name [] = Some CNull"
| "lookup_loop name (b # bs) = do {
     c \<leftarrow> strncmp name (db_name b) (of_nat MAX_NAME_LENGTH);
     if c = 0 then Some (db_act_reference b) else lookup_loop name bs
   }"

definition ns_get_ref_by_name :: "char list \<Rightarrow> char list \<Rightarrow> 'id ns_state \<Rightarrow> capability option" where
  "ns_get_ref_by_name tmp name s = do {
     norm \<leftarrow> normalise_name name tmp;
     lookup_loop norm (take (dy_count s) (dy_binds s))
   }"

text \<open>The methods of the service. The buffer on the stack holds arbitrary bytes.\<close>

datatype ('cert, 'id) ns_call =
    Register int capability
  | Get_Reference int
  | Get_Num_Services
  | Get_Found_Id int
  | Register_Found_Id 'cert
  | Register_Name string capability
  | Get_Ref_By_Name string

datatype 'id ns_reply = Code int | Reference capability | Found "'id option"

fun ns_method :: "('cert \<Rightarrow> ('id option \<times> u64) option) \<Rightarrow> char list \<Rightarrow> ('cert, 'id) ns_call \<Rightarrow> 'id ns_state
    \<Rightarrow> ('id ns_reply \<times> 'id ns_state) option" where
  "ns_method cc tmp (Register nb ref) s = Some (apfst Code (ns_register nb ref s))"
| "ns_method cc tmp (Get_Reference nb) s = Some (Reference (ns_get_reference nb s), s)"
| "ns_method cc tmp Get_Num_Services s = Some (Code (ns_get_num_services s), s)"
| "ns_method cc tmp (Get_Found_Id nb) s = Some (Found (ns_get_found_id nb s), s)"
| "ns_method cc tmp (Register_Found_Id cert) s = map_option (apfst Code) (ns_register_found_id cc cert s)"
| "ns_method cc tmp (Register_Name name ref) s = map_option (apfst Code) (ns_register_name tmp (name @ [NUL]) ref s)"
| "ns_method cc tmp (Get_Ref_By_Name name) s =
     map_option (\<lambda>c. (Reference c, s)) (ns_get_ref_by_name tmp (name @ [NUL]) s)"

subsection \<open>The contract\<close>

record 'id directory =
  services :: "int \<rightharpoonup> capability"
  found_ids :: "int \<rightharpoonup> 'id"
  names :: "(string \<times> capability) list"

definition base_name :: "string \<Rightarrow> string" where
  "base_name s = rev (takeWhile (\<lambda>x. x \<noteq> CHR ''/'') (rev s))"

definition stem :: "string \<Rightarrow> string" where
  "stem s = takeWhile (\<lambda>x. x \<noteq> CHR ''.'') (base_name s)"

definition too_long :: "string \<Rightarrow> bool" where
  "too_long s \<longleftrightarrow> CHR ''.'' \<in> set (base_name s) \<and> length (stem s) > MAX_NAME_LENGTH"

definition key :: "string \<Rightarrow> string" where
  "key s = take MAX_NAME_LENGTH (stem s)"

definition in_range :: "int \<Rightarrow> bool" where
  "in_range nb \<longleftrightarrow> 0 \<le> nb \<and> nb < 128"

fun dir_step :: "('cert \<Rightarrow> ('id option \<times> u64) option) \<Rightarrow> ('cert, 'id) ns_call \<Rightarrow> 'id directory
    \<Rightarrow> ('id ns_reply \<times> 'id directory) option" where
  "dir_step cc (Register nb ref) d = Some
     (if \<not> in_range nb then (Code (-1), d)
      else if \<not> cheri_gettag ref then (Code (-2), d)
      else if cap_otype ref = None then (Code (-3), d)
      else if nb \<in> dom (services d) then (Code (-4), d)
      else (Code 0, d\<lparr>services := (services d)(nb \<mapsto> ref)\<rparr>))"
| "dir_step cc (Get_Reference nb) d =
     Some (Reference (case services d nb of None \<Rightarrow> CNull | Some c \<Rightarrow> c), d)"
| "dir_step cc Get_Num_Services d = Some (Code (int (card (dom (services d)))), d)"
| "dir_step cc (Get_Found_Id nb) d = Some (Found (found_ids d nb), d)"
| "dir_step cc (Register_Found_Id cert) d =
     (case cc cert of
        None \<Rightarrow> None
      | Some (fid, code) \<Rightarrow> Some
          (let nb = sint (ucast code :: u32)
           in if fid = None \<or> \<not> in_range nb then (Code (-1), d)
              else (Code 0, d\<lparr>found_ids := (found_ids d)(nb := fid)\<rparr>)))"
| "dir_step cc (Register_Name name ref) d =
     (if length (names d) = 16 then Some (Code (-1), d)
      else if too_long name then None
      else Some (Code 0, d\<lparr>names := names d @ [(key name, ref)]\<rparr>))"
| "dir_step cc (Get_Ref_By_Name name) d =
     (if too_long name then None
      else Some (Reference (case map_of (names d) (key name) of None \<Rightarrow> CNull | Some c \<Rightarrow> c), d))"

definition ns_services :: "'id ns_state \<Rightarrow> int \<rightharpoonup> capability" where
  "ns_services s nb = (if in_range nb \<and> bind_refs s ! nat nb \<noteq> CNull then Some (bind_refs s ! nat nb) else None)"

definition ns_ids :: "'id ns_state \<Rightarrow> int \<rightharpoonup> 'id" where
  "ns_ids s nb = (if in_range nb then ids s ! nat nb else None)"

definition bound_name :: "dynamic_bind_t \<Rightarrow> string" where
  "bound_name b = takeWhile (\<lambda>x. x \<noteq> NUL) (db_name b)"

definition ns_names :: "'id ns_state \<Rightarrow> (string \<times> capability) list" where
  "ns_names s = map (\<lambda>b. (bound_name b, db_act_reference b)) (take (dy_count s) (dy_binds s))"

definition ns_directory :: "'id ns_state \<Rightarrow> 'id directory" where
  "ns_directory s = \<lparr>services = ns_services s, found_ids = ns_ids s, names = ns_names s\<rparr>"

definition padded :: "string \<Rightarrow> char list" where
  "padded k = take 48 k @ replicate (48 - length k) NUL"

definition name_ok :: "dynamic_bind_t \<Rightarrow> bool" where
  "name_ok b \<longleftrightarrow> db_name b = padded (bound_name b) \<and> length (bound_name b) \<le> 48"

definition ns_ok :: "'id ns_state \<Rightarrow> bool" where
  "ns_ok s \<longleftrightarrow> length (bind_refs s) = 128 \<and> length (ids s) = 128 \<and> length (dy_binds s) = 16 \<and>
     dy_count s \<le> 16 \<and> ns_count s = int (card (dom (ns_services s))) \<and>
     list_all name_ok (take (dy_count s) (dy_binds s)) \<and> list_all (\<lambda>b. length (db_name b) = 48) (dy_binds s)"

lemmas ns_consts = BIND_LEN_def DYNAMIC_BINDS_def MAX_NAME_LENGTH_def

subsection \<open>Names\<close>

lemma base_name_set: "NUL \<notin> set s \<Longrightarrow> NUL \<notin> set (base_name s)"
  by (auto simp: base_name_def dest: set_takeWhileD)

lemma stem_set: "NUL \<notin> set s \<Longrightarrow> NUL \<notin> set (stem s)"
  using base_name_set [of s] by (auto simp: stem_def dest: set_takeWhileD)

lemma strrchr_base:
  assumes "NUL \<notin> set s"
  shows "\<exists>e. strrchr (s @ [NUL]) (CHR ''/'') = Some e \<and>
    (case e of Some k \<Rightarrow> drop (k + 1) (s @ [NUL]) | None \<Rightarrow> s @ [NUL]) = base_name s @ [NUL]"
proof (cases "CHR ''/'' \<in> set s")
  case True
  let ?n = "length (takeWhile (\<lambda>x. x \<noteq> CHR ''/'') (rev s))"
  have n: "?n < length s" using True takeWhile_less [of "CHR ''/''" "rev s"] by simp
  have "base_name s = rev (take ?n (rev s))" by (simp add: base_name_def take_takeWhile)
  then have "base_name s = drop (length s - ?n) s" by (simp add: rev_take)
  moreover have "Suc (length s - Suc ?n) = length s - ?n" using n by simp
  ultimately show ?thesis using True assms by (simp add: strrchr_def strrchr_loop_eq)
next
  case False
  then have "takeWhile (\<lambda>x. x \<noteq> CHR ''/'') (rev s) = rev s" by (auto simp: takeWhile_eq_all_conv)
  then have "base_name s = s" unfolding base_name_def by (metis rev_rev_ident)
  with False assms show ?thesis by (simp add: strrchr_def strrchr_loop_eq)
qed

lemma normalise_name_eq:
  assumes "NUL \<notin> set s" "length tmp = 49"
  shows "too_long s \<Longrightarrow> normalise_name (s @ [NUL]) tmp = None"
    and "\<not> too_long s \<Longrightarrow> \<exists>r. normalise_name (s @ [NUL]) tmp = Some (stem s @ NUL # r)"
proof -
  let ?b = "base_name s" and ?k = "length (stem s)"
  obtain e where e: "strrchr (s @ [NUL]) (CHR ''/'') = Some e"
    "(case e of Some k \<Rightarrow> drop (k + 1) (s @ [NUL]) | None \<Rightarrow> s @ [NUL]) = ?b @ [NUL]"
    using strrchr_base [OF assms(1)] by auto
  note b = base_name_set [OF assms(1)]
  have c: "strchr (?b @ [NUL]) (CHR ''.'') = Some (if CHR ''.'' \<in> set ?b then Some ?k else None)"
    using strchr_eq [OF b, of "CHR ''.''" "[]"] by (simp add: stem_def)
  have k: "?k \<le> length ?b" "take ?k ?b = stem s"
    by (simp_all add: stem_def length_takeWhile_le take_takeWhile)
  have n: "normalise_name (s @ [NUL]) tmp =
    (if CHR ''.'' \<in> set ?b then do { t \<leftarrow> strncpy tmp (?b @ [NUL]) ?k; kassert (?k < length t); Some (t[?k := NUL]) }
     else Some (?b @ [NUL]))"
    using e c by (simp add: normalise_name_def)
  have t: "strncpy tmp (?b @ [NUL]) ?k = Some (stem s @ drop ?k tmp)" if "?k \<le> 49"
    using strncpy_eq [OF b, of ?k tmp "[]"] that assms(2) k by simp
  show "normalise_name (s @ [NUL]) tmp = None" if "too_long s"
  proof (cases "?k = 49")
    case True
    then show ?thesis using n t that assms(2) by (simp add: too_long_def)
  next
    case False
    then show ?thesis using that n strncpy_short [OF b, of tmp ?k "[NUL]"] assms(2) k
      by (simp add: too_long_def ns_consts)
  qed
  show "\<exists>r. normalise_name (s @ [NUL]) tmp = Some (stem s @ NUL # r)" if "\<not> too_long s"
  proof (cases "CHR ''.'' \<in> set ?b")
    case True
    with that have "?k \<le> 48" by (simp add: too_long_def ns_consts)
    then have "(stem s @ drop ?k tmp)[?k := NUL] = stem s @ NUL # drop (Suc ?k) tmp"
      using assms(2) by (simp add: list_update_append Cons_nth_drop_Suc [symmetric])
    then show ?thesis using True n t \<open>?k \<le> 48\<close> assms(2) by simp
  next
    case False
    then have "stem s = ?b" by (auto simp: stem_def takeWhile_eq_all_conv)
    then show ?thesis using n False by simp
  qed
qed

subsection \<open>The methods\<close>

lemma validate_idx_eq: "validate_idx nb = 0 \<longleftrightarrow> in_range nb" "validate_idx nb \<noteq> 0 \<Longrightarrow> validate_idx nb = -1"
  by (auto simp: validate_idx_def in_range_def ns_consts split: if_splits)

lemma ns_services_cong: "bind_refs s' = bind_refs s \<Longrightarrow> ns_services s' = ns_services s"
  by (simp add: ns_services_def fun_eq_iff)

lemma finite_services: "finite (dom (ns_services s))"
  by (rule finite_subset [of _ "{0..<128}"]) (auto simp: ns_services_def in_range_def split: if_splits)

lemma ns_services_update:
  assumes "length (bind_refs s) = 128" "in_range nb" "c \<noteq> CNull"
    "bind_refs s' = (bind_refs s)[nat nb := c]"
  shows "ns_services s' = (ns_services s)(nb \<mapsto> c)"
  using assms by (auto simp: ns_services_def in_range_def fun_eq_iff nth_list_update split: if_splits)

lemma ns_register_spec:
  assumes "ns_ok s"
  shows "apsnd ns_directory (apfst Code (ns_register nb ref s)) = the (dir_step cc (Register nb ref) (ns_directory s))"
    and "ns_ok (snd (ns_register nb ref s))"
proof -
  have v: "ns_services s nb \<noteq> None \<longleftrightarrow> bind_refs s ! nat nb \<noteq> CNull" if "in_range nb"
    using that by (simp add: ns_services_def)
  let ?s = "snd (ns_register_core nb ref s)"
  have f: "ids ?s = ids s" "dy_count ?s = dy_count s" "dy_binds ?s = dy_binds s"
    by (simp_all add: ns_register_core_def Let_def)
  have u: "fst (ns_register_core nb ref s) = 0" "ns_services ?s = (ns_services s)(nb \<mapsto> ref)"
    "length (bind_refs ?s) = 128" "ns_count ?s = int (card (dom (ns_services ?s)))"
    if "in_range nb" "ref \<noteq> CNull" "ns_services s nb = None"
  proof -
    have b: "bind_refs ?s = (bind_refs s)[nat nb := ref]" "ns_count ?s = ns_count s + 1"
      using v that by (auto simp: ns_register_core_def Let_def)
    show "fst (ns_register_core nb ref s) = 0" using v that by (auto simp: ns_register_core_def Let_def)
    show sv: "ns_services ?s = (ns_services s)(nb \<mapsto> ref)"
      using ns_services_update [of s nb ref ?s] assms that b by (simp add: ns_ok_def)
    show "length (bind_refs ?s) = 128" using assms b by (simp add: ns_ok_def)
    have "nb \<notin> dom (ns_services s)" using that by auto
    then show "ns_count ?s = int (card (dom (ns_services ?s)))"
      using assms b sv finite_services [of s] by (simp add: ns_ok_def)
  qed
  have e: "ns_register_core nb ref s = (-4, s)" if "in_range nb" "ns_services s nb \<noteq> None"
    using v that by (auto simp: ns_register_core_def)
  have "apsnd ns_directory (apfst Code (ns_register nb ref s)) = the (dir_step cc (Register nb ref) (ns_directory s)) \<and>
    ns_ok (snd (ns_register nb ref s))"
  proof (cases "in_range nb \<and> cheri_gettag ref \<and> cap_otype ref \<noteq> None")
    case True
    then have r: "ns_register nb ref s = ns_register_core nb ref s"
      by (auto simp: ns_register_def validate_idx_eq validate_act_caps_def)
    show ?thesis
    proof (cases "ns_services s nb")
      case None
      have nn: "ref \<noteq> CNull" using True by auto
      obtain t where t: "ns_register_core nb ref s = (0, t)"
        using u(1) True None nn by (metis prod.collapse)
      show ?thesis using r t u f None True nn assms
        by (auto simp: ns_directory_def ns_ids_def ns_names_def ns_ok_def dom_def)
    next
      case (Some c)
      then show ?thesis using r e True assms by (auto simp: ns_directory_def)
    qed
  next
    case False
    then show ?thesis using assms validate_idx_eq [of nb]
      by (auto simp: ns_register_def validate_act_caps_def Let_def)
  qed
  then show "apsnd ns_directory (apfst Code (ns_register nb ref s)) = the (dir_step cc (Register nb ref) (ns_directory s))"
    "ns_ok (snd (ns_register nb ref s))" by auto
qed

lemma ns_register_found_id_spec:
  assumes "ns_ok s"
  shows "map_option (apsnd ns_directory) (map_option (apfst Code) (ns_register_found_id cc cert s)) =
      dir_step cc (Register_Found_Id cert) (ns_directory s)"
    and "ns_register_found_id cc cert s = Some (r, s') \<Longrightarrow> ns_ok s'"
proof -
  have u: "ns_ids (s\<lparr>ids := (ids s)[nat nb := fid]\<rparr>) = (ns_ids s)(nb := fid)" if "in_range nb" for nb fid
    using assms that by (auto simp: ns_ids_def ns_ok_def in_range_def fun_eq_iff nth_list_update)
  have o: "ns_ok (s\<lparr>ids := (ids s)[nat nb := fid]\<rparr>)" for nb fid
    using assms ns_services_cong [of "s\<lparr>ids := (ids s)[nat nb := fid]\<rparr>" s] by (simp add: ns_ok_def)
  show "map_option (apsnd ns_directory) (map_option (apfst Code) (ns_register_found_id cc cert s)) =
      dir_step cc (Register_Found_Id cert) (ns_directory s)"
    using u by (cases "cc cert")
      (auto simp: ns_register_found_id_def ns_directory_def validate_idx_eq Let_def ns_services_def ns_names_def fun_eq_iff)
  show "ns_register_found_id cc cert s = Some (r, s') \<Longrightarrow> ns_ok s'"
    using o assms by (auto simp: ns_register_found_id_def bind_Some_conv Let_def split: if_splits)
qed

lemma bound_name_padded: "NUL \<notin> set k \<Longrightarrow> bound_name \<lparr>db_act_reference = c, db_name = padded k\<rparr> = take 48 k"
proof -
  assume "NUL \<notin> set k"
  then have "\<And>x. x \<in> set (take 48 k) \<Longrightarrow> x \<noteq> NUL" by (auto dest: in_set_takeD)
  then show ?thesis
    by (cases "48 - length k") (auto simp: bound_name_def padded_def takeWhile_append2 takeWhile_eq_all_conv)
qed

lemma padded_take: "padded (take 48 k) = padded k"
  by (simp add: padded_def min_def)

lemma length_padded: "length (padded k) = 48"
  by (simp add: padded_def)

lemma ns_register_name_spec:
  assumes s: "ns_ok s" and n: "NUL \<notin> set name" "length tmp = 49"
  shows "map_option (apsnd ns_directory) (map_option (apfst Code) (ns_register_name tmp (name @ [NUL]) ref s)) =
      dir_step cc (Register_Name name ref) (ns_directory s)"
    and "ns_register_name tmp (name @ [NUL]) ref s = Some (r, s') \<Longrightarrow> ns_ok s'"
proof -
  let ?k = "dy_count s"
  let ?b = "\<lparr>db_act_reference = ref, db_name = padded (stem name)\<rparr>"
  let ?s = "s\<lparr>dy_count := ?k + 1, dy_binds := (dy_binds s)[?k := ?b]\<rparr>"
  have l: "length (names (ns_directory s)) = ?k" using s by (simp add: ns_directory_def ns_names_def ns_ok_def)
  have r: "ns_register_name tmp (name @ [NUL]) ref s = (if too_long name then None else Some (0, ?s))" if "?k < 16"
  proof (cases "too_long name")
    case True
    then show ?thesis using normalise_name_eq(1) [OF n] that by (simp add: ns_register_name_def ns_consts)
  next
    case False
    obtain q where q: "normalise_name (name @ [NUL]) tmp = Some (stem name @ NUL # q)"
      using normalise_name_eq(2) [OF n False] by auto
    have "length (db_name (dy_binds s ! ?k)) = 48" using s that by (auto simp: ns_ok_def list_all_length)
    then show ?thesis using q False that strncpy_eq [OF stem_set [OF n(1)], of 48 _ q]
      by (simp add: ns_register_name_def ns_consts padded_def Let_def)
  qed
  have b: "bound_name ?b = take 48 (stem name)" by (rule bound_name_padded [OF stem_set [OF n(1)]])
  have t: "take (Suc ?k) ((dy_binds s)[?k := ?b]) = take ?k (dy_binds s) @ [?b]" if "?k < 16"
    using that s by (simp add: take_Suc_conv_app_nth ns_ok_def)
  have d: "ns_directory ?s = (ns_directory s)\<lparr>names := names (ns_directory s) @ [(key name, ref)]\<rparr>" if "?k < 16"
    using t [OF that] b ns_services_cong [of ?s s]
    by (simp add: ns_directory_def ns_names_def ns_ids_def fun_eq_iff key_def ns_consts)
  have o: "ns_ok ?s" if "?k < 16"
    using t [OF that] b s that ns_services_cong [of ?s s]
    by (auto simp: ns_ok_def name_ok_def padded_take length_padded list_all_iff dest: set_update_subset_insert [THEN subsetD])
  have k: "?k < 16 \<or> ?k = 16" using s by (auto simp: ns_ok_def)
  show "map_option (apsnd ns_directory) (map_option (apfst Code) (ns_register_name tmp (name @ [NUL]) ref s)) =
      dir_step cc (Register_Name name ref) (ns_directory s)"
    using k r d l by (auto simp: ns_register_name_def ns_consts)
  show "ns_register_name tmp (name @ [NUL]) ref s = Some (r, s') \<Longrightarrow> ns_ok s'"
    using k r o s by (auto simp: ns_register_name_def ns_consts split: if_splits)
qed

lemma lookup_loop_eq:
  assumes "NUL \<notin> set k" "list_all name_ok bs"
  shows "lookup_loop (k @ NUL # r) bs =
    Some (case map_of (map (\<lambda>b. (bound_name b, db_act_reference b)) bs) (take 48 k) of None \<Rightarrow> CNull | Some c \<Rightarrow> c)"
  using assms(2)
proof (induction bs)
  case (Cons b bs)
  have "NUL \<notin> set (bound_name b)" by (auto simp: bound_name_def dest: set_takeWhileD)
  then obtain c where "strncmp (k @ NUL # r) (padded (bound_name b)) 48 = Some c" "c = 0 \<longleftrightarrow> take 48 k = take 48 (bound_name b)"
    using strncmp_eq [OF assms(1), of "bound_name b" 48 r] by (auto simp: padded_def)
  moreover have "db_name b = padded (bound_name b)" "take 48 (bound_name b) = bound_name b"
    using Cons.prems by (auto simp: name_ok_def)
  ultimately show ?case using Cons by (auto simp: ns_consts)
qed simp

lemma ns_get_ref_by_name_spec:
  assumes "ns_ok s" "NUL \<notin> set name" "length tmp = 49"
  shows "map_option (apsnd ns_directory) (map_option (\<lambda>c. (Reference c, s)) (ns_get_ref_by_name tmp (name @ [NUL]) s)) =
    dir_step cc (Get_Ref_By_Name name) (ns_directory s)"
proof (cases "too_long name")
  case True
  then show ?thesis using normalise_name_eq(1) [OF assms(2,3)] by (simp add: ns_get_ref_by_name_def)
next
  case False
  obtain q where "normalise_name (name @ [NUL]) tmp = Some (stem name @ NUL # q)"
    using normalise_name_eq(2) [OF assms(2,3) False] by auto
  then show ?thesis using False lookup_loop_eq [OF stem_set [OF assms(2)], of "take (dy_count s) (dy_binds s)" q] assms(1)
    by (simp add: ns_get_ref_by_name_def ns_directory_def ns_names_def key_def ns_consts ns_ok_def)
qed

subsection \<open>The service\<close>

text \<open>A request comes with the bytes that the stack buffer of the method happens to hold.\<close>

definition ns_step :: "('cert \<Rightarrow> ('id option \<times> u64) option) \<Rightarrow> char list \<times> ('cert, 'id) ns_call \<Rightarrow> 'id ns_state
    \<Rightarrow> ('id ns_reply \<times> 'id ns_state) option" where
  "ns_step cc q s = ns_method cc (fst q) (snd q) s"

definition dir_serve :: "('cert \<Rightarrow> ('id option \<times> u64) option) \<Rightarrow> char list \<times> ('cert, 'id) ns_call \<Rightarrow> 'id directory
    \<Rightarrow> ('id ns_reply \<times> 'id directory) option" where
  "dir_serve cc q d = dir_step cc (snd q) d"

fun ns_request :: "char list \<times> ('cert, 'id) ns_call \<Rightarrow> bool" where
  "ns_request (tmp, Register_Name name ref) \<longleftrightarrow> length tmp = MAX_NAME_LENGTH + 1 \<and> NUL \<notin> set name"
| "ns_request (tmp, Get_Ref_By_Name name) \<longleftrightarrow> length tmp = MAX_NAME_LENGTH + 1 \<and> NUL \<notin> set name"
| "ns_request (tmp, _) \<longleftrightarrow> True"

lemma ns_step_simulates:
  assumes "ns_ok s" "ns_request q"
  shows "map_option (apsnd ns_directory) (ns_step cc q s) = dir_serve cc q (ns_directory s)"
proof -
  obtain tmp x where q: "q = (tmp, x)" by (cases q)
  show ?thesis
  proof (cases x)
    case (Register nb ref)
    then show ?thesis using q ns_register_spec(1) [OF assms(1), of nb ref cc]
      by (simp add: ns_step_def dir_serve_def)
  next
    case (Get_Reference nb)
    then show ?thesis using q
      by (auto simp: ns_step_def dir_serve_def ns_get_reference_def validate_idx_eq ns_directory_def ns_services_def)
  next
    case Get_Num_Services
    then show ?thesis using q assms(1)
      by (simp add: ns_step_def dir_serve_def ns_get_num_services_def ns_directory_def ns_ok_def)
  next
    case (Get_Found_Id nb)
    then show ?thesis using q
      by (auto simp: ns_step_def dir_serve_def ns_get_found_id_def validate_idx_eq ns_directory_def ns_ids_def)
  next
    case (Register_Found_Id cert)
    then show ?thesis using q ns_register_found_id_spec(1) [OF assms(1), of cc cert]
      by (simp add: ns_step_def dir_serve_def)
  next
    case (Register_Name name ref)
    then show ?thesis using q assms ns_register_name_spec(1) [OF assms(1), of name tmp ref cc]
      by (simp add: ns_step_def dir_serve_def ns_consts)
  next
    case (Get_Ref_By_Name name)
    then show ?thesis using q assms ns_get_ref_by_name_spec [OF assms(1), of name tmp cc]
      by (simp add: ns_step_def dir_serve_def ns_consts)
  qed
qed

lemma ns_step_keeps:
  assumes "ns_ok s" "ns_request q" "ns_step cc q s = Some (r, s')"
  shows "ns_ok s'"
proof -
  obtain tmp x where q: "q = (tmp, x)" by (cases q)
  show ?thesis
  proof (cases x)
    case (Register nb ref)
    then show ?thesis using q assms ns_register_spec(2) [OF assms(1), of nb ref]
      by (cases "ns_register nb ref s") (auto simp: ns_step_def)
  next
    case (Register_Found_Id cert)
    then show ?thesis using q assms ns_register_found_id_spec(2) [OF assms(1)] by (auto simp: ns_step_def)
  next
    case (Register_Name name ref)
    then show ?thesis using q assms ns_register_name_spec(2) [OF assms(1), of name tmp ref]
      by (auto simp: ns_step_def ns_consts)
  qed (use q assms in \<open>auto simp: ns_step_def\<close>)
qed

interpretation nsv: service "ns_step cc" "dir_serve cc" ns_ok ns_directory ns_request for cc
  by unfold_locales (auto simp: ns_step_simulates intro: ns_step_keeps)

definition empty_directory :: "'id directory" where
  "empty_directory = \<lparr>services = Map.empty, found_ids = Map.empty, names = []\<rparr>"

lemma in_range_nat: "in_range nb \<Longrightarrow> nat nb < 128"
  by (auto simp: in_range_def)

lemma ns_init_directory: "ns_directory (ns_init self ns_zero) = empty_directory"
  using in_range_nat by (auto simp: ns_directory_def ns_init_def ns_zero_def empty_directory_def ns_services_def ns_ids_def
      ns_names_def ns_consts fun_eq_iff)

lemma ns_init_ok: "ns_ok (ns_init self (ns_zero :: 'id ns_state))"
proof -
  have "ns_directory (ns_init self (ns_zero :: 'id ns_state)) = empty_directory" by (rule ns_init_directory)
  then have "ns_services (ns_init self (ns_zero :: 'id ns_state)) = Map.empty"
    by (simp add: ns_directory_def empty_directory_def)
  then show ?thesis by (simp add: ns_ok_def) (simp add: ns_init_def ns_zero_def ns_consts list_all_iff)
qed

text \<open>
  C23. The name space is a directory: for every sequence of requests after \<open>ns_init\<close> its
  replies are those of the contract. A number is bound by the first valid registration and
  never again; the number of services is that of the bound numbers; lookup by name finds
  the first of at most 16 registrations with the same key; the service traps exactly on a
  name with an extension whose stem is longer than \<open>MAX_NAME_LENGTH\<close> and where checking
  a certificate does.
\<close>

theorem namespace_refines:
  assumes "list_all ns_request xs"
  shows "map_option fst (run_service (ns_step cc) xs (ns_init self ns_zero)) =
    map_option fst (run_service (dir_serve cc) xs empty_directory)"
proof -
  have "map_option (apsnd ns_directory) (run_service (ns_step cc) xs (ns_init self ns_zero)) =
    run_service (dir_serve cc) xs empty_directory"
    using nsv.run_simulates [OF ns_init_ok assms] by (simp add: ns_init_directory)
  from this [symmetric] show ?thesis by (simp add: option.map_comp comp_def)
qed

definition ns_example :: "(char list \<times> (nat, nat) ns_call) list" where
  "ns_example =
     [(replicate 49 CHR ''x'', Register_Name ''lib/net.so.1'' (Cap 1 0 (Some 5))),
      ([], Register 4 (Cap 2 0 (Some 5))), ([], Register 4 (Cap 3 0 (Some 5))), ([], Register 5 (Cap 3 0 None)),
      ([], Register_Found_Id 7), ([], Get_Found_Id 7), ([], Get_Reference 4), ([], Get_Num_Services),
      (replicate 49 CHR ''y'', Get_Ref_By_Name ''/usr/net'')]"

theorem namespace_refines_witness:
  "list_all ns_request ns_example \<and>
   map_option fst (run_service (ns_step (\<lambda>c. Some (Some (c + 1), of_nat c))) ns_example (ns_init CNull ns_zero)) =
     Some [Code 0, Code 0, Code (-4), Code (-3), Code 0, Found (Some 8), Reference (Cap 2 0 (Some 5)), Code 1,
       Reference (Cap 1 0 (Some 5))]"
proof -
  have r: "list_all ns_request ns_example" by (simp add: ns_example_def ns_consts)
  show ?thesis unfolding namespace_refines [OF r] using r
    by (simp add: ns_example_def empty_directory_def dir_serve_def in_range_def too_long_def key_def stem_def base_name_def
        ns_consts)
qed

end
