(* ===== verification/DLL.thy ===== *)
theory DLL
  imports Prelude
begin

text \<open>
  The doubly linked lists of \<open>include/lists.h\<close>. The links of the items are two maps from
  addresses to addresses, None being NULL; \<open>acc\<close> says which addresses may be accessed, and
  None is an access to another one or through NULL. \<open>dll_rep\<close> relates a list and its links to
  the HOL list of its items; adding and removing implement the operations on that list and
  leave the links of all other items alone.
\<close>

type_synonym links = "nat \<Rightarrow> nat option"

record dll =
  dll_first :: "nat option"
  dll_last :: "nat option"

definition DLL_REMOVE :: "(nat \<Rightarrow> bool) \<Rightarrow> dll \<Rightarrow> nat \<Rightarrow> links \<Rightarrow> links \<Rightarrow> (dll \<times> links \<times> links) option" where
  "DLL_REMOVE acc l i nxt prv = do {
     kassert (acc i);
     (l, nxt) \<leftarrow>
       (if dll_first l = Some i then Some (l\<lparr>dll_first := nxt i\<rparr>, nxt)
        else (case prv i of
                None \<Rightarrow> None
              | Some p \<Rightarrow> if acc p then Some (l, nxt(p := nxt i)) else None));
     if dll_last l = Some i then Some (l\<lparr>dll_last := prv i\<rparr>, nxt, prv)
     else (case nxt i of
             None \<Rightarrow> None
           | Some q \<Rightarrow> if acc q then Some (l, nxt, prv(q := prv i)) else None)
   }"

definition DLL_ADD_END :: "(nat \<Rightarrow> bool) \<Rightarrow> dll \<Rightarrow> nat \<Rightarrow> links \<Rightarrow> links \<Rightarrow> (dll \<times> links \<times> links) option" where
  "DLL_ADD_END acc l i nxt prv = do {
     kassert (acc i);
     let prv = prv(i := dll_last l);
     let nxt = nxt(i := None);
     (l, nxt) \<leftarrow>
       (case dll_last l of
          None \<Rightarrow> Some (l\<lparr>dll_first := Some i\<rparr>, nxt)
        | Some k \<Rightarrow> if acc k then Some (l, nxt(k := Some i)) else None);
     Some (l\<lparr>dll_last := Some i\<rparr>, nxt, prv)
   }"

subsection \<open>Segments\<close>

definition head_or :: "nat option \<Rightarrow> nat list \<Rightarrow> nat option" where
  "head_or q xs = (if xs = [] then q else Some (hd xs))"

definition last_or :: "nat option \<Rightarrow> nat list \<Rightarrow> nat option" where
  "last_or p xs = (if xs = [] then p else Some (last xs))"

fun dseg :: "links \<Rightarrow> links \<Rightarrow> nat option \<Rightarrow> nat list \<Rightarrow> nat option \<Rightarrow> bool" where
  "dseg nxt prv p [] q \<longleftrightarrow> True"
| "dseg nxt prv p (x # xs) q \<longleftrightarrow> prv x = p \<and> nxt x = head_or q xs \<and> dseg nxt prv (Some x) xs q"

definition dll_rep :: "dll \<Rightarrow> links \<Rightarrow> links \<Rightarrow> nat list \<Rightarrow> bool" where
  "dll_rep l nxt prv xs \<longleftrightarrow> distinct xs \<and> dll_first l = head_or None xs \<and> dll_last l = last_or None xs \<and>
     dseg nxt prv None xs None"

lemma head_or_simps [simp]: "head_or q [] = q" "head_or q (x # xs) = Some x"
  "head_or q (xs @ ys) = head_or (head_or q ys) xs"
  by (auto simp: head_or_def)

lemma last_or_simps [simp]: "last_or p [] = p" "last_or p (x # xs) = last_or (Some x) xs"
  "last_or p (xs @ ys) = last_or (last_or p xs) ys"
  by (auto simp: last_or_def)

lemma head_or_cases: "head_or q xs = (case xs of [] \<Rightarrow> q | x # _ \<Rightarrow> Some x)"
  by (cases xs) auto

lemma last_or_snoc: "last_or p (xs @ [x]) = Some x"
  by simp

lemma dseg_append:
  "dseg nxt prv p (xs @ ys) q \<longleftrightarrow> dseg nxt prv p xs (head_or q ys) \<and> dseg nxt prv (last_or p xs) ys q"
  by (induction xs arbitrary: p) auto

lemma dseg_cong:
  "(\<And>x. x \<in> set xs \<Longrightarrow> nxt' x = nxt x \<and> prv' x = prv x) \<Longrightarrow> dseg nxt' prv' p xs q = dseg nxt prv p xs q"
  by (induction xs arbitrary: p) auto

lemma dll_rep_cong:
  "(\<And>x. x \<in> set xs \<Longrightarrow> nxt' x = nxt x \<and> prv' x = prv x) \<Longrightarrow> dll_rep l nxt' prv' xs = dll_rep l nxt prv xs"
  using dseg_cong [of xs nxt' nxt prv' prv] by (auto simp: dll_rep_def)

text \<open>The last item of a segment can be given another successor, the first another predecessor.\<close>

lemma dseg_set_next:
  "dseg nxt prv p (xs @ [x]) q \<Longrightarrow> x \<notin> set xs \<Longrightarrow> dseg (nxt(x := q')) prv p (xs @ [x]) q'"
  by (induction xs arbitrary: p) auto

lemma dseg_set_prev:
  "dseg nxt prv p (x # xs) q \<Longrightarrow> x \<notin> set xs \<Longrightarrow> dseg nxt (prv(x := p')) p' (x # xs) q"
proof -
  assume "dseg nxt prv p (x # xs) q" and x: "x \<notin> set xs"
  moreover have "dseg nxt (prv(x := p')) (Some x) xs q = dseg nxt prv (Some x) xs q"
    by (rule dseg_cong) (use x in auto)
  ultimately show ?thesis by simp
qed

lemma dll_rep_Nil [simp]: "dll_rep l nxt prv [] \<longleftrightarrow> dll_first l = None \<and> dll_last l = None"
  by (simp add: dll_rep_def)

subsection \<open>The operations\<close>

lemma DLL_ADD_END_spec:
  assumes r: "dll_rep l nxt prv xs" and i: "i \<notin> set xs" "acc i" "\<forall>k. dll_last l = Some k \<longrightarrow> acc k"
  obtains l' nxt' prv' where "DLL_ADD_END acc l i nxt prv = Some (l', nxt', prv')" "dll_rep l' nxt' prv' (xs @ [i])"
    "\<forall>j. j \<noteq> i \<and> j \<notin> set xs \<longrightarrow> nxt' j = nxt j" "\<forall>j. j \<noteq> i \<longrightarrow> prv' j = prv j"
proof (cases xs rule: rev_cases)
  case Nil
  then show thesis
    using that [of "\<lparr>dll_first = Some i, dll_last = Some i\<rparr>" "nxt(i := None)" "prv(i := None)"] r i
    by (auto simp: DLL_ADD_END_def dll_rep_def)
next
  case (snoc ys y)
  have d: "dll_last l = Some y" "y \<noteq> i" "y \<notin> set ys" using r i snoc by (auto simp: dll_rep_def)
  let ?n = "nxt(i := None, y := Some i)" and ?p = "prv(i := Some y)"
  have "dseg (nxt(y := Some i)) prv None (ys @ [y]) (Some i)"
    using r snoc d dseg_set_next [of nxt prv None ys y None "Some i"] by (auto simp: dll_rep_def)
  then have "dseg ?n ?p None (ys @ [y]) (Some i)"
    using i snoc d by (subst dseg_cong [of _ _ "nxt(y := Some i)" _ prv]) auto
  then have "dseg ?n ?p None ((ys @ [y]) @ [i]) None" using d unfolding dseg_append [of _ _ _ "ys @ [y]"] by simp
  then have "dll_rep (l\<lparr>dll_last := Some i\<rparr>) ?n ?p (xs @ [i])"
    using r i snoc by (auto simp: dll_rep_def)
  then show thesis
    using that [of "l\<lparr>dll_last := Some i\<rparr>" ?n ?p] i d snoc by (auto simp: DLL_ADD_END_def)
qed

lemma DLL_REMOVE_spec:
  assumes r: "dll_rep l nxt prv (xs @ i # ys)" and a: "\<forall>j \<in> set (xs @ i # ys). acc j"
  obtains l' nxt' prv' where "DLL_REMOVE acc l i nxt prv = Some (l', nxt', prv')" "dll_rep l' nxt' prv' (xs @ ys)"
    "\<forall>j. j \<notin> set (xs @ ys) \<longrightarrow> nxt' j = nxt j \<and> prv' j = prv j"
proof -
  have d: "distinct (xs @ i # ys)" and s: "dseg nxt prv None xs (Some i)" "dseg nxt prv (Some i) ys None"
    and p: "prv i = last_or None xs" and n: "nxt i = head_or None ys"
    and f: "dll_first l = head_or (Some i) xs" "dll_last l = last_or (Some i) ys"
    using r by (auto simp: dll_rep_def dseg_append)
  let ?n = "if xs = [] then nxt else nxt(last xs := nxt i)"
  let ?p = "if ys = [] then prv else prv(hd ys := prv i)"
  let ?l = "\<lparr>dll_first = head_or (nxt i) xs, dll_last = last_or (prv i) ys\<rparr>"
  have l: "xs \<noteq> [] \<Longrightarrow> last xs \<notin> set ys" "ys \<noteq> [] \<Longrightarrow> hd ys \<notin> set xs"
    using d last_in_set [of xs] hd_in_set [of ys] by (auto simp del: last_in_set hd_in_set)
  have x: "dseg ?n prv None xs (nxt i)"
    by (cases xs rule: rev_cases) (use s d dseg_set_next [of nxt prv None _ _ "Some i" "nxt i"] in auto)
  have y: "dseg nxt ?p (prv i) ys None"
    by (cases ys) (use s d dseg_set_prev [of nxt prv "Some i" _ _ None "prv i"] in auto)
  have "dseg ?n ?p None xs (nxt i) = dseg ?n prv None xs (nxt i)"
    by (rule dseg_cong) (use d l in auto)
  moreover have "dseg ?n ?p (prv i) ys None = dseg nxt ?p (prv i) ys None"
    by (rule dseg_cong) (use d l in auto)
  ultimately have "dll_rep ?l ?n ?p (xs @ ys)" using x y d p n by (simp add: dll_rep_def dseg_append)
  moreover have "DLL_REMOVE acc l i nxt prv = Some (?l, ?n, ?p)"
  proof -
    have h: "xs \<noteq> [] \<Longrightarrow> hd xs \<noteq> i \<and> last xs \<noteq> i \<and> acc (last xs)" "ys \<noteq> [] \<Longrightarrow> last ys \<noteq> i \<and> acc (hd ys)"
      using d a hd_in_set [of xs] last_in_set [of xs] hd_in_set [of ys] last_in_set [of ys] by (auto simp del: last_in_set hd_in_set)
    show ?thesis using a p n f h
      by (cases "xs = []"; cases "ys = []") (auto simp: DLL_REMOVE_def head_or_def last_or_def)
  qed
  moreover have "\<forall>j. j \<notin> set (xs @ ys) \<longrightarrow> ?n j = nxt j \<and> ?p j = prv j" by (auto simp: last_in_set hd_in_set)
  ultimately show thesis using that by blast
qed

end
