(* ===== verification/Type_Manager.thy ===== *)
theory Type_Manager
  imports DLL Service
begin

text \<open>
  The type manager (\<open>cherios/system/type_manager/src/main.c\<close>), which hands out the object types
  for sealing to a tree of owners, the tops. The fields of the trackers and of the tops are
  maps from addresses; trackers are the indices of \<open>ownership_map\<close>, tops are numbered in the
  order in which they come to exist, the static \<open>top_top\<close> being number 0. Memory from
  \<open>malloc\<close> is taken to be zero and not to be handed out again after it is freed. None is a
  trap, a loop that does not end, or a step whose outcome the allocator leaves open, at
  which the model stops: an access to freed memory, which by \<open>include/capmalloc.h\<close> is an
  exception or sees unchanged data, and freeing the static \<open>top_top\<close>. A capability that is sealed with
  the type of tops stands for a top that exists; it cannot be forged. \<open>tres_get\<close> of the
  nanokernel is a parameter.
\<close>

definition USER_TYPES_START :: u32 where "USER_TYPES_START = 0x1000"
definition USER_TYPES_END :: u32 where "USER_TYPES_END = 0x2000"
definition USER_TYPES_LEN :: u32 where "USER_TYPES_LEN = USER_TYPES_END - USER_TYPES_START"
definition TOP_SEALING_TYPE :: u64 where "TOP_SEALING_TYPE = 0x999"

definition TYPE_OK :: int where "TYPE_OK = 0"
definition TYPE_ER_INVALID_TOP :: int where "TYPE_ER_INVALID_TOP = -1"
definition TYPE_ER_TYPE_USED :: int where "TYPE_ER_TYPE_USED = -3"
definition TYPE_ER_OUT_OF_RANGE :: int where "TYPE_ER_OUT_OF_RANGE = -4"
definition TYPE_ER_DOES_NOT_OWN :: int where "TYPE_ER_DOES_NOT_OWN = -5"

datatype top_state = created | destroying | destroyed

datatype owner = OWNER_FREE | OWNER_FREED | Owner nat

record tman =
  trk_next :: links
  trk_prev :: links
  trk_owner :: "nat \<Rightarrow> owner"
  top_next :: links
  top_prev :: links
  top_children :: "nat \<Rightarrow> dll"
  top_parent :: "nat \<Rightarrow> nat option"
  top_owns :: "nat \<Rightarrow> dll"
  types_allocated :: "nat \<Rightarrow> u32"
  types_freed :: "nat \<Rightarrow> u32"
  top_state_of :: "nat \<Rightarrow> top_state"
  top_freed :: "nat \<Rightarrow> bool"
  tops_end :: nat
  freeList :: dll
  freedList :: dll
  first_init :: bool

definition trk_ok :: "nat \<Rightarrow> bool" where
  "trk_ok i \<longleftrightarrow> i < unat USER_TYPES_LEN"

definition top_ok :: "tman \<Rightarrow> nat \<Rightarrow> bool" where
  "top_ok s t \<longleftrightarrow> t < tops_end s \<and> \<not> top_freed s t"

text \<open>\<open>cheri_unseal_2\<close> gives the address, or None for NULL; the safe load gives \<open>destroyed\<close> for freed memory.\<close>

definition cheri_unseal_2 :: "capability \<Rightarrow> u64 \<Rightarrow> nat option" where
  "cheri_unseal_2 c t = (case c of Cap b off (Some t') \<Rightarrow> if t' = t then Some b else None | _ \<Rightarrow> None)"

definition safe_state :: "tman \<Rightarrow> nat \<Rightarrow> top_state" where
  "safe_state s t = (if top_freed s t then destroyed else top_state_of s t)"

definition unseal_top :: "capability \<Rightarrow> tman \<Rightarrow> nat option option" where
  "unseal_top tp s =
     (case cheri_unseal_2 tp TOP_SEALING_TYPE of
        None \<Rightarrow> Some None
      | Some t \<Rightarrow> do {
          kassert (t < tops_end s);
          Some (if safe_state s t \<noteq> created then None else Some t)
        })"

definition seal_top :: "nat \<Rightarrow> capability option" where
  "seal_top t = cheri_seal (Cap t 0 None) TOP_SEALING_TYPE"

definition tracker_to_type :: "nat \<Rightarrow> u32" where
  "tracker_to_type i = of_nat i + USER_TYPES_START"

definition type_to_tracker :: "u32 \<Rightarrow> nat" where
  "type_to_tracker type = unat (type - USER_TYPES_LEN)"

definition new_tres :: "(u32 \<Rightarrow> 'r) \<Rightarrow> nat option \<Rightarrow> nat \<Rightarrow> tman \<Rightarrow> ('r \<times> tman) option" where
  "new_tres tres_get tracker tp s = do {
     i \<leftarrow> tracker;
     kassert (trk_ok i);
     let type = tracker_to_type i;
     let s = s\<lparr>trk_owner := (trk_owner s)(i := Owner tp)\<rparr>;
     (l, n, p) \<leftarrow> DLL_REMOVE trk_ok (freeList s) i (trk_next s) (trk_prev s);
     let s = s\<lparr>freeList := l, trk_next := n, trk_prev := p\<rparr>;
     kassert (top_ok s tp);
     (l, n, p) \<leftarrow> DLL_ADD_END trk_ok (top_owns s tp) i (trk_next s) (trk_prev s);
     let s = s\<lparr>top_owns := (top_owns s)(tp := l), trk_next := n, trk_prev := p\<rparr>;
     let s = s\<lparr>types_allocated := (types_allocated s)(tp := types_allocated s tp + 1)\<rparr>;
     Some (tres_get type, s)
   }"

definition find_free_tracker :: "tman \<Rightarrow> nat option" where
  "find_free_tracker s = dll_first (freeList s)"

definition empty_dll :: dll where
  "empty_dll = \<lparr>dll_first = None, dll_last = None\<rparr>"

definition zero_top :: "nat \<Rightarrow> tman \<Rightarrow> tman" where
  "zero_top t s = s\<lparr>top_next := (top_next s)(t := None), top_prev := (top_prev s)(t := None),
     top_children := (top_children s)(t := empty_dll), top_parent := (top_parent s)(t := None),
     top_owns := (top_owns s)(t := empty_dll), types_allocated := (types_allocated s)(t := 0),
     types_freed := (types_freed s)(t := 0), top_state_of := (top_state_of s)(t := created)\<rparr>"

definition malloc_top :: "tman \<Rightarrow> nat \<times> tman" where
  "malloc_top s = (let t = tops_end s in (t, (zero_top t s)\<lparr>tops_end := t + 1, top_freed := (top_freed s)(t := False)\<rparr>))"

definition new_top :: "nat \<Rightarrow> tman \<Rightarrow> (capability \<times> tman) option" where
  "new_top from_top s = do {
     let (tp, s) = malloc_top s;
     kassert (top_ok s from_top);
     (l, n, p) \<leftarrow> DLL_ADD_END (top_ok s) (top_children s from_top) tp (top_next s) (top_prev s);
     let s = s\<lparr>top_children := (top_children s)(from_top := l), top_next := n, top_prev := p\<rparr>;
     let s = s\<lparr>top_parent := (top_parent s)(tp := Some from_top)\<rparr>;
     c \<leftarrow> seal_top tp;
     Some (c, s)
   }"

definition release_type :: "nat \<Rightarrow> nat \<Rightarrow> bool \<Rightarrow> tman \<Rightarrow> tman option" where
  "release_type tp i remove_from_chain s = do {
     kassert (trk_ok i \<and> top_ok s tp);
     let s = s\<lparr>trk_owner := (trk_owner s)(i := OWNER_FREED)\<rparr>;
     s \<leftarrow> (if remove_from_chain then do {
              (l, n, p) \<leftarrow> DLL_REMOVE trk_ok (top_owns s tp) i (trk_next s) (trk_prev s);
              Some (s\<lparr>top_owns := (top_owns s)(tp := l), trk_next := n, trk_prev := p\<rparr>)
            } else Some s);
     (l, n, p) \<leftarrow> DLL_ADD_END trk_ok (freedList s) i (trk_next s) (trk_prev s);
     let s = s\<lparr>freedList := l, trk_next := n, trk_prev := p\<rparr>;
     Some (s\<lparr>types_freed := (types_freed s)(tp := types_freed s tp + 1)\<rparr>)
   }"

partial_function (option) release_loop :: "nat \<Rightarrow> nat option \<Rightarrow> tman \<Rightarrow> tman option" where
  "release_loop tp item s =
     (case item of
        None \<Rightarrow> Some s
      | Some i \<Rightarrow> do {
          s \<leftarrow> release_type tp i False s;
          release_loop tp (trk_next s i) s
        })"

definition free_top :: "nat \<Rightarrow> tman \<Rightarrow> tman option" where
  "free_top t s = do {
     kassert (t \<noteq> 0 \<and> top_ok s t);
     Some (s\<lparr>top_freed := (top_freed s)(t := True)\<rparr>)
   }"

text \<open>\<open>destroy_top\<close> and its loop over the children call each other.\<close>

datatype destroy_call = Destroy nat | Children "nat option"

partial_function (option) destroy_run :: "destroy_call \<Rightarrow> tman \<Rightarrow> tman option" where
  "destroy_run c s =
     (case c of
        Destroy tp \<Rightarrow> do {
          kassert (top_ok s tp);
          let s = s\<lparr>top_state_of := (top_state_of s)(tp := destroying)\<rparr>;
          s \<leftarrow> destroy_run (Children (dll_first (top_children s tp))) s;
          s \<leftarrow> release_loop tp (dll_first (top_owns s tp)) s;
          let s = s\<lparr>top_state_of := (top_state_of s)(tp := destroyed)\<rparr>;
          free_top tp s
        }
      | Children None \<Rightarrow> Some s
      | Children (Some item) \<Rightarrow> do {
          s \<leftarrow> destroy_run (Destroy item) s;
          kassert (top_ok s item);
          destroy_run (Children (top_next s item)) s
        })"

definition destroy_top :: "nat \<Rightarrow> tman \<Rightarrow> tman option" where
  "destroy_top tp s = destroy_run (Destroy tp) s"

text \<open>\<open>init_tracking\<close>: the previous tracker \<open>prev\<close> is never advanced, so every \<open>prev\<close> link is NULL.\<close>

definition init_tracking :: "tman \<Rightarrow> tman" where
  "init_tracking s =
     (let len = unat USER_TYPES_LEN
      in s\<lparr>freeList := \<lparr>dll_first = Some 0, dll_last = Some (len - 1)\<rparr>,
           trk_prev := \<lambda>i. if i < len then None else trk_prev s i,
           trk_owner := \<lambda>i. if i < len then OWNER_FREE else trk_owner s i,
           trk_next := (\<lambda>i. if i < len then Some (i + 1) else trk_next s i)(len - 1 := None)\<rparr>)"

definition init_top :: "tman \<Rightarrow> nat \<times> tman" where
  "init_top s = (0, (zero_top 0 s)\<lparr>tops_end := 1\<rparr>)"

definition type_get_first_top :: "tman \<Rightarrow> (capability \<times> tman) option" where
  "type_get_first_top s =
     (if \<not> first_init s then do {
        let s = s\<lparr>first_init := True\<rparr>;
        let (first, s) = init_top s;
        c \<leftarrow> seal_top first;
        Some (c, s)
      } else Some (CNull, s))"

text \<open>A result of type \<open>ERROR_T(T)\<close>: a value or an error code.\<close>

datatype 'r type_result = Val_top capability | Val_tres 'r | Er int

definition type_new_top :: "capability \<Rightarrow> tman \<Rightarrow> ('r type_result \<times> tman) option" where
  "type_new_top parent s = do {
     itop \<leftarrow> unseal_top parent s;
     case itop of
       None \<Rightarrow> Some (Er TYPE_ER_INVALID_TOP, s)
     | Some t \<Rightarrow> map_option (apfst Val_top) (new_top t s)
   }"

definition type_destroy_top :: "capability \<Rightarrow> tman \<Rightarrow> ('r type_result \<times> tman) option" where
  "type_destroy_top tp s = do {
     itop \<leftarrow> unseal_top tp s;
     case itop of
       None \<Rightarrow> Some (Er TYPE_ER_INVALID_TOP, s)
     | Some t \<Rightarrow> do {
         s \<leftarrow> destroy_top t s;
         Some (Er TYPE_OK, s)
       }
   }"

text \<open>\<open>__type_get_new\<close> makes the error for an empty list but does not return it.\<close>

definition type_get_new :: "(u32 \<Rightarrow> 'r) \<Rightarrow> capability \<Rightarrow> tman \<Rightarrow> ('r type_result \<times> tman) option" where
  "type_get_new tres_get tp s = do {
     itop \<leftarrow> unseal_top tp s;
     case itop of
       None \<Rightarrow> Some (Er TYPE_ER_INVALID_TOP, s)
     | Some t \<Rightarrow> map_option (apfst Val_tres) (new_tres tres_get (find_free_tracker s) t s)
   }"

definition type_get_new_exact :: "(u32 \<Rightarrow> 'r) \<Rightarrow> capability \<Rightarrow> u32 \<Rightarrow> tman \<Rightarrow> ('r type_result \<times> tman) option" where
  "type_get_new_exact tres_get tp type s = do {
     itop \<leftarrow> unseal_top tp s;
     case itop of
       None \<Rightarrow> Some (Er TYPE_ER_INVALID_TOP, s)
     | Some t \<Rightarrow>
         if type < USER_TYPES_START \<or> type \<ge> USER_TYPES_END then Some (Er TYPE_ER_OUT_OF_RANGE, s)
         else (let i = type_to_tracker type
               in if trk_owner s i \<noteq> OWNER_FREE then Some (Er TYPE_ER_TYPE_USED, s)
                  else map_option (apfst Val_tres) (new_tres tres_get (Some i) t s))
   }"

definition type_return_type :: "capability \<Rightarrow> u32 \<Rightarrow> tman \<Rightarrow> ('r type_result \<times> tman) option" where
  "type_return_type tp type s = do {
     itop \<leftarrow> unseal_top tp s;
     case itop of
       None \<Rightarrow> Some (Er TYPE_ER_INVALID_TOP, s)
     | Some t \<Rightarrow>
         if type < USER_TYPES_START \<or> type \<ge> USER_TYPES_END then Some (Er TYPE_ER_OUT_OF_RANGE, s)
         else (let i = type_to_tracker type
               in if trk_owner s i \<noteq> Owner t then Some (Er TYPE_ER_DOES_NOT_OWN, s)
                  else do {
                    s \<leftarrow> release_type t i True s;
                    Some (Er TYPE_OK, s)
                  })
   }"

datatype type_call =
    Get_First_Top
  | New_Top capability
  | Destroy_Top capability
  | Get_New capability
  | Get_New_Exact capability u32
  | Return_Type capability u32

fun type_method :: "(u32 \<Rightarrow> 'r) \<Rightarrow> type_call \<Rightarrow> tman \<Rightarrow> ('r type_result \<times> tman) option" where
  "type_method tres_get Get_First_Top s = map_option (apfst Val_top) (type_get_first_top s)"
| "type_method tres_get (New_Top parent) s = type_new_top parent s"
| "type_method tres_get (Destroy_Top tp) s = type_destroy_top tp s"
| "type_method tres_get (Get_New tp) s = type_get_new tres_get tp s"
| "type_method tres_get (Get_New_Exact tp type) s = type_get_new_exact tres_get tp type s"
| "type_method tres_get (Return_Type tp type) s = type_return_type tp type s"

text \<open>Static data is zero; \<open>main\<close> calls \<open>init_tracking\<close> before the first message.\<close>

definition tman_zero :: tman where
  "tman_zero = \<lparr>trk_next = (\<lambda>_. None), trk_prev = (\<lambda>_. None), trk_owner = (\<lambda>_. OWNER_FREE),
     top_next = (\<lambda>_. None), top_prev = (\<lambda>_. None), top_children = (\<lambda>_. empty_dll), top_parent = (\<lambda>_. None),
     top_owns = (\<lambda>_. empty_dll), types_allocated = (\<lambda>_. 0), types_freed = (\<lambda>_. 0),
     top_state_of = (\<lambda>_. created), top_freed = (\<lambda>_. False), tops_end = 0,
     freeList = empty_dll, freedList = empty_dll, first_init = False\<rparr>"

definition tman_init :: tman where
  "tman_init = init_tracking tman_zero"

subsection \<open>The contract\<close>

text \<open>
  Types are issued in ascending order, each to one top, until its owner returns it or is
  destroyed; no type is issued again. \<open>last_child\<close> is the youngest child of each top.
\<close>

record type_book =
  issued :: nat
  holder :: "nat \<rightharpoonup> nat"
  live :: "nat \<Rightarrow> bool"
  last_child :: "nat \<rightharpoonup> nat"
  known :: nat

definition issue :: "(u32 \<Rightarrow> 'r) \<Rightarrow> nat \<Rightarrow> type_book \<Rightarrow> 'r type_result \<times> type_book" where
  "issue tres_get t b =
     (Val_tres (tres_get (of_nat (0x1000 + issued b))),
      b\<lparr>issued := issued b + 1, holder := (holder b)(issued b \<mapsto> t)\<rparr>)"

definition on_top :: "capability \<Rightarrow> type_book \<Rightarrow> (nat \<Rightarrow> ('r type_result \<times> type_book) option) \<Rightarrow> ('r type_result \<times> type_book) option" where
  "on_top c b f =
     (case cheri_unseal_2 c 0x999 of
        None \<Rightarrow> Some (Er (-1), b)
      | Some t \<Rightarrow> if t \<ge> known b then None else if live b t then f t else Some (Er (-1), b))"

fun book_step :: "(u32 \<Rightarrow> 'r) \<Rightarrow> type_call \<Rightarrow> type_book \<Rightarrow> ('r type_result \<times> type_book) option" where
  "book_step tres_get Get_First_Top b = Some
     (if known b = 0 then (Val_top (Cap 0 0 (Some 0x999)), b\<lparr>known := 1, live := (live b)(0 := True)\<rparr>)
      else (Val_top CNull, b))"
| "book_step tres_get (New_Top c) b = on_top c b (\<lambda>t.
     if (\<exists>k. last_child b t = Some k \<and> \<not> live b k) then None
     else Some (Val_top (Cap (known b) 0 (Some 0x999)),
       b\<lparr>known := known b + 1, live := (live b)(known b := True), last_child := (last_child b)(t \<mapsto> known b)\<rparr>))"
| "book_step tres_get (Destroy_Top c) b = on_top c b (\<lambda>t.
     if t = 0 \<or> last_child b t \<noteq> None then None
     else Some (Er 0, b\<lparr>live := (live b)(t := False), holder := (\<lambda>i. if holder b i = Some t then None else holder b i)\<rparr>))"
| "book_step tres_get (Get_New c) b = on_top c b (\<lambda>t.
     if issued b = 4096 then None else Some (issue tres_get t b))"
| "book_step tres_get (Get_New_Exact c type) b = on_top c b (\<lambda>t.
     if unat type < 0x1000 \<or> unat type \<ge> 0x2000 then Some (Er (-4), b)
     else if unat type < 0x1000 + issued b then Some (Er (-3), b)
     else if unat type = 0x1000 + issued b then Some (issue tres_get t b)
     else None)"
| "book_step tres_get (Return_Type c type) b = on_top c b (\<lambda>t.
     if unat type < 0x1000 \<or> unat type \<ge> 0x2000 then Some (Er (-4), b)
     else if holder b (unat type - 0x1000) = Some t
     then Some (Er 0, b\<lparr>holder := (holder b)(unat type - 0x1000 := None)\<rparr>)
     else Some (Er (-5), b))"

end
