(* ===== verification/Type_Books.thy ===== *)
theory Type_Books
  imports Type_Manager
begin

text \<open>
  The type manager keeps its books: the invariant of its linked lists, that every method
  keeps it, and that the replies are those of the contract of \<open>Type_Manager\<close>.
\<close>

subsection \<open>The invariant\<close>

definition tissued :: "tman \<Rightarrow> nat" where
  "tissued s = (case dll_first (freeList s) of Some n \<Rightarrow> n | None \<Rightarrow> 4096)"

definition tbook :: "tman \<Rightarrow> type_book" where
  "tbook s = \<lparr>issued = tissued s,
     holder = (\<lambda>i. case trk_owner s i of Owner t \<Rightarrow> if top_ok s t then Some t else None | _ \<Rightarrow> None),
     live = top_ok s,
     last_child = (\<lambda>t. if t < tops_end s then dll_last (top_children s t) else None),
     known = tops_end s\<rparr>"

definition free_dll :: "nat \<Rightarrow> dll" where
  "free_dll n = \<lparr>dll_first = (if n < 4096 then Some n else None), dll_last = (if n < 4096 then Some 4095 else None)\<rparr>"

definition free_inv :: "tman \<Rightarrow> nat \<Rightarrow> bool" where
  "free_inv s n \<longleftrightarrow> n \<le> 4096 \<and> freeList s = free_dll n \<and>
     (\<forall>i. n \<le> i \<and> i < 4096 \<longrightarrow> trk_next s i = (if i < 4095 then Some (i + 1) else None) \<and> trk_prev s i = None) \<and>
     (\<forall>i. trk_owner s i = OWNER_FREE \<longleftrightarrow> n \<le> i)"

definition owner_chains :: "(nat \<Rightarrow> bool) \<Rightarrow> (nat \<Rightarrow> dll) \<Rightarrow> links \<Rightarrow> links \<Rightarrow> (nat \<Rightarrow> owner) \<Rightarrow> bool" where
  "owner_chains ok ow nx pr own \<longleftrightarrow> (\<forall>t. ok t \<longrightarrow> (\<exists>xs. dll_rep (ow t) nx pr xs \<and> set xs = {i. own i = Owner t}))"

definition owns_inv :: "tman \<Rightarrow> bool" where
  "owns_inv s \<longleftrightarrow> owner_chains (top_ok s) (top_owns s) (trk_next s) (trk_prev s) (trk_owner s)"

definition tops_inv :: "tman \<Rightarrow> bool" where
  "tops_inv s \<longleftrightarrow> (first_init s \<longleftrightarrow> tops_end s \<noteq> 0) \<and>
     (\<forall>t. top_ok s t \<longrightarrow> top_state_of s t = created) \<and>
     (\<forall>i t. trk_owner s i = Owner t \<longrightarrow> t < tops_end s) \<and>
     (\<forall>t < tops_end s. (dll_first (top_children s t) = None \<longleftrightarrow> dll_last (top_children s t) = None) \<and>
        (\<forall>k. dll_last (top_children s t) = Some k \<longrightarrow> k < tops_end s))"

definition freed_inv :: "tman \<Rightarrow> bool" where
  "freed_inv s \<longleftrightarrow> (\<forall>l. dll_last (freedList s) = Some l \<longrightarrow> trk_owner s l = OWNER_FREED)"

definition tman_ok :: "tman \<Rightarrow> bool" where
  "tman_ok s \<longleftrightarrow> free_inv s (tissued s) \<and> owns_inv s \<and> tops_inv s \<and> freed_inv s \<and>
     (tops_end s = 0 \<longrightarrow> \<not> top_freed s 0)"

lemmas tman_consts = USER_TYPES_START_def USER_TYPES_END_def USER_TYPES_LEN_def TOP_SEALING_TYPE_def
  TYPE_OK_def TYPE_ER_INVALID_TOP_def TYPE_ER_TYPE_USED_def TYPE_ER_OUT_OF_RANGE_def TYPE_ER_DOES_NOT_OWN_def

lemma trk_ok_eq: "trk_ok i \<longleftrightarrow> i < 4096"
  by (simp add: trk_ok_def tman_consts)

lemma tissued_free_inv: "free_inv s n \<Longrightarrow> tissued s = n"
  by (simp add: free_inv_def tissued_def free_dll_def)

lemma tman_okI:
  "free_inv s n \<Longrightarrow> owns_inv s \<Longrightarrow> tops_inv s \<Longrightarrow> freed_inv s \<Longrightarrow> tops_end s \<noteq> 0 \<Longrightarrow> tman_ok s"
  by (simp add: tman_ok_def tissued_free_inv)

lemma tman_okD:
  assumes "tman_ok s"
  shows "free_inv s (tissued s)" "owns_inv s" "tops_inv s" "freed_inv s"
  using assms by (simp_all add: tman_ok_def)

lemma owner_range: "free_inv s n \<Longrightarrow> trk_owner s i \<noteq> OWNER_FREE \<Longrightarrow> i < n \<and> i < 4096"
  by (auto simp: free_inv_def not_le)

lemma type_to_tracker_eq: "0x1000 \<le> unat type \<Longrightarrow> type_to_tracker type = unat type - 0x1000"
  by (simp add: type_to_tracker_def tman_consts unat_sub word_le_nat_alt)

lemma type_range: "type < USER_TYPES_START \<longleftrightarrow> unat type < 0x1000" "type \<ge> USER_TYPES_END \<longleftrightarrow> unat type \<ge> 0x2000"
  by (simp_all add: tman_consts word_less_nat_alt word_le_nat_alt)

subsection \<open>Links\<close>

text \<open>Taking the first free tracker keeps all links; taking any other one traps.\<close>

lemma remove_first_free:
  assumes "free_inv s n" "n < 4096"
  shows "DLL_REMOVE trk_ok (freeList s) n (trk_next s) (trk_prev s) = Some (free_dll (n + 1), trk_next s, trk_prev s)"
proof (cases "n < 4095")
  case True
  then have l: "trk_next s n = Some (Suc n)" "trk_prev s n = None" "trk_prev s (Suc n) = None"
    using assms by (auto simp: free_inv_def)
  then have "(trk_prev s)(Suc n := None) = trk_prev s" by (simp add: fun_upd_idem)
  with l show ?thesis using assms True by (simp add: DLL_REMOVE_def trk_ok_eq free_inv_def free_dll_def)
next
  case False
  then have "n = 4095" using assms by simp
  then show ?thesis using assms by (simp add: DLL_REMOVE_def trk_ok_eq free_inv_def free_dll_def)
qed

lemma remove_other_free:
  assumes "free_inv s n" "n < i" "i < 4096"
  shows "DLL_REMOVE trk_ok (freeList s) i (trk_next s) (trk_prev s) = None"
  using assms by (simp add: DLL_REMOVE_def trk_ok_eq free_inv_def free_dll_def)

lemma add_freed:
  assumes "i < 4096" "\<forall>k. dll_last l = Some k \<longrightarrow> k \<noteq> i \<and> k < 4096"
  obtains l' nxt' prv' where "DLL_ADD_END trk_ok l i nxt prv = Some (l', nxt', prv')" "dll_last l' = Some i"
    "nxt' i = None" "\<forall>j. j \<noteq> i \<and> dll_last l \<noteq> Some j \<longrightarrow> nxt' j = nxt j" "\<forall>j. j \<noteq> i \<longrightarrow> prv' j = prv j"
proof (cases "dll_last l")
  case None
  then show thesis
    using that [of "l\<lparr>dll_first := Some i, dll_last := Some i\<rparr>" "nxt(i := None)" "prv(i := None)"] assms
    by (auto simp: DLL_ADD_END_def trk_ok_eq)
next
  case (Some k)
  then show thesis
    using that [of "l\<lparr>dll_last := Some i\<rparr>" "nxt(i := None, k := Some i)" "prv(i := Some k)"] assms
    by (auto simp: DLL_ADD_END_def trk_ok_eq)
qed

lemma freed_last:
  assumes "free_inv s n" "freed_inv s" "dll_last (freedList s) = Some k"
  shows "trk_owner s k = OWNER_FREED" "k < n" "k < 4096"
  using assms owner_range [of s n k] by (auto simp: freed_inv_def)

subsection \<open>Operations\<close>

lemma new_tres_first:
  assumes ok: "tman_ok s" and n: "tissued s < 4096" and t: "top_ok s t"
  obtains s' where "new_tres g (Some (tissued s)) t s = Some (g (of_nat (0x1000 + tissued s)), s')" "tman_ok s'"
    "tbook s' = (tbook s)\<lparr>issued := tissued s + 1, holder := (holder (tbook s))(tissued s \<mapsto> t)\<rparr>"
proof -
  let ?n = "tissued s"
  note inv = tman_okD [OF ok]
  obtain xs where xs: "dll_rep (top_owns s t) (trk_next s) (trk_prev s) xs" "set xs = {i. trk_owner s i = Owner t}"
    using inv(2) t by (auto simp: owns_inv_def owner_chains_def)
  have used: "i \<in> set xs \<Longrightarrow> i < ?n \<and> i < 4096" for i using owner_range [OF inv(1), of i] xs(2) by auto
  have free: "trk_owner s ?n = OWNER_FREE" using inv(1) by (simp add: free_inv_def)
  obtain l nx pr where d: "DLL_ADD_END trk_ok (top_owns s t) ?n (trk_next s) (trk_prev s) = Some (l, nx, pr)"
    "dll_rep l nx pr (xs @ [?n])" "\<forall>j. j \<noteq> ?n \<and> j \<notin> set xs \<longrightarrow> nx j = trk_next s j" "\<forall>j. j \<noteq> ?n \<longrightarrow> pr j = trk_prev s j"
  proof (rule DLL_ADD_END_spec [OF xs(1), of ?n trk_ok])
    show "\<forall>k. dll_last (top_owns s t) = Some k \<longrightarrow> trk_ok k"
      using xs(1) used by (auto simp: dll_rep_def last_or_def trk_ok_eq split: if_splits)
  qed (use used n in \<open>auto simp: trk_ok_eq\<close>)
  define s' where "s' = s\<lparr>trk_owner := (trk_owner s)(?n := Owner t), freeList := free_dll (?n + 1),
    top_owns := (top_owns s)(t := l), trk_next := nx, trk_prev := pr,
    types_allocated := (types_allocated s)(t := types_allocated s t + 1)\<rparr>"
  have r: "new_tres g (Some ?n) t s = Some (g (of_nat (0x1000 + ?n)), s')"
    using remove_first_free [OF inv(1) n] d(1) n t
    by (simp add: new_tres_def trk_ok_eq top_ok_def tracker_to_type_def tman_consts s'_def add.commute)
  have tk: "top_ok s' = top_ok s" by (simp add: s'_def top_ok_def fun_eq_iff)
  have "nx i = trk_next s i" "pr i = trk_prev s i" if "?n < i" for i
  proof -
    have "i \<notin> set xs" using used [of i] that by auto
    then show "nx i = trk_next s i" "pr i = trk_prev s i" using d(3,4) that by auto
  qed
  then have f: "free_inv s' (?n + 1)" using inv(1) n by (auto simp: free_inv_def s'_def Suc_le_eq)
  have "owns_inv s'" unfolding owns_inv_def owner_chains_def tk
  proof (intro allI impI)
    fix u assume u: "top_ok s u"
    show "\<exists>ys. dll_rep (top_owns s' u) (trk_next s') (trk_prev s') ys \<and> set ys = {i. trk_owner s' i = Owner u}"
    proof (cases "u = t")
      case True
      then show ?thesis using d(2) xs(2) free by (intro exI [of _ "xs @ [?n]"]) (auto simp: s'_def)
    next
      case False
      obtain ys where ys: "dll_rep (top_owns s u) (trk_next s) (trk_prev s) ys" "set ys = {i. trk_owner s i = Owner u}"
        using inv(2) u by (auto simp: owns_inv_def owner_chains_def)
      have "nx j = trk_next s j \<and> pr j = trk_prev s j" if "j \<in> set ys" for j
      proof -
        have "j \<noteq> ?n" "j \<notin> set xs" using that ys(2) xs(2) free False by auto
        then show ?thesis using d(3,4) by simp
      qed
      then have "dll_rep (top_owns s u) nx pr ys"
        using ys(1) dll_rep_cong [of ys nx "trk_next s" pr "trk_prev s"] by simp
      then show ?thesis using ys(2) free False by (intro exI [of _ ys]) (auto simp: s'_def)
    qed
  qed
  moreover have "tops_inv s'" using inv(3) t by (auto simp: tops_inv_def tk) (auto simp: s'_def top_ok_def split: if_splits)
  moreover have "freed_inv s'" using inv(4) free by (auto simp: freed_inv_def s'_def)
  moreover have "tops_end s' \<noteq> 0" using t by (simp add: s'_def top_ok_def)
  ultimately have "tman_ok s'" using f by (intro tman_okI)
  moreover have "tbook s' = (tbook s)\<lparr>issued := ?n + 1, holder := (holder (tbook s))(?n \<mapsto> t)\<rparr>"
    unfolding tbook_def tk tissued_free_inv [OF f] using t by (auto simp: s'_def fun_eq_iff)
  ultimately show thesis using that r by blast
qed

lemma new_tres_other:
  assumes "tman_ok s" "tissued s < i" "i < 4096"
  shows "new_tres g (Some i) t s = None"
  using remove_other_free [OF tman_okD(1) [OF assms(1)] assms(2,3)] by (simp add: new_tres_def)

text \<open>Marking a tracker as freed and appending it to the freed list, after it has left its owner's list or not.\<close>

lemma owner_chains_cong:
  assumes "owner_chains ok ow nx pr own" "\<And>j u. own j = Owner u \<Longrightarrow> ok u \<Longrightarrow> nx' j = nx j \<and> pr' j = pr j"
  shows "owner_chains ok ow nx' pr' own"
  unfolding owner_chains_def
proof (intro allI impI)
  fix u assume u: "ok u"
  then obtain xs where xs: "dll_rep (ow u) nx pr xs" "set xs = {j. own j = Owner u}"
    using assms(1) by (auto simp: owner_chains_def)
  then have "dll_rep (ow u) nx' pr' xs"
    using assms(2) u dll_rep_cong [of xs nx' nx pr' pr] by auto
  with xs(2) show "\<exists>xs. dll_rep (ow u) nx' pr' xs \<and> set xs = {j. own j = Owner u}" by blast
qed

lemma release_tail:
  assumes ok: "tman_ok s" and i: "trk_owner s i = Owner t"
    and ch: "owner_chains okp ow nx pr ((trk_owner s)(i := OWNER_FREED))"
    and links: "\<And>j. tissued s \<le> j \<Longrightarrow> nx j = trk_next s j \<and> pr j = trk_prev s j"
  obtains l nx' pr' where "DLL_ADD_END trk_ok (freedList s) i nx pr = Some (l, nx', pr')" "nx' i = None"
    "dll_last l = Some i" "owner_chains okp ow nx' pr' ((trk_owner s)(i := OWNER_FREED))"
    "\<forall>j. tissued s \<le> j \<longrightarrow> nx' j = trk_next s j \<and> pr' j = trk_prev s j"
proof -
  note inv = tman_okD [OF ok]
  have ir: "i < tissued s" "i < 4096" using owner_range [OF inv(1), of i] i by auto
  have k: "\<forall>k. dll_last (freedList s) = Some k \<longrightarrow> k \<noteq> i \<and> k < 4096"
    using freed_last [OF inv(1,4)] i by force
  obtain l nx' pr' where d: "DLL_ADD_END trk_ok (freedList s) i nx pr = Some (l, nx', pr')" "dll_last l = Some i"
    "nx' i = None" "\<forall>j. j \<noteq> i \<and> dll_last (freedList s) \<noteq> Some j \<longrightarrow> nx' j = nx j" "\<forall>j. j \<noteq> i \<longrightarrow> pr' j = pr j"
    using add_freed [OF ir(2) k, of nx pr] by metis
  have "nx' j = nx j \<and> pr' j = pr j" if "((trk_owner s)(i := OWNER_FREED)) j = Owner u" for j u
    using that d(4,5) freed_last(1) [OF inv(1,4), of j] by (auto split: if_splits)
  then have c: "owner_chains okp ow nx' pr' ((trk_owner s)(i := OWNER_FREED))" by (blast intro: owner_chains_cong [OF ch])
  have "nx' j = trk_next s j \<and> pr' j = trk_prev s j" if j: "tissued s \<le> j" for j
  proof -
    have "j \<noteq> i" "dll_last (freedList s) \<noteq> Some j" using j ir freed_last(2) [OF inv(1,4), of j] by auto
    then show ?thesis using d(4,5) links [OF j] by simp
  qed
  with c d(1,2,3) show thesis using that by blast
qed

lemma free_inv_release:
  assumes "free_inv s n" "i < n" "\<forall>j. n \<le> j \<longrightarrow> nx j = trk_next s j \<and> pr j = trk_prev s j"
    "freeList s' = freeList s" "trk_next s' = nx" "trk_prev s' = pr" "trk_owner s' = (trk_owner s)(i := OWNER_FREED)"
  shows "free_inv s' n"
  using assms by (auto simp: free_inv_def)

text \<open>Leaving the owner's list.\<close>

lemma remove_owned:
  assumes ok: "tman_ok s" and t: "top_ok s t" and i: "trk_owner s i = Owner t"
  obtains l nx pr where "DLL_REMOVE trk_ok (top_owns s t) i (trk_next s) (trk_prev s) = Some (l, nx, pr)"
    "owner_chains (top_ok s) ((top_owns s)(t := l)) nx pr ((trk_owner s)(i := OWNER_FREED))"
    "\<And>j. tissued s \<le> j \<Longrightarrow> nx j = trk_next s j \<and> pr j = trk_prev s j"
proof -
  note inv = tman_okD [OF ok]
  obtain zs where zs: "dll_rep (top_owns s t) (trk_next s) (trk_prev s) zs" "set zs = {i. trk_owner s i = Owner t}"
    using inv(2) t by (auto simp: owns_inv_def owner_chains_def)
  then obtain xs ys where xy: "zs = xs @ i # ys" using i by (metis mem_Collect_eq split_list)
  have z: "j \<in> set zs \<Longrightarrow> j < tissued s \<and> j < 4096" for j using owner_range [OF inv(1), of j] zs(2) by auto
  have a: "\<forall>j \<in> set (xs @ i # ys). trk_ok j" using z xy by (simp add: trk_ok_eq)
  obtain l nx pr where d: "DLL_REMOVE trk_ok (top_owns s t) i (trk_next s) (trk_prev s) = Some (l, nx, pr)"
    "dll_rep l nx pr (xs @ ys)" "\<forall>j. j \<notin> set (xs @ ys) \<longrightarrow> nx j = trk_next s j \<and> pr j = trk_prev s j"
    using DLL_REMOVE_spec [OF zs(1) [unfolded xy] a] by metis
  have same: "nx j = trk_next s j \<and> pr j = trk_prev s j" if "j \<notin> set zs" for j
    using that d(3) xy by simp
  have e: "set (xs @ ys) = {j. ((trk_owner s)(i := OWNER_FREED)) j = Owner t}"
    using zs xy by (auto simp: dll_rep_def)
  have "owner_chains (top_ok s) ((top_owns s)(t := l)) nx pr ((trk_owner s)(i := OWNER_FREED))"
    unfolding owner_chains_def
  proof (intro allI impI)
    fix u assume u: "top_ok s u"
    show "\<exists>xs. dll_rep (((top_owns s)(t := l)) u) nx pr xs \<and> set xs = {j. ((trk_owner s)(i := OWNER_FREED)) j = Owner u}"
    proof (cases "u = t")
      case True
      then show ?thesis using d(2) e by auto
    next
      case False
      obtain ws where ws: "dll_rep (top_owns s u) (trk_next s) (trk_prev s) ws" "set ws = {i. trk_owner s i = Owner u}"
        using inv(2) u by (auto simp: owns_inv_def owner_chains_def)
      have "nx j = trk_next s j \<and> pr j = trk_prev s j" if "j \<in> set ws" for j
        using that ws(2) zs(2) False by (intro same) auto
      then have "dll_rep (top_owns s u) nx pr ws"
        using ws(1) dll_rep_cong [of ws nx "trk_next s" pr "trk_prev s"] by simp
      then show ?thesis using ws(2) False i by (intro exI [of _ ws]) auto
    qed
  qed
  moreover have "nx j = trk_next s j \<and> pr j = trk_prev s j" if "tissued s \<le> j" for j
    using z [of j] that by (intro same) auto
  ultimately show thesis using that d(1) by blast
qed

lemma release_returned:
  assumes ok: "tman_ok s" and t: "top_ok s t" and i: "trk_owner s i = Owner t"
  obtains s' where "release_type t i True s = Some s'" "tman_ok s'"
    "tbook s' = (tbook s)\<lparr>holder := (holder (tbook s))(i := None)\<rparr>"
proof -
  note inv = tman_okD [OF ok]
  have ir: "i < tissued s" "i < 4096" using owner_range [OF inv(1), of i] i by auto
  obtain l1 n1 p1 where d1: "DLL_REMOVE trk_ok (top_owns s t) i (trk_next s) (trk_prev s) = Some (l1, n1, p1)"
    "owner_chains (top_ok s) ((top_owns s)(t := l1)) n1 p1 ((trk_owner s)(i := OWNER_FREED))"
    "\<And>j. tissued s \<le> j \<Longrightarrow> n1 j = trk_next s j \<and> p1 j = trk_prev s j"
    using remove_owned [OF ok t i] by metis
  obtain l nx pr where d: "DLL_ADD_END trk_ok (freedList s) i n1 p1 = Some (l, nx, pr)" "dll_last l = Some i"
    "owner_chains (top_ok s) ((top_owns s)(t := l1)) nx pr ((trk_owner s)(i := OWNER_FREED))"
    "\<forall>j. tissued s \<le> j \<longrightarrow> nx j = trk_next s j \<and> pr j = trk_prev s j"
    by (rule release_tail [OF ok i d1(2,3)]) blast
  define s' where "s' = s\<lparr>trk_owner := (trk_owner s)(i := OWNER_FREED), top_owns := (top_owns s)(t := l1), freedList := l,
    trk_next := nx, trk_prev := pr, types_freed := (types_freed s)(t := types_freed s t + 1)\<rparr>"
  have r: "release_type t i True s = Some s'"
    using d1(1) d(1) t ir by (simp add: release_type_def trk_ok_eq top_ok_def s'_def)
  have tk: "top_ok s' = top_ok s" by (simp add: s'_def top_ok_def fun_eq_iff)
  have f: "free_inv s' (tissued s)"
    using free_inv_release [OF inv(1) ir(1) d(4), of s'] by (simp add: s'_def)
  moreover have "owns_inv s'" using d(3) unfolding owns_inv_def tk by (simp add: s'_def)
  moreover have "tops_inv s'" using inv(3) t unfolding tops_inv_def tk by (auto simp: s'_def)
  moreover have "freed_inv s'" using d(2) by (auto simp: freed_inv_def s'_def)
  moreover have "tops_end s' \<noteq> 0" using t by (simp add: s'_def top_ok_def)
  ultimately have "tman_ok s'" by (intro tman_okI)
  moreover have "tbook s' = (tbook s)\<lparr>holder := (holder (tbook s))(i := None)\<rparr>"
    unfolding tbook_def tk tissued_free_inv [OF f] by (auto simp: s'_def fun_eq_iff)
  ultimately show thesis using that r by blast
qed

text \<open>Destroying a top without children releases its first type only; the loop ends there.\<close>

lemma release_loop_None [simp]: "release_loop t None s = Some s"
  by (subst release_loop.simps) simp

lemma release_all_types:
  assumes ok: "tman_ok s" and t: "top_ok s t"
    and s1: "s1 = s\<lparr>top_state_of := (top_state_of s)(t := destroying)\<rparr>"
  obtains s' where "release_loop t (dll_first (top_owns s1 t)) s1 = Some s'"
    "owner_chains (\<lambda>u. top_ok s u \<and> u \<noteq> t) (top_owns s') (trk_next s') (trk_prev s') (trk_owner s')"
    "free_inv s' (tissued s)" "freed_inv s'"
    "\<forall>i. trk_owner s' i = trk_owner s i \<or> trk_owner s i = Owner t \<and> trk_owner s' i = OWNER_FREED"
    "top_state_of s' = top_state_of s1" "top_freed s' = top_freed s" "tops_end s' = tops_end s"
    "top_children s' = top_children s" "first_init s' = first_init s"
proof -
  note inv = tman_okD [OF ok]
  obtain zs where zs: "dll_rep (top_owns s t) (trk_next s) (trk_prev s) zs" "set zs = {i. trk_owner s i = Owner t}"
    using inv(2) t by (auto simp: owns_inv_def owner_chains_def)
  have ch: "owner_chains (\<lambda>u. top_ok s u \<and> u \<noteq> t) (top_owns s) (trk_next s) (trk_prev s) (trk_owner s)"
    using inv(2) by (auto simp: owns_inv_def owner_chains_def)
  show thesis
  proof (cases zs)
    case Nil
    then have "release_loop t (dll_first (top_owns s1 t)) s1 = Some s1" using zs(1) s1 by simp
    then show thesis using that [of s1] s1 ch inv by (simp add: free_inv_def freed_inv_def)
  next
    case (Cons i ys)
    have i: "trk_owner s i = Owner t" using zs(2) Cons by auto
    have ir: "i < tissued s" "i < 4096" using owner_range [OF inv(1), of i] i by auto
    have ch': "owner_chains (\<lambda>u. top_ok s u \<and> u \<noteq> t) (top_owns s) (trk_next s) (trk_prev s) ((trk_owner s)(i := OWNER_FREED))"
      unfolding owner_chains_def
    proof (intro allI impI)
      fix u assume u: "top_ok s u \<and> u \<noteq> t"
      then have "{j. ((trk_owner s)(i := OWNER_FREED)) j = Owner u} = {j. trk_owner s j = Owner u}" using i by auto
      then show "\<exists>xs. dll_rep (top_owns s u) (trk_next s) (trk_prev s) xs \<and>
          set xs = {j. ((trk_owner s)(i := OWNER_FREED)) j = Owner u}"
        using ch u by (simp add: owner_chains_def)
    qed
    have lk: "\<And>j. tissued s \<le> j \<Longrightarrow> trk_next s j = trk_next s j \<and> trk_prev s j = trk_prev s j" by simp
    obtain l nx pr where d:
      "DLL_ADD_END trk_ok (freedList s) i (trk_next s) (trk_prev s) = Some (l, nx, pr)" "nx i = None" "dll_last l = Some i"
      "owner_chains (\<lambda>u. top_ok s u \<and> u \<noteq> t) (top_owns s) nx pr ((trk_owner s)(i := OWNER_FREED))"
      "\<forall>j. tissued s \<le> j \<longrightarrow> nx j = trk_next s j \<and> pr j = trk_prev s j"
      by (rule release_tail [OF ok i ch' lk]) blast
    define s' where "s' = s1\<lparr>trk_owner := (trk_owner s)(i := OWNER_FREED), freedList := l,
      trk_next := nx, trk_prev := pr, types_freed := (types_freed s)(t := types_freed s t + 1)\<rparr>"
    have "release_type t i False s1 = Some s'"
      using d(1) t ir by (simp add: release_type_def trk_ok_eq top_ok_def s'_def s1)
    then have "release_loop t (dll_first (top_owns s1 t)) s1 = Some s'"
      using zs(1) Cons d(2) s1 by (subst release_loop.simps) (simp add: dll_rep_def s'_def)
    moreover have "free_inv s' (tissued s)"
      using free_inv_release [OF inv(1) ir(1) d(5), of s'] by (simp add: s'_def s1)
    moreover have "freed_inv s'" using d(3) by (simp add: freed_inv_def s'_def)
    ultimately show thesis using that [of s'] d(4) i by (simp add: s'_def s1)
  qed
qed

lemma destroy_run_simps:
  "destroy_run (Children None) s = Some s"
  "destroy_run (Children (Some c)) s = do {
     s \<leftarrow> destroy_run (Destroy c) s; kassert (top_ok s c); destroy_run (Children (top_next s c)) s }"
  by (subst destroy_run.simps, simp)+

lemma destroy_run_frees:
  assumes "destroy_run (Destroy t) s = Some s'"
  shows "t \<noteq> 0 \<and> \<not> top_ok s' t \<and> dll_first (top_children s t) = None"
proof -
  have "t \<noteq> 0 \<and> \<not> top_ok s' t" if "destroy_run (Destroy t) s = Some s'" for t s s'
    using that by (subst (asm) destroy_run.simps) (auto simp: bind_Some_conv free_top_def top_ok_def Let_def split: if_splits)
  then have c: "destroy_run (Children (Some c)) s = None" for c s
    by (cases "destroy_run (Destroy c) s") (auto simp: destroy_run_simps)
  have "dll_first (top_children s t) = None"
    using assms by (subst (asm) destroy_run.simps, cases "dll_first (top_children s t)") (auto simp: Let_def c split: if_splits)
  with assms \<open>\<And>t s s'. destroy_run (Destroy t) s = Some s' \<Longrightarrow> t \<noteq> 0 \<and> \<not> top_ok s' t\<close> show ?thesis by blast
qed

lemma destroy_top_childless:
  assumes ok: "tman_ok s" and t: "top_ok s t" "t \<noteq> 0" "dll_first (top_children s t) = None"
  obtains s' where "destroy_top t s = Some s'" "tman_ok s'"
    "tbook s' = (tbook s)\<lparr>live := (live (tbook s))(t := False),
       holder := (\<lambda>i. if holder (tbook s) i = Some t then None else holder (tbook s) i)\<rparr>"
proof -
  note inv = tman_okD [OF ok]
  define s1 where "s1 = s\<lparr>top_state_of := (top_state_of s)(t := destroying)\<rparr>"
  obtain s2 where r: "release_loop t (dll_first (top_owns s1 t)) s1 = Some s2"
    "owner_chains (\<lambda>u. top_ok s u \<and> u \<noteq> t) (top_owns s2) (trk_next s2) (trk_prev s2) (trk_owner s2)"
    "free_inv s2 (tissued s)" "freed_inv s2"
    "\<forall>i. trk_owner s2 i = trk_owner s i \<or> trk_owner s i = Owner t \<and> trk_owner s2 i = OWNER_FREED"
    "top_state_of s2 = top_state_of s1" "top_freed s2 = top_freed s" "tops_end s2 = tops_end s"
    "top_children s2 = top_children s" "first_init s2 = first_init s"
    by (rule release_all_types [OF ok t(1) s1_def]) blast
  define s' where "s' = s2\<lparr>top_state_of := (top_state_of s2)(t := destroyed), top_freed := (top_freed s2)(t := True)\<rparr>"
  have e: "destroy_top t s = Some s'"
    using t r(1,7,8) unfolding destroy_top_def
    by (subst destroy_run.simps) (simp add: s1_def [symmetric] destroy_run_simps free_top_def top_ok_def s'_def, simp add: s1_def destroy_run_simps)
  have tk: "top_ok s' = (\<lambda>u. top_ok s u \<and> u \<noteq> t)" using r(7,8) by (auto simp: top_ok_def s'_def fun_eq_iff)
  have f: "free_inv s' (tissued s)" using r(3) by (simp add: free_inv_def s'_def)
  moreover have "owns_inv s'" using r(2) unfolding owns_inv_def tk by (simp add: s'_def)
  moreover have "freed_inv s'" using r(4) by (simp add: freed_inv_def s'_def)
  moreover have "tops_end s' \<noteq> 0" using t r(8) by (simp add: s'_def top_ok_def)
  moreover have "tops_inv s'"
  proof -
    have "trk_owner s2 i = Owner u \<Longrightarrow> u < tops_end s" for i u
      using r(5) [rule_format, of i] inv(3) by (auto simp: tops_inv_def)
    then show ?thesis using inv(3) r(6,8,9,10) unfolding tops_inv_def tk by (auto simp: s'_def s1_def)
  qed
  ultimately have "tman_ok s'" by (intro tman_okI)
  moreover have "(case trk_owner s2 i of Owner u \<Rightarrow> if top_ok s u \<and> u \<noteq> t then Some u else None | _ \<Rightarrow> None) =
      (if holder (tbook s) i = Some t then None else holder (tbook s) i)" for i
    using r(5) [rule_format, of i] by (auto simp: tbook_def split: owner.splits)
  then have "tbook s' = (tbook s)\<lparr>live := (live (tbook s))(t := False),
       holder := (\<lambda>i. if holder (tbook s) i = Some t then None else holder (tbook s) i)\<rparr>"
    unfolding tbook_def [of s'] tk tissued_free_inv [OF f] using r(8,9) by (auto simp: s'_def fun_eq_iff tbook_def)
  ultimately show thesis using that e by blast
qed

lemma destroy_top_fails:
  assumes "t = 0 \<or> dll_first (top_children s t) \<noteq> None"
  shows "destroy_top t s = None"
  using assms destroy_run_frees [of t s] by (cases "destroy_run (Destroy t) s") (auto simp: destroy_top_def)

lemma seal_top_eq: "seal_top t = Some (Cap t 0 (Some 0x999))"
  by (simp add: seal_top_def tman_consts)

text \<open>A new top is appended to the children of its parent, which writes to the youngest child.\<close>

lemma malloc_top_eq:
  assumes "malloc_top s = (n, s1)"
  shows "n = tops_end s" "top_ok s1 = (top_ok s)(n := True)" "tops_end s1 = n + 1"
    "top_children s1 = (top_children s)(n := empty_dll)" "top_owns s1 = (top_owns s)(n := empty_dll)"
    "top_state_of s1 = (top_state_of s)(n := created)" "trk_next s1 = trk_next s" "trk_prev s1 = trk_prev s"
    "trk_owner s1 = trk_owner s" "freeList s1 = freeList s" "freedList s1 = freedList s" "first_init s1 = first_init s"
  using assms by (auto simp: malloc_top_def zero_top_def Let_def top_ok_def fun_eq_iff)

lemma new_top_book:
  assumes ok: "tman_ok s" and t: "top_ok s t"
  shows "(\<exists>k. dll_last (top_children s t) = Some k \<and> \<not> top_ok s k) \<Longrightarrow> new_top t s = None"
    and "\<not> (\<exists>k. dll_last (top_children s t) = Some k \<and> \<not> top_ok s k) \<Longrightarrow>
      \<exists>s'. new_top t s = Some (Cap (tops_end s) 0 (Some 0x999), s') \<and> tman_ok s' \<and>
        tbook s' = (tbook s)\<lparr>known := tops_end s + 1, live := (live (tbook s))(tops_end s := True),
          last_child := (last_child (tbook s))(t \<mapsto> tops_end s)\<rparr>"
proof -
  note inv = tman_okD [OF ok]
  let ?n = "tops_end s"
  obtain s1 where m: "malloc_top s = (?n, s1)" by (metis malloc_top_eq(1) prod.collapse)
  note e = malloc_top_eq [OF m]
  have tn: "t < ?n" using t by (simp add: top_ok_def)
  have c: "top_children s1 t = top_children s t" "top_ok s1 t" using e tn t by auto
  have k: "k < ?n" if "dll_last (top_children s t) = Some k" for k using inv(3) tn that by (auto simp: tops_inv_def)
  show "new_top t s = None" if "\<exists>k. dll_last (top_children s t) = Some k \<and> \<not> top_ok s k"
    using that k c e(2) m by (auto simp: new_top_def DLL_ADD_END_def)
  assume a: "\<not> (\<exists>k. dll_last (top_children s t) = Some k \<and> \<not> top_ok s k)"
  have "\<exists>l nx pr. DLL_ADD_END (top_ok s1) (top_children s1 t) ?n (top_next s1) (top_prev s1) = Some (l, nx, pr) \<and>
      dll_last l = Some ?n \<and> dll_first l \<noteq> None"
    using a k c e(2) inv(3) tn by (cases "dll_last (top_children s t)") (auto simp: DLL_ADD_END_def tops_inv_def)
  then obtain l nx pr where d: "DLL_ADD_END (top_ok s1) (top_children s1 t) ?n (top_next s1) (top_prev s1) = Some (l, nx, pr)"
    "dll_last l = Some ?n" "dll_first l \<noteq> None" by blast
  define s' where "s' = s1\<lparr>top_children := (top_children s1)(t := l), top_next := nx, top_prev := pr,
    top_parent := (top_parent s1)(?n := Some t)\<rparr>"
  have r: "new_top t s = Some (Cap ?n 0 (Some 0x999), s')"
    using m c d(1) by (simp add: new_top_def seal_top_eq s'_def)
  have tk: "top_ok s' = (top_ok s)(?n := True)" using e(2) by (auto simp: s'_def top_ok_def fun_eq_iff)
  have none: "trk_owner s i \<noteq> Owner ?n" for i using inv(3) by (auto simp: tops_inv_def)
  have f: "free_inv s' (tissued s)" using inv(1) e by (simp add: free_inv_def s'_def)
  moreover have "owns_inv s'"
    unfolding owns_inv_def tk owner_chains_def
  proof (intro allI impI)
    fix u assume u: "((top_ok s)(?n := True)) u"
    show "\<exists>xs. dll_rep (top_owns s' u) (trk_next s') (trk_prev s') xs \<and> set xs = {i. trk_owner s' i = Owner u}"
    proof (cases "u = ?n")
      case True
      then show ?thesis using none e by (intro exI [of _ "[]"]) (simp add: s'_def empty_dll_def)
    next
      case False
      then show ?thesis using u inv(2) e by (simp add: s'_def owns_inv_def owner_chains_def)
    qed
  qed
  moreover have "tops_inv s'"
    using inv(3) e d(2,3) tn t unfolding tops_inv_def tk
    by (auto simp: s'_def less_Suc_eq empty_dll_def)
  moreover have "freed_inv s'" using inv(4) e by (simp add: freed_inv_def s'_def)
  moreover have "tops_end s' \<noteq> 0" using e by (simp add: s'_def)
  ultimately have "tman_ok s'" by (intro tman_okI)
  moreover have "tbook s' = (tbook s)\<lparr>known := ?n + 1, live := (live (tbook s))(?n := True),
      last_child := (last_child (tbook s))(t \<mapsto> ?n)\<rparr>"
  proof -
    have "(case trk_owner s i of Owner u \<Rightarrow> if ((top_ok s)(?n := True)) u then Some u else None | _ \<Rightarrow> None) =
        (case trk_owner s i of Owner u \<Rightarrow> if top_ok s u then Some u else None | _ \<Rightarrow> None)" for i
      using none [of i] by (auto split: owner.splits)
    then show ?thesis using e d(2) tn unfolding tbook_def tk tissued_free_inv [OF f]
      by (auto simp: s'_def fun_eq_iff less_Suc_eq empty_dll_def)
  qed
  ultimately show "\<exists>s'. new_top t s = Some (Cap ?n 0 (Some 0x999), s') \<and> tman_ok s' \<and>
        tbook s' = (tbook s)\<lparr>known := ?n + 1, live := (live (tbook s))(?n := True),
          last_child := (last_child (tbook s))(t \<mapsto> ?n)\<rparr>" using r by blast
qed

lemma first_top_book:
  assumes ok: "tman_ok s"
  shows "\<exists>c s'. type_get_first_top s = Some (c, s') \<and> tman_ok s' \<and>
    book_step g Get_First_Top (tbook s) = Some (Val_top c, tbook s')"
proof (cases "first_init s")
  case True
  then have "known (tbook s) \<noteq> 0" using tman_okD(3) [OF ok] by (simp add: tops_inv_def tbook_def)
  then show ?thesis using True ok by (simp add: type_get_first_top_def)
next
  case False
  note inv = tman_okD [OF ok]
  have z: "tops_end s = 0" "\<not> top_freed s 0" using ok inv(3) False by (auto simp: tman_ok_def tops_inv_def)
  have none: "trk_owner s i \<noteq> Owner u" for i u using inv(3) z by (auto simp: tops_inv_def)
  define s' where "s' = (zero_top 0 (s\<lparr>first_init := True\<rparr>))\<lparr>tops_end := 1\<rparr>"
  have r: "type_get_first_top s = Some (Cap 0 0 (Some 0x999), s')"
    using False by (simp add: type_get_first_top_def init_top_def seal_top_eq s'_def)
  have tk: "top_ok s' = (top_ok s)(0 := True)" using z by (auto simp: s'_def zero_top_def top_ok_def fun_eq_iff)
  have f: "free_inv s' (tissued s)" using inv(1) by (simp add: free_inv_def s'_def zero_top_def)
  moreover have "owns_inv s'" unfolding owns_inv_def tk owner_chains_def
    using z none by (auto simp: s'_def zero_top_def top_ok_def empty_dll_def intro: exI [of _ "[]"])
  moreover have "tops_inv s'" using z none unfolding tops_inv_def tk by (auto simp: s'_def zero_top_def empty_dll_def top_ok_def)
  moreover have "freed_inv s'" using inv(4) by (simp add: freed_inv_def s'_def zero_top_def)
  moreover have "tops_end s' \<noteq> 0" by (simp add: s'_def)
  ultimately have "tman_ok s'" by (intro tman_okI)
  moreover have "book_step g Get_First_Top (tbook s) = Some (Val_top (Cap 0 0 (Some 0x999)), tbook s')"
    using z none unfolding tbook_def tk tissued_free_inv [OF f]
    by (auto simp: s'_def zero_top_def empty_dll_def fun_eq_iff split: owner.splits)
  ultimately show ?thesis using r by blast
qed

subsection \<open>The methods\<close>

definition in_books :: "('r type_result \<times> tman) option \<Rightarrow> ('r type_result \<times> type_book) option \<Rightarrow> bool" where
  "in_books m b \<longleftrightarrow> map_option (apsnd tbook) m = b \<and> (\<forall>r s. m = Some (r, s) \<longrightarrow> tman_ok s)"

lemma in_books_None [simp]: "in_books None None"
  by (simp add: in_books_def)

lemma in_books_Some [simp]: "in_books (Some (r, s)) (Some (r', b)) \<longleftrightarrow> r = r' \<and> tbook s = b \<and> tman_ok s"
  by (auto simp: in_books_def)

lemma on_top_books:
  assumes ok: "tman_ok s" and f: "\<And>t. top_ok s t \<Longrightarrow> in_books (f t) (g t)"
  shows "in_books (do { itop \<leftarrow> unseal_top c s;
      case itop of None \<Rightarrow> Some (Er TYPE_ER_INVALID_TOP, s) | Some t \<Rightarrow> f t }) (on_top c (tbook s) g)"
proof (cases "cheri_unseal_2 c 0x999")
  case None
  then show ?thesis using ok by (simp add: unseal_top_def on_top_def tman_consts)
next
  case (Some t)
  have "safe_state s t = created \<longleftrightarrow> top_ok s t" if "t < tops_end s"
    using tman_okD(3) [OF ok] that by (auto simp: safe_state_def top_ok_def tops_inv_def)
  then show ?thesis using Some ok f [of t]
    by (cases "t < tops_end s") (auto simp: unseal_top_def on_top_def tman_consts tbook_def)
qed

lemma tbook_sels:
  "issued (tbook s) = tissued s" "live (tbook s) = top_ok s" "known (tbook s) = tops_end s"
  "t < tops_end s \<Longrightarrow> last_child (tbook s) t = dll_last (top_children s t)"
  by (simp_all add: tbook_def)

lemma new_tres_books:
  assumes ok: "tman_ok s" and t: "top_ok s t" and n: "tissued s < 4096"
  shows "in_books (map_option (apfst Val_tres) (new_tres g (Some (tissued s)) t s)) (Some (issue g t (tbook s)))"
  by (rule new_tres_first [OF ok n t, of g]) (simp add: issue_def tbook_sels)

lemma new_top_books: "tman_ok s \<Longrightarrow> in_books (type_new_top c s) (book_step g (New_Top c) (tbook s))"
  unfolding type_new_top_def book_step.simps
proof (rule on_top_books)
  fix t assume ok: "tman_ok s" and t: "top_ok s t"
  then show "in_books (map_option (apfst Val_top) (new_top t s))
     (if \<exists>k. last_child (tbook s) t = Some k \<and> \<not> live (tbook s) k then None
      else Some (Val_top (Cap (known (tbook s)) 0 (Some 0x999)), (tbook s)
        \<lparr>known := known (tbook s) + 1, live := (live (tbook s))(known (tbook s) := True),
         last_child := (last_child (tbook s))(t \<mapsto> known (tbook s))\<rparr>))"
    using new_top_book [OF ok t] by (auto simp: tbook_sels top_ok_def [of s t])
qed

lemma destroy_top_books: "tman_ok s \<Longrightarrow> in_books (type_destroy_top c s) (book_step g (Destroy_Top c) (tbook s))"
  unfolding type_destroy_top_def book_step.simps
proof (rule on_top_books)
  fix t assume ok: "tman_ok s" and t: "top_ok s t"
  then have l: "last_child (tbook s) t = dll_last (top_children s t)"
    "dll_first (top_children s t) = None \<longleftrightarrow> dll_last (top_children s t) = None"
    using tman_okD(3) [OF ok] by (auto simp: tbook_sels top_ok_def tops_inv_def)
  show "in_books (do { s \<leftarrow> destroy_top t s; Some (Er TYPE_OK, s) })
     (if t = 0 \<or> last_child (tbook s) t \<noteq> None then None
      else Some (Er 0, (tbook s)\<lparr>live := (live (tbook s))(t := False),
        holder := (\<lambda>i. if holder (tbook s) i = Some t then None else holder (tbook s) i)\<rparr>))"
  proof (cases "t = 0 \<or> last_child (tbook s) t \<noteq> None")
    case True
    then show ?thesis using destroy_top_fails [of t s] l by auto
  next
    case False
    then have c: "t \<noteq> 0" "dll_first (top_children s t) = None" using l by auto
    show ?thesis by (rule destroy_top_childless [OF ok t c]) (use False in \<open>simp add: tman_consts\<close>)
  qed
qed

lemma get_new_books: "tman_ok s \<Longrightarrow> in_books (type_get_new g c s) (book_step g (Get_New c) (tbook s))"
  unfolding type_get_new_def book_step.simps
proof (rule on_top_books)
  fix t assume ok: "tman_ok s" and t: "top_ok s t"
  have "find_free_tracker s = (if tissued s < 4096 then Some (tissued s) else None)" "tissued s \<le> 4096"
    using tman_okD(1) [OF ok] by (auto simp: find_free_tracker_def free_inv_def free_dll_def)
  then show "in_books (map_option (apfst Val_tres) (new_tres g (find_free_tracker s) t s))
     (if issued (tbook s) = 4096 then None else Some (issue g t (tbook s)))"
    using new_tres_books [OF ok t, of g] by (auto simp: tbook_sels new_tres_def)
qed

lemma get_new_exact_books:
  "tman_ok s \<Longrightarrow> in_books (type_get_new_exact g c type s) (book_step g (Get_New_Exact c type) (tbook s))"
  unfolding type_get_new_exact_def book_step.simps
proof (rule on_top_books)
  fix t assume ok: "tman_ok s" and t: "top_ok s t"
  let ?i = "unat type - 0x1000"
  have "trk_owner s ?i = OWNER_FREE \<longleftrightarrow> tissued s \<le> ?i" using tman_okD(1) [OF ok] by (simp add: free_inv_def)
  then show "in_books
     (if type < USER_TYPES_START \<or> type \<ge> USER_TYPES_END then Some (Er TYPE_ER_OUT_OF_RANGE, s)
      else let i = type_to_tracker type
           in if trk_owner s i \<noteq> OWNER_FREE then Some (Er TYPE_ER_TYPE_USED, s)
              else map_option (apfst Val_tres) (new_tres g (Some i) t s))
     (if unat type < 0x1000 \<or> unat type \<ge> 0x2000 then Some (Er (-4), tbook s)
      else if unat type < 0x1000 + issued (tbook s) then Some (Er (-3), tbook s)
      else if unat type = 0x1000 + issued (tbook s) then Some (issue g t (tbook s)) else None)"
    using new_tres_books [OF ok t, of g] new_tres_other [OF ok, of ?i g t] ok
    by (auto simp: type_range type_to_tracker_eq tbook_sels Let_def TYPE_ER_OUT_OF_RANGE_def TYPE_ER_TYPE_USED_def)
qed

lemma return_type_books:
  "tman_ok s \<Longrightarrow> in_books (type_return_type c type s) (book_step g (Return_Type c type) (tbook s))"
  unfolding type_return_type_def book_step.simps
proof (rule on_top_books)
  fix t assume ok: "tman_ok s" and t: "top_ok s t"
  let ?i = "unat type - 0x1000"
  have h: "holder (tbook s) ?i = Some t \<longleftrightarrow> trk_owner s ?i = Owner t"
    using t by (auto simp: tbook_def split: owner.splits)
  have "in_books (do { s \<leftarrow> release_type t ?i True s; Some (Er TYPE_OK, s) })
      (Some (Er 0, (tbook s)\<lparr>holder := (holder (tbook s))(?i := None)\<rparr>))" if "trk_owner s ?i = Owner t"
    by (rule release_returned [OF ok t that]) (simp add: tman_consts)
  then show "in_books
     (if type < USER_TYPES_START \<or> type \<ge> USER_TYPES_END then Some (Er TYPE_ER_OUT_OF_RANGE, s)
      else let i = type_to_tracker type
           in if trk_owner s i \<noteq> Owner t then Some (Er TYPE_ER_DOES_NOT_OWN, s)
              else do { s \<leftarrow> release_type t i True s; Some (Er TYPE_OK, s) })
     (if unat type < 0x1000 \<or> unat type \<ge> 0x2000 then Some (Er (-4), tbook s)
      else if holder (tbook s) ?i = Some t then Some (Er 0, (tbook s)\<lparr>holder := (holder (tbook s))(?i := None)\<rparr>)
      else Some (Er (-5), tbook s))"
    using ok h
    by (auto simp: type_range type_to_tracker_eq Let_def TYPE_ER_OUT_OF_RANGE_def TYPE_ER_DOES_NOT_OWN_def)
qed

lemma type_method_books: "tman_ok s \<Longrightarrow> in_books (type_method g x s) (book_step g x (tbook s))"
proof (cases x)
  case Get_First_Top
  assume "tman_ok s"
  then show ?thesis using Get_First_Top first_top_book [of s g] by auto
qed (simp_all only: type_method.simps new_top_books destroy_top_books get_new_books get_new_exact_books return_type_books)

interpretation tmv: service "type_method g" "book_step g" tman_ok tbook "\<lambda>_. True" for g
  using type_method_books [of _ g] by unfold_locales (auto simp: in_books_def)

definition empty_book :: type_book where
  "empty_book = \<lparr>issued = 0, holder = Map.empty, live = (\<lambda>_. False), last_child = Map.empty, known = 0\<rparr>"

lemma tman_init_ok: "tman_ok tman_init" "tbook tman_init = empty_book"
proof -
  have f: "free_inv tman_init 0"
    by (auto simp: free_inv_def tman_init_def init_tracking_def tman_zero_def tman_consts free_dll_def Let_def)
  have "owns_inv tman_init" "tops_inv tman_init" "freed_inv tman_init"
    by (auto simp: owns_inv_def owner_chains_def tops_inv_def freed_inv_def top_ok_def tman_init_def init_tracking_def
        tman_zero_def empty_dll_def Let_def)
  with f show "tman_ok tman_init"
    by (simp add: tman_ok_def tissued_free_inv) (simp add: tman_init_def init_tracking_def tman_zero_def Let_def)
  show "tbook tman_init = empty_book" unfolding tbook_def tissued_free_inv [OF f]
    by (simp add: empty_book_def top_ok_def tman_init_def init_tracking_def tman_zero_def Let_def fun_eq_iff)
qed

subsection \<open>No type is issued twice\<close>

fun tres_in :: "'r type_result list \<Rightarrow> 'r list" where
  "tres_in [] = []"
| "tres_in (Val_tres v # rs) = v # tres_in rs"
| "tres_in (_ # rs) = tres_in rs"

lemma book_step_issues:
  assumes "book_step g x b = Some (r, b')"
  shows "(\<exists>t. issue g t b = (r, b')) \<or> (\<forall>v. r \<noteq> Val_tres v) \<and> issued b' = issued b"
  using assms by (cases x) (auto simp: on_top_def split: option.splits if_splits)

lemma book_run_issues:
  "run_service (book_step g) xs b = Some (rs, b') \<Longrightarrow>
    issued b \<le> issued b' \<and> tres_in rs = map (\<lambda>i. g (of_nat (0x1000 + i))) [issued b..<issued b']"
proof (induction xs arbitrary: b rs)
  case (Cons x xs)
  then obtain r b1 rs1 where x: "book_step g x b = Some (r, b1)" "run_service (book_step g) xs b1 = Some (rs1, b')" "rs = r # rs1"
    by (auto simp: bind_Some_conv split: prod.splits)
  note ih = Cons.IH [OF x(2)]
  from book_step_issues [OF x(1)] show ?case
  proof
    assume "\<exists>t. issue g t b = (r, b1)"
    then have "r = Val_tres (g (of_nat (0x1000 + issued b)))" "issued b1 = issued b + 1" by (auto simp: issue_def)
    then show ?case using ih x(3) upt_conv_Cons [of "issued b" "issued b'"] by simp
  next
    assume "(\<forall>v. r \<noteq> Val_tres v) \<and> issued b1 = issued b"
    then show ?case using ih x(3) by (cases r) auto
  qed
qed simp

text \<open>
  C33. No type is issued twice: over every sequence of requests from start-up, returns and
  destructions of tops among them, the reservations that are handed out are those of the
  types from \<open>USER_TYPES_START\<close> upwards, without a gap, at most 4096 of them, and are
  pairwise different if the nanokernel's \<open>tres_get\<close> gives different types different
  reservations.
\<close>

theorem types_issued_once:
  assumes "run_service (type_method g) xs tman_init = Some (rs, s)"
  shows "\<exists>k. k \<le> 4096 \<and> tres_in rs = map (\<lambda>i. g (of_nat (0x1000 + i))) [0..<k] \<and> (inj g \<longrightarrow> distinct (tres_in rs))"
proof -
  have "run_service (book_step g) xs empty_book = Some (rs, tbook s)"
    using tmv.run_simulates [OF tman_init_ok(1), of xs g] assms by (simp add: tman_init_ok(2) list_all_iff)
  from book_run_issues [OF this] have rs: "tres_in rs = map (\<lambda>i. g (of_nat (0x1000 + i))) [0..<tissued s]"
    by (simp add: empty_book_def tbook_sels)
  have "tman_ok s" using tmv.run_keeps [OF tman_init_ok(1) _ assms] by (simp add: list_all_iff)
  then have k: "tissued s \<le> 4096" using tman_okD(1) [of s] by (simp add: free_inv_def)
  have "i = j" if "(of_nat (0x1000 + i) :: u32) = of_nat (0x1000 + j)" "i < tissued s" "j < tissued s" for i j
    using arg_cong [OF that(1), of unat] that(2,3) k unfolding unat_of_nat by (simp add: take_bit_nat_eq_self)
  then have "distinct (tres_in rs)" if "inj g"
    using that by (auto simp: rs distinct_map intro!: inj_onI dest: injD)
  then show ?thesis using rs k by blast
qed

theorem types_issued_once_witness:
  "\<exists>rs s. run_service (type_method (\<lambda>t. t)) [Get_First_Top, Get_New (Cap 0 0 (Some 0x999)), Return_Type (Cap 0 0 (Some 0x999)) 0x1000,
       Get_New (Cap 0 0 (Some 0x999))] tman_init = Some (rs, s)
     \<and> tres_in rs = [0x1000, 0x1001] \<and> distinct (tres_in rs)"
proof -
  let ?xs = "[Get_First_Top, Get_New (Cap 0 0 (Some 0x999)), Return_Type (Cap 0 0 (Some 0x999)) 0x1000, Get_New (Cap 0 0 (Some 0x999))]"
  obtain b where "run_service (book_step (\<lambda>t. t)) ?xs empty_book
      = Some ([Val_top (Cap 0 0 (Some 0x999)), Val_tres 0x1000, Er 0, Val_tres 0x1001], b)"
    by (simp add: empty_book_def on_top_def issue_def cheri_unseal_2_def)
  then obtain s where s: "run_service (type_method (\<lambda>t. t)) ?xs tman_init
      = Some ([Val_top (Cap 0 0 (Some 0x999)), Val_tres 0x1000, Er 0, Val_tres 0x1001], s)"
    using tmv.run_simulates [OF tman_init_ok(1), of ?xs "\<lambda>t. t"] by (auto simp: tman_init_ok(2) list_all_iff)
  have "inj (\<lambda>t :: u32. t)" by simp
  with types_issued_once [OF s] s show ?thesis by fastforce
qed

text \<open>
  C22. For every sequence of requests from start-up the type manager replies as its contract
  says: types are issued in ascending order, each to one top and never again, a type can be
  returned only by its holder, and a destroyed top is refused. The model stops
  exactly where the contract does. It traps when all types are issued and when a free type
  other than the lowest is requested. It frees memory that was not allocated when the first
  top is destroyed, and uses freed memory, with an outcome that is left open, when a top
  with children is destroyed or a top is made below one whose youngest child is destroyed.
\<close>

theorem type_manager_refines:
  "map_option fst (run_service (type_method g) xs tman_init) = map_option fst (run_service (book_step g) xs empty_book)"
proof -
  have "map_option (apsnd tbook) (run_service (type_method g) xs tman_init) = run_service (book_step g) xs empty_book"
    using tmv.run_simulates [OF tman_init_ok(1), of xs g] by (simp add: tman_init_ok(2) list_all_iff)
  from this [symmetric] show ?thesis by (simp add: option.map_comp comp_def)
qed

end
