(* ===== verification/Spec2Isabelle.thy ===== *)
theory Spec2Isabelle
  imports Sched_Fair Msg_Tokens Mutex Syscalls Pager Block_Cache Act_Events Namespace Type_Books
begin

text \<open>
  A verification of parts of CheriOS (a capability microkernel with its system services)
  and of the remote memory project \<open>ECS251_Disaggregated_Memory\<close> that lives in the same
  repository. Paths below are relative to \<open>src/\<close>.

  \<^bold>\<open>The program.\<close> The kernel (\<open>cherios/kernel\<close>) runs on a nanokernel that provides
  contexts, reservations and sealing. It schedules activations, its unit of execution,
  passes messages between them, turns interrupts into messages, and keeps the clock. User
  activations enter it through system calls. The block cache is a system service that
  receives its requests as messages and through sockets; the name space, the activation
  events and the type manager are services that answer messages. The remote memory consists of a
  page server, a client library and a pager that fetches pages in a signal handler; they
  are ordinary POSIX programs.

  \<^bold>\<open>Conventions.\<close> Theory \<open>Prelude\<close> fixes them. Machine integers are words of their width, so
  arithmetic wraps as in C. A C function that can panic, trap, fail an assertion or spin
  for ever returns an option, and None is that failure; error codes are ordinary values.
  Global variables are fields of a state record that every operation takes and returns.
  Code outside of the repository's C sources is an argument of the definitions that call
  it: the nanokernel (\<open>nano_env\<close>, \<open>res_ops\<close>, the object types of sealing capabilities), the
  hardware counters, \<open>malloc\<close>, the socket library and the operating system.

  \<^bold>\<open>Kernel state.\<close> \<open>Kernel_State\<close> has the records of \<open>activations.h\<close>, \<open>sched.h\<close>, \<open>mutex.h\<close> and
  \<open>queue.h\<close> and the record \<open>kstate\<close> of the kernel's globals; activations are a store indexed
  by address, spinlocks are flags.

  \<^bold>\<open>Scheduler\<close> (\<open>kernel/src/sched.c\<close>). \<open>Sched\<close> defines every function of the file and
  \<open>Timer_Queue\<close> the part of \<open>timer.c\<close> it calls. \<open>Sched_Queue\<close> shows that the run queues hold
  exactly the activations they should, \<open>Sched_Inv\<close> states the invariants \<open>sched_inv\<close> (also
  while locks are held) and \<open>kernel_inv\<close> (between operations), \<open>Sched_Ops\<close>, \<open>Sched_Events\<close> and
  \<open>Sched_Correct\<close> that each operation returns and keeps them, and \<open>Sched_Steps\<close> defines the
  step relation of the scheduler. \<open>Sched_Props\<close> and \<open>Sched_Fair\<close> draw the conclusions: no
  reachable state panics, the queues are exact, which activation is chosen, no
  notification is lost, round robin within a level; and where the code fails (deleting an
  activation that runs on another core, a leaked sleep slot).

  \<^bold>\<open>Timer\<close> (\<open>kernel/src/timer.c\<close>): the tick wakes exactly the sleepers whose time has come,
  the clock is exact as long as it is read once per wrap of the counter, and the re-arming
  loop, a partial function, returns except near the wrap of the counter.

  \<^bold>\<open>Messages\<close> (\<open>kernel/src/msg.c\<close>, \<open>libuser/src/msg.c\<close>). \<open>Fifo\<close> is the interface of a bounded
  queue as a locale, with what a client can conclude. \<open>Msg_Queue\<close> defines the ring that
  kernel and activation share, \<open>Msg_Ring\<close> interprets the locale on it and shows how long the
  promise holds, \<open>Msg\<close> defines sending, synchronous calls and reply tokens and shows
  delivery and the round trip of a call. \<open>Msg_Tokens\<close> follows the tokens over histories of
  sends, replies and the rest of the kernel: no token is issued twice, and none is accepted
  twice. It assumes of the nanokernel that memory is taken from a reservation once.

  \<^bold>\<open>Interrupts\<close> (\<open>kernel/src/interrupts.c\<close>, \<open>interrupts_mask\<close> of the nanokernel): delivery of
  pending lines as messages, and, over histories of whole system calls and interrupts,
  that the controller lets through only registered lines of the kernel's masks, all of them
  on a core whose lines are on. An interrupt that the handler does not expect is part of
  these histories; it lets the lines of the mask through even on a core that is switched off.
  \<^bold>\<open>Mutex\<close> (\<open>kernel/src/mutex.c\<close>): the non-blocking operations are a re-entrant lock, the
  blocking one does not exclude: a caller that finds the mutex held goes on to own it, at
  once or when it runs again. \<^bold>\<open>Activations\<close> (\<open>kernel/src/act.c\<close>): \<open>Act_List\<close> is the linked
  list of activations as a refinement of a HOL list, with traversals as partial functions
  that are shown to return on well-formed lists; \<open>Act\<close> is creation, termination and boot.
  \<^bold>\<open>Syscalls\<close> (\<open>kernel/src/syscalls.c\<close>): the entry points, composed from the theories above,
  keep \<open>kernel_inv\<close> and do not panic.

  \<^bold>\<open>Remote memory\<close> (\<open>ECS251_Disaggregated_Memory/disaggregatedMemory\<close>). \<open>Net_Stream\<close> models a
  connection as what \<open>recv\<close> and \<open>send\<close> are going to answer; \<open>read_full\<close> does not depend on how the
  stream is cut. \<open>Page_Server\<close> (\<open>memsrv_page.c\<close>) refines an abstract store of pages, \<open>Netmem\<close>
  (\<open>netmem_page.c\<close>) is the client, and both together are an array of pages. \<open>Pager\<close>
  (\<open>disagg_pager.c\<close>) models the signal handler, which can interrupt itself, as a partial
  function; it shows what a flush writes and that the first access to a page does not
  complete.

  \<^bold>\<open>Block cache\<close> (\<open>cherios/system/block_cache\<close>). \<open>Ring_Buf\<close> is the macros of
  \<open>include/ringbuffers.h\<close>, a second interpretation of the queue interface. \<open>AES\<close> is the cipher
  of \<open>aes.c\<close>: decryption inverts encryption for every key schedule, and the published test
  vector holds. \<open>Block_Cache\<close> is sector access with delayed answers and the byte streams of
  sockets; clients' buffers and the cipher contexts of unlocked keys are stores indexed by
  address, since several sockets may share one.

  \<^bold>\<open>Message services.\<close> \<open>Service\<close> is the interface of a service that answers one message after
  the other: a locale in which a simulation of single methods is lifted to every sequence
  of requests. It is interpreted three times. \<open>Act_Events\<close> (\<open>cherios/system/activation_events\<close>)
  implements one list of subscriptions for each event and target. \<open>Namespace\<close>
  (\<open>cherios/core/namespace\<close>), over the string functions of \<open>libcrt\<close> in \<open>C_String\<close>, implements a
  directory. \<open>Type_Manager\<close> (\<open>cherios/system/type_manager\<close>) is defined on the linked lists of
  \<open>include/lists.h\<close>, for which \<open>DLL\<close> shows that adding and removing implement the operations
  on HOL lists and change no other links; \<open>Type_Books\<close> shows that it implements a book of
  types that are issued once. The contracts say where the services trap (unsubscribing the
  last subscriber, a long name with an extension, a type out of order) and where the type
  manager uses freed memory (destroying a top with children). The allocator leaves the
  outcome of such a use open, an exception or unchanged data, and the model stops there.

  \<^bold>\<open>Loops.\<close> A loop with a bound is a function with its measure. A loop that may not end is a
  partial function to an option, and the theorems that say it returns are stated as such;
  no fuel is used. Sequences of steps are bounded only where the code is: the removals that
  a queue with wrapping indices can take (\<open>ring_budget\<close>, \<open>rb_budget\<close>) are counted up to the
  first wrap, and the histories of reply tokens are shorter than the range of the 64-bit
  sequence number.

  \<^bold>\<open>Concurrency.\<close> An operation of the kernel runs with the locks it takes in the source; the
  step relations interleave whole operations of all cores. Interleavings inside an operation
  are not modelled.

  \<^bold>\<open>Not modelled.\<close> The nanokernel, boot code and device drivers are assembly or access to
  devices. The third-party trees \<open>lwip\<close>, \<open>zlib\<close> and the FAT file system are separate programs
  with contracts of their own. The memory manager, the dynamic linker, the socket library
  and the process manager are built from capability arithmetic on memory
  that a model with abstract addresses does not capture; the tests, benchmarks and demos
  have no contract. In the modelled parts, printing, statistics, debug counters, the polling
  loop of the block cache and the accept loop of the page server are left out.
\<close>

end
